(* ===== verification/Kortex_Prelude.thy ===== *)
theory Kortex_Prelude
  imports Main
    "HOL-Library.Word"
    "HOL-Library.AList"
    "HOL-Library.Char_ord"
    "HOL-Library.List_Lexorder"
    "HOL-Library.Multiset"
begin

text \<open>
  What the components share: the machine types of the Go program, the panics of
  Go as missing values, Go's truncating remainder, the decimal printers of
  \<^verbatim>\<open>strconv\<close> and \<^verbatim>\<open>time\<close>, maps as association lists with distinct keys, and generic
  lemmas on lists and words.
\<close>

unbundle bit_operations_syntax

section \<open>Machine types\<close>

text \<open>
  Go's fixed-width integers are words.  A signed and an unsigned value of the
  same width have the same bits, so a Go conversion between them is the identity
  here; comparisons name the reading they use (\<open>\<le>\<close> on words is the unsigned
  order, \<open>\<le>s\<close> and \<open>sint\<close> the signed one).  A Go string is a byte string, which is
  what a \<open>char list\<close> is.
\<close>

type_synonym u8 = "8 word"
type_synonym u32 = "32 word"
type_synonym u64 = "64 word"
type_synonym i64 = "64 word"

named_theorems word_val
  \<comment> \<open>readings of word operations as numbers\<close>

lemma unat64_less: "unat (x :: u64) < 2 ^ 64"
  using unsigned_less [of x] by simp

lemma unat32_less: "unat (x :: u32) < 2 ^ 32"
  using unsigned_less [of x] by simp

lemma unat_of_nat64 [word_val]: "n < 2 ^ 64 \<Longrightarrow> unat (of_nat n :: u64) = n"
  by (simp add: unat_of_nat take_bit_nat_eq_self)

lemma unat_of_nat32 [word_val]: "n < 2 ^ 32 \<Longrightarrow> unat (of_nat n :: u32) = n"
  by (simp add: unat_of_nat take_bit_nat_eq_self)

lemma high_bits_clear:
  assumes "uint (x :: u64) < 2 ^ k" "k \<le> n"
  shows "\<not> bit x n"
proof
  assume b: "bit x n"
  have "take_bit k (uint x) = uint x" using assms(1) by (simp add: take_bit_int_eq_self)
  moreover have "bit (uint x) n" using b bit_imp_le_length [OF b] by (simp add: bit_uint_iff)
  ultimately have "bit (take_bit k (uint x)) n" by simp
  then show False using assms(2) by (simp add: bit_take_bit_iff)
qed

lemma uint_of_sint: "0 \<le> sint (x :: i64) \<Longrightarrow> uint x = sint x"
  using sint_lt [of x] by (simp add: uint_sint [of x] take_bit_int_eq_self)

lemma sint_of_uint: "uint (x :: i64) < 2 ^ 63 \<Longrightarrow> sint x = uint x"
  using order_trans [of "- (2 ^ 63)" 0 "uint x"]
  by (simp add: sint_uint) (rule signed_take_bit_int_eq_self, simp_all)

lemma shift_down_sint: "sint (signed_drop_bit k (x :: i64)) = sint x div 2 ^ k"
  by (simp add: sint_signed_drop_bit_eq drop_bit_eq_div)

lemma and_mask_uint: "uint ((x :: i64) AND mask k) = uint x mod 2 ^ k"
  unfolding take_bit_eq_mask [symmetric] unsigned_take_bit_eq by (rule take_bit_eq_mod)

section \<open>Signed remainder\<close>

text \<open>Go's \<^verbatim>\<open>%\<close> truncates towards zero: the remainder has the dividend's sign.\<close>

definition go_rem :: "int \<Rightarrow> int \<Rightarrow> int" where
  "go_rem a b = sgn a * (\<bar>a\<bar> mod \<bar>b\<bar>)"

lemma go_rem_nonneg: "0 \<le> a \<Longrightarrow> 0 < b \<Longrightarrow> go_rem a b = a mod b"
  by (cases "a = 0") (auto simp: go_rem_def)

section \<open>Decimal printing\<close>

definition digit_char :: "nat \<Rightarrow> char" where
  "digit_char d = char_of (48 + d)"

fun nat_digits :: "nat \<Rightarrow> string" where
  "nat_digits n = (if n < 10 then [digit_char n] else nat_digits (n div 10) @ [digit_char (n mod 10)])"

declare nat_digits.simps [simp del]

text \<open>\<^verbatim>\<open>strconv.Itoa\<close> and \<^verbatim>\<open>strconv.FormatInt(_, 10)\<close>.\<close>

definition itoa :: "int \<Rightarrow> string" where
  "itoa n = (if n < 0 then ''-'' @ nat_digits (nat (- n)) else nat_digits (nat n))"

text \<open>The zero-padded decimal of \<^verbatim>\<open>time.Format\<close> (\<^verbatim>\<open>appendInt\<close>): the sign first, then at
  least \<open>w\<close> digits.\<close>

definition pad_int :: "nat \<Rightarrow> int \<Rightarrow> string" where
  "pad_int w n =
     (let ds = nat_digits (nat \<bar>n\<bar>)
      in (if n < 0 then ''-'' else '''') @ replicate (w - length ds) (CHR ''0'') @ ds)"

text \<open>
  Exactly \<open>w\<close> decimal digits.  Below \<open>10 ^ w\<close> this is what \<^const>\<open>pad_int\<close> prints, and
  comparing such strings compares the numbers.
\<close>

fun fixed_digits :: "nat \<Rightarrow> nat \<Rightarrow> string" where
  "fixed_digits 0 n = []"
| "fixed_digits (Suc w) n = fixed_digits w (n div 10) @ [digit_char (n mod 10)]"

lemma length_fixed_digits [simp]: "length (fixed_digits w n) = w"
  by (induction w arbitrary: n) auto

lemma of_char_digit [simp]: "d < 10 \<Longrightarrow> (of_char (digit_char d) :: nat) = 48 + d"
  by (simp add: digit_char_def)

lemma digit_char_less [simp]: "a < 10 \<Longrightarrow> b < 10 \<Longrightarrow> digit_char a < digit_char b \<longleftrightarrow> a < b"
  by (simp add: less_char_def)

lemma digit_char_inj [simp]: "a < 10 \<Longrightarrow> b < 10 \<Longrightarrow> digit_char a = digit_char b \<longleftrightarrow> a = b"
  by (metis add_left_cancel of_char_digit)

lemma append_less_iff:
  fixes a b x y :: "'a :: linorder list"
  assumes "length a = length b"
  shows "a @ x < b @ y \<longleftrightarrow> a < b \<or> (a = b \<and> x < y)"
  using assms by (induction a b rule: list_induct2) auto

lemma fixed_digits_inj:
  "n < 10 ^ w \<Longrightarrow> m < 10 ^ w \<Longrightarrow> fixed_digits w n = fixed_digits w m \<longleftrightarrow> n = m"
proof (induction w arbitrary: n m)
  case (Suc w)
  then have "n div 10 < 10 ^ w" "m div 10 < 10 ^ w" by auto
  with Suc.IH show ?case by (auto, metis div_mult_mod_eq)
qed simp

lemma lex_digit:
  fixes q q' r r' :: nat
  assumes "r < 10" "r' < 10"
  shows "10 * q + r < 10 * q' + r' \<longleftrightarrow> q < q' \<or> (q = q' \<and> r < r')"
  using assms by arith

lemma fixed_digits_less:
  "n < 10 ^ w \<Longrightarrow> m < 10 ^ w \<Longrightarrow> fixed_digits w n < fixed_digits w m \<longleftrightarrow> n < m"
proof (induction w arbitrary: n m)
  case (Suc w)
  then have b: "n div 10 < 10 ^ w" "m div 10 < 10 ^ w" by auto
  have "n < m \<longleftrightarrow> n div 10 < m div 10 \<or> (n div 10 = m div 10 \<and> n mod 10 < m mod 10)"
    using lex_digit [of "n mod 10" "m mod 10" "n div 10" "m div 10"] by simp
  with Suc.IH [OF b] fixed_digits_inj [OF b] show ?case
    by (simp add: append_less_iff)
qed simp

lemma digit_char_0 [simp]: "digit_char 0 = CHR ''0''"
  by code_simp

lemma fixed_digits_zero: "fixed_digits w 0 = replicate w (CHR ''0'')"
  by (induction w) (auto simp: replicate_append_same)

lemma fixed_digits_pad:
  "0 < w \<Longrightarrow> n < 10 ^ w \<Longrightarrow>
     replicate (w - length (nat_digits n)) (CHR ''0'') @ nat_digits n = fixed_digits w n"
proof (induction w arbitrary: n)
  case (Suc w)
  show ?case
  proof (cases "n < 10")
    case True
    then show ?thesis by (simp add: nat_digits.simps [of n] fixed_digits_zero)
  next
    case False
    then have "n div 10 < 10 ^ w" "0 < w" using Suc.prems by (auto intro: Nat.gr0I)
    from Suc.IH [OF this(2,1)] False show ?thesis
      by (simp add: nat_digits.simps [of n])
  qed
qed simp

lemma pad_int_fixed: "0 < w \<Longrightarrow> 0 \<le> n \<Longrightarrow> n < 10 ^ w \<Longrightarrow> pad_int w n = fixed_digits w (nat n)"
  by (simp add: pad_int_def Let_def fixed_digits_pad nat_less_iff)

section \<open>Maps as association lists\<close>

text \<open>
  A Go map is an association list with distinct keys.  \<^verbatim>\<open>range\<close> visits the entries
  in list order; Go leaves that order open, and since the laws below are stated
  for every list with distinct keys they hold for whichever order is taken.
\<close>

type_synonym ('k, 'v) gomap = "('k \<times> 'v) list"

definition wf_map :: "('k, 'v) gomap \<Rightarrow> bool" where
  "wf_map m \<longleftrightarrow> distinct (map fst m)"

text \<open>\<^verbatim>\<open>m[k]\<close>, with the zero value where the key is missing.\<close>

definition mget :: "'v \<Rightarrow> ('k, 'v) gomap \<Rightarrow> 'k \<Rightarrow> 'v" where
  "mget z m k = (case map_of m k of None \<Rightarrow> z | Some v \<Rightarrow> v)"

abbreviation mput :: "'k \<Rightarrow> 'v \<Rightarrow> ('k, 'v) gomap \<Rightarrow> ('k, 'v) gomap" where
  "mput \<equiv> AList.update"

abbreviation mdel :: "'k \<Rightarrow> ('k, 'v) gomap \<Rightarrow> ('k, 'v) gomap" where
  "mdel \<equiv> AList.delete"

lemma wf_map_Nil [simp]: "wf_map []"
  by (simp add: wf_map_def)

lemma wf_map_put [simp]: "wf_map m \<Longrightarrow> wf_map (mput k v m)"
  by (simp add: wf_map_def distinct_update)

lemma wf_map_del [simp]: "wf_map m \<Longrightarrow> wf_map (mdel k m)"
  by (simp add: wf_map_def distinct_delete)

lemma map_of_put [simp]: "map_of (mput k v m) = (map_of m)(k \<mapsto> v)"
  by (rule update_conv')

lemma map_of_del [simp]: "map_of (mdel k m) = (map_of m)(k := None)"
  by (rule delete_conv')

lemma mget_Nil [simp]: "mget z [] k = z"
  by (simp add: mget_def)

lemma mget_put [simp]: "mget z (mput k v m) k' = (if k = k' then v else mget z m k')"
  by (simp add: mget_def)

lemma length_put: "length (mput k v m) = (if map_of m k = None then length m + 1 else length m)"
  by (induction m) auto

text \<open>Sums over the entries of a map.\<close>

lemma sum_put:
  fixes f :: "'k \<Rightarrow> 'v \<Rightarrow> 'a :: comm_monoid_add"
  shows "(\<Sum>(k, v)\<leftarrow>mput a w m. f k v) + (case map_of m a of None \<Rightarrow> 0 | Some v \<Rightarrow> f a v) = (\<Sum>(k, v)\<leftarrow>m. f k v) + f a w"
  by (induction m) (auto simp: ac_simps)

lemma sum_del:
  fixes f :: "'k \<Rightarrow> 'v \<Rightarrow> 'a :: comm_monoid_add"
  shows "wf_map m \<Longrightarrow> (\<Sum>(k, v)\<leftarrow>mdel a m. f k v) + (case map_of m a of None \<Rightarrow> 0 | Some v \<Rightarrow> f a v) = (\<Sum>(k, v)\<leftarrow>m. f k v)"
proof (induction m)
  case (Cons x m)
  show ?case
  proof (cases "fst x = a")
    case True
    then have "map_of m a = None" using Cons.prems by (simp add: wf_map_def map_of_eq_None_iff)
    then have "mdel a m = m" by (simp add: map_of_eq_None_iff delete_id)
    then show ?thesis using True by (cases x) (simp add: ac_simps)
  next
    case False
    then show ?thesis using Cons by (cases x) (auto simp: wf_map_def ac_simps)
  qed
qed simp

lemma map_of_filter_keys: "map_of (filter (\<lambda>(k, v). P k) m) k = (if P k then map_of m k else None)"
  by (induction m) auto

lemma wf_map_filter [simp]: "wf_map m \<Longrightarrow> wf_map (filter P m)"
  by (simp add: wf_map_def distinct_map_filter)

lemma wf_map_values [simp]: "wf_map (map (\<lambda>(k, v). (k, f k v)) m) = wf_map m"
  by (simp add: wf_map_def case_prod_beta' comp_def)

lemma map_of_values: "map_of (map (\<lambda>(k, v). (k, f k v)) m) k = map_option (f k) (map_of m k)"
  by (induction m) auto

lemma wf_map_lookup: "wf_map m \<Longrightarrow> (k, v) \<in> set m \<longleftrightarrow> map_of m k = Some v"
  by (simp add: wf_map_def)

lemma put_entries: "wf_map m \<Longrightarrow> (k, v) \<in> set (mput a w m) \<Longrightarrow> (k = a \<and> v = w) \<or> (k \<noteq> a \<and> (k, v) \<in> set m)"
  using wf_map_lookup [of "mput a w m"] wf_map_lookup [of m] by (auto split: if_splits)

lemma put_all:
  assumes "wf_map m" "\<forall>(k, v)\<in>set m. P k v" "P a w"
  shows "\<forall>(k, v)\<in>set (mput a w m). P k v"
proof clarify
  fix k v assume "(k, v) \<in> set (mput a w m)"
  from put_entries [OF assms(1) this] assms(2,3) show "P k v" by auto
qed

lemma mget_all: "\<forall>(k, v)\<in>set m. P k v \<Longrightarrow> P k z \<Longrightarrow> P k (mget z m k)"
  by (cases "map_of m k") (auto simp: mget_def dest: map_of_SomeD)

section \<open>Lists\<close>

lemma map_sort_key: "map f (sort_key (\<lambda>x. g (f x)) xs) = sort_key g (map f xs)"
proof -
  have "map f (insort_key (\<lambda>x. g (f x)) x xs) = insort_key g (f x) (map f xs)" for x xs
    by (induction xs) auto
  then show ?thesis by (induction xs) (simp_all add: sort_key_def)
qed

lemma sort_key_cong:
  assumes "\<forall>x\<in>set xs. f x = g x"
  shows "sort_key f xs = sort_key g xs"
proof -
  have "insort_key f x ys = insort_key g x ys" if "f x = g x" "\<forall>y\<in>set ys. f y = g y" for x ys
    using that by (induction ys) auto
  then show ?thesis using assms by (induction xs) simp_all
qed

lemma sum_list_append_map: "(\<Sum>x\<leftarrow>concat xss. f x) = (\<Sum>xs\<leftarrow>xss. \<Sum>x\<leftarrow>xs. f x :: 'b :: comm_monoid_add)"
  by (induction xss) auto

lemma if_flip: "(P \<longleftrightarrow> \<not> Q) \<Longrightarrow> (if P then a else b) = (if Q then b else a)"
  by simp

lemma length_takeWhile_nth:
  "distinct xs \<Longrightarrow> i < length xs \<Longrightarrow> length (takeWhile (\<lambda>x. x \<noteq> xs ! i) xs) = i"
  by (induction xs arbitrary: i) (auto simp: nth_Cons' split: nat.splits)

text \<open>A table filled by a loop of indexed stores.\<close>

lemma table_outside:
  "j \<notin> f ` set is \<Longrightarrow> fold (\<lambda>i t. t[f i := g i]) is t ! j = t ! j"
  by (induction "is" arbitrary: t) auto

lemma table_inside:
  "distinct is \<Longrightarrow> inj_on f (set is) \<Longrightarrow> i \<in> set is \<Longrightarrow> \<forall>j\<in>set is. f j < length t \<Longrightarrow>
     fold (\<lambda>i t. t[f i := g i]) is t ! f i = g i"
proof (induction "is" arbitrary: t)
  case (Cons a as)
  show ?case
  proof (cases "i = a")
    case True
    have "f a \<notin> f ` set as" using Cons.prems by (auto simp: inj_on_def)
    with True Cons.prems show ?thesis by (simp add: table_outside)
  next
    case False
    with Cons show ?thesis by (simp add: inj_on_def)
  qed
qed simp

lemma of_char_less_256: "(of_char c :: nat) < 256"
  using of_char_mod_256 [of c] by (metis mod_less_divisor zero_less_numeral)

lemma of_char_inj: "inj (of_char :: char \<Rightarrow> nat)"
  by (rule injI) simp

section \<open>Interfaces\<close>

text \<open>
  An encoder that may panic and a decoder that may fail.  What a caller relies
  on: every accepted value encodes, and decoding gives it back.
\<close>

locale codec =
  fixes enc :: "'a \<Rightarrow> 'b option" and dec :: "'b \<Rightarrow> 'e + 'a" and ok :: "'a \<Rightarrow> bool"
  assumes enc_total: "ok x \<Longrightarrow> \<exists>y. enc x = Some y"
    and dec_enc: "ok x \<Longrightarrow> enc x = Some y \<Longrightarrow> dec y = Inr x"
begin

lemma enc_inj: "ok x \<Longrightarrow> ok y \<Longrightarrow> enc x = enc y \<Longrightarrow> x = y"
  by (metis dec_enc enc_total sum.inject(2))

end

text \<open>
  A source of identifiers driven by readings of an outside clock.  What its users
  rely on: each identifier it hands out is larger than everything before it.
\<close>

fun run_source :: "('s \<Rightarrow> 'c list \<Rightarrow> ('i \<times> 's \<times> 'c list) option) \<Rightarrow> nat \<Rightarrow> 's \<Rightarrow> 'c list \<Rightarrow> ('i list \<times> 's \<times> 'c list) option" where
  "run_source step 0 s cs = Some ([], s, cs)"
| "run_source step (Suc n) s cs =
     (case step s cs of
        None \<Rightarrow> None
      | Some (i, s', cs') \<Rightarrow>
          map_option (\<lambda>(is, s'', cs''). (i # is, s'', cs'')) (run_source step n s' cs'))"

locale increasing_source =
  fixes step :: "'s \<Rightarrow> 'c list \<Rightarrow> ('i \<times> 's \<times> 'c list) option"
    and val :: "'i \<Rightarrow> int" and last_val :: "'s \<Rightarrow> int"
    and ok :: "'s \<Rightarrow> bool" and okc :: "'c \<Rightarrow> bool"
  assumes step_ok: "step s cs = Some (i, s', cs') \<Longrightarrow> ok s \<Longrightarrow> \<forall>c\<in>set cs. okc c \<Longrightarrow> ok s'"
    and step_val: "step s cs = Some (i, s', cs') \<Longrightarrow> ok s \<Longrightarrow> \<forall>c\<in>set cs. okc c \<Longrightarrow> val i = last_val s'"
    and step_less: "step s cs = Some (i, s', cs') \<Longrightarrow> ok s \<Longrightarrow> \<forall>c\<in>set cs. okc c \<Longrightarrow> last_val s < last_val s'"
    and step_clock: "step s cs = Some (i, s', cs') \<Longrightarrow> ok s \<Longrightarrow> \<forall>c\<in>set cs. okc c \<Longrightarrow> \<forall>c\<in>set cs'. okc c"
begin

lemma run_increases:
  "run_source step n s cs = Some (is, s', cs') \<Longrightarrow> ok s \<Longrightarrow> \<forall>c\<in>set cs. okc c \<Longrightarrow>
     length is = n \<and> ok s' \<and> sorted_wrt (<) (map val is) \<and> (\<forall>i\<in>set is. last_val s < val i)"
proof (induction n arbitrary: s cs "is")
  case (Suc n)
  from Suc.prems(1) obtain i s1 cs1 "is1" where st: "step s cs = Some (i, s1, cs1)"
    and rest: "run_source step n s1 cs1 = Some (is1, s', cs')" and "is": "is = i # is1"
    by (auto split: option.splits prod.splits)
  note p = st Suc.prems(2,3)
  have "length is1 = n \<and> ok s' \<and> sorted_wrt (<) (map val is1) \<and> (\<forall>i\<in>set is1. last_val s1 < val i)"
    by (rule Suc.IH [OF rest step_ok [OF p] step_clock [OF p]])
  moreover have "last_val s < val i" "val i = last_val s1"
    using step_less [OF p] step_val [OF p] by auto
  ultimately show ?case unfolding "is" by auto
qed auto

lemma run_distinct:
  assumes "run_source step n s cs = Some (is, s', cs')" "ok s" "\<forall>c\<in>set cs. okc c"
  shows "distinct is"
proof -
  have "sorted_wrt (<) (map val is)" using run_increases [OF assms] by simp
  then have "distinct (map val is)" by (rule strict_sorted_iff [THEN iffD1, THEN conjunct2])
  then show ?thesis by (simp add: distinct_map)
qed

end

text \<open>
  A routing rule that sends every key to one of \<open>count r\<close> slots (shards, partitions).
  What its users rely on: the slot exists, so reading and replacing it in a list of
  slots is an ordinary list update.
\<close>

locale router =
  fixes route :: "'r \<Rightarrow> 'k \<Rightarrow> int" and count :: "'r \<Rightarrow> int" and ok :: "'r \<Rightarrow> bool"
  assumes route_range: "ok r \<Longrightarrow> 0 \<le> route r k \<and> route r k < count r"
begin

lemma slot_exists: "ok r \<Longrightarrow> int (length xs) = count r \<Longrightarrow> nat (route r k) < length xs"
  using route_range [of r k] by linarith

lemma slot_update:
  assumes "ok r" "int (length xs) = count r"
  shows "xs[nat (route r k) := v] ! nat (route r k') =
    (if route r k' = route r k then v else xs ! nat (route r k'))"
proof (cases "route r k' = route r k")
  case True
  then show ?thesis using slot_exists [OF assms] by simp
next
  case False
  then have "nat (route r k) \<noteq> nat (route r k')" using route_range [OF assms(1)] by (metis eq_nat_nat_iff)
  then show ?thesis using False by simp
qed

end

subsection \<open>Approximate sets\<close>

text \<open>A set with false positives only.  Inserting and asking never fail on a well-formed
  set; what was found stays found.\<close>

fun run_inserts :: "('s \<Rightarrow> 'k \<Rightarrow> 's option) \<Rightarrow> 's \<Rightarrow> 'k list \<Rightarrow> 's option" where
  "run_inserts ins s [] = Some s"
| "run_inserts ins s (k # ks) = (case ins s k of None \<Rightarrow> None | Some s' \<Rightarrow> run_inserts ins s' ks)"

locale approx_set =
  fixes ins :: "'s \<Rightarrow> 'k \<Rightarrow> 's option" and qry :: "'s \<Rightarrow> 'k \<Rightarrow> bool option" and ok :: "'s \<Rightarrow> bool"
  assumes ins_law: "ok s \<Longrightarrow> \<exists>s'. ins s k = Some s' \<and> ok s' \<and> qry s' k = Some True \<and>
      (\<forall>t. qry s t = Some True \<longrightarrow> qry s' t = Some True)"
    and qry_total: "ok s \<Longrightarrow> \<exists>r. qry s k = Some r"
begin

lemma inserts_total: "ok s \<Longrightarrow> \<exists>s'. run_inserts ins s ks = Some s' \<and> ok s'"
proof (induction ks arbitrary: s)
  case (Cons k ks)
  then show ?case using ins_law [of s k] by fastforce
qed simp

lemma inserts_keep:
  "ok s \<Longrightarrow> run_inserts ins s ks = Some s' \<Longrightarrow> qry s t = Some True \<Longrightarrow> qry s' t = Some True"
proof (induction ks arbitrary: s)
  case (Cons k ks)
  then show ?case using ins_law [of s k] by (auto split: option.splits)
qed simp

lemma inserted_found:
  "ok s \<Longrightarrow> \<exists>s'. run_inserts ins s ks = Some s' \<and> ok s' \<and> (\<forall>k\<in>set ks. qry s' k = Some True)"
proof (induction ks arbitrary: s)
  case (Cons k ks)
  from ins_law [OF Cons.prems, of k] obtain s1 where s1: "ins s k = Some s1" "ok s1" "qry s1 k = Some True" by blast
  from Cons.IH [OF s1(2)] obtain s' where s': "run_inserts ins s1 ks = Some s'" "ok s'"
    "\<forall>k\<in>set ks. qry s' k = Some True" by blast
  then show ?case using s1 inserts_keep [OF s1(2) s'(1) s1(3)] by auto
qed simp

end

subsection \<open>Step relations\<close>

text \<open>A step relation that keeps a property of the states; every run of it does.\<close>

locale preserved =
  fixes step :: "'s \<Rightarrow> 's \<Rightarrow> bool" and inv :: "'s \<Rightarrow> bool"
  assumes step_keeps: "step s t \<Longrightarrow> inv s \<Longrightarrow> inv t"
begin

lemma run_keeps: "step\<^sup>*\<^sup>* s t \<Longrightarrow> inv s \<Longrightarrow> inv t"
  by (induction rule: rtranclp_induct) (blast intro: step_keeps)+

end

end
