(* ===== verification/Gostr.thy ===== *)
theory Gostr
  imports Kortex_Prelude
begin

text \<open>
  What the program uses of Go's \<^verbatim>\<open>strings\<close> and \<^verbatim>\<open>strconv\<close> packages, on byte strings.
  \<^verbatim>\<open>strings.ToLower\<close> and \<^verbatim>\<open>strings.ToUpper\<close> map a string of ASCII bytes byte by byte; on
  other strings they consult the Unicode tables, which are an argument here
  (\<open>uni\<close>).  \<^verbatim>\<open>strings.TrimSpace\<close> removes the UTF-8 encodings of the white space of
  Unicode, all of which are listed.
\<close>

section \<open>Bytes\<close>

definition is_lower :: "char \<Rightarrow> bool" where "is_lower c \<longleftrightarrow> CHR ''a'' \<le> c \<and> c \<le> CHR ''z''"
definition is_upper :: "char \<Rightarrow> bool" where "is_upper c \<longleftrightarrow> CHR ''A'' \<le> c \<and> c \<le> CHR ''Z''"
definition is_digit :: "char \<Rightarrow> bool" where "is_digit c \<longleftrightarrow> CHR ''0'' \<le> c \<and> c \<le> CHR ''9''"
definition is_letter :: "char \<Rightarrow> bool" where "is_letter c \<longleftrightarrow> is_lower c \<or> is_upper c"

definition lower_char :: "char \<Rightarrow> char" where
  "lower_char c = (if is_upper c then char_of (of_char c + 32 :: nat) else c)"

definition upper_char :: "char \<Rightarrow> char" where
  "upper_char c = (if is_lower c then char_of (of_char c - 32 :: nat) else c)"

definition is_ascii :: "string \<Rightarrow> bool" where
  "is_ascii s \<longleftrightarrow> list_all (\<lambda>c. (of_char c :: nat) < 128) s"

definition ToLower :: "(string \<Rightarrow> string) \<Rightarrow> string \<Rightarrow> string" where
  "ToLower uni s = (if is_ascii s then map lower_char s else uni s)"

definition ToUpper :: "(string \<Rightarrow> string) \<Rightarrow> string \<Rightarrow> string" where
  "ToUpper uni s = (if is_ascii s then map upper_char s else uni s)"

text \<open>\<^verbatim>\<open>strings.EqualFold\<close>; beyond ASCII it consults the Unicode tables (\<open>fold_uni\<close>).\<close>

definition EqualFold :: "(string \<Rightarrow> string \<Rightarrow> bool) \<Rightarrow> string \<Rightarrow> string \<Rightarrow> bool" where
  "EqualFold fold_uni s t =
     (if is_ascii s \<and> is_ascii t then map lower_char s = map lower_char t else fold_uni s t)"

section \<open>Searching\<close>

definition HasPrefix :: "string \<Rightarrow> string \<Rightarrow> bool" where
  "HasPrefix s p \<longleftrightarrow> take (length p) s = p"

fun Index :: "string \<Rightarrow> string \<Rightarrow> nat option" where
  "Index [] t = (if t = [] then Some 0 else None)"
| "Index (c # cs) t = (if HasPrefix (c # cs) t then Some 0 else map_option Suc (Index cs t))"

definition Contains :: "string \<Rightarrow> string \<Rightarrow> bool" where
  "Contains s t \<longleftrightarrow> Index s t \<noteq> None"

definition TrimPrefix :: "string \<Rightarrow> string \<Rightarrow> string" where
  "TrimPrefix s p = (if HasPrefix s p then drop (length p) s else s)"

text \<open>\<^verbatim>\<open>strings.TrimRight\<close> with a cutset of one character.\<close>

definition TrimRight :: "string \<Rightarrow> char \<Rightarrow> string" where
  "TrimRight s c = rev (dropWhile (\<lambda>d. d = c) (rev s))"

text \<open>\<^verbatim>\<open>strings.Split\<close> at a separator of one byte, and \<^verbatim>\<open>strings.Join\<close>.\<close>

fun Split :: "string \<Rightarrow> char \<Rightarrow> string list" where
  "Split [] sep = [[]]"
| "Split (c # cs) sep =
     (if c = sep then [] # Split cs sep
      else (case Split cs sep of [] \<Rightarrow> [[c]] | w # ws \<Rightarrow> (c # w) # ws))"

fun Join :: "string list \<Rightarrow> string \<Rightarrow> string" where
  "Join [] sep = []"
| "Join [w] sep = w"
| "Join (w # v # ws) sep = w @ sep @ Join (v # ws) sep"

section \<open>White space\<close>

definition white_space :: "string list" where
  "white_space =
     [[CHR 0x09], [CHR 0x0A], [CHR 0x0B], [CHR 0x0C], [CHR 0x0D], [CHR 0x20],
      [CHR 0xC2, CHR 0x85], [CHR 0xC2, CHR 0xA0], [CHR 0xE1, CHR 0x9A, CHR 0x80],
      [CHR 0xE2, CHR 0x80, CHR 0x80], [CHR 0xE2, CHR 0x80, CHR 0x81], [CHR 0xE2, CHR 0x80, CHR 0x82],
      [CHR 0xE2, CHR 0x80, CHR 0x83], [CHR 0xE2, CHR 0x80, CHR 0x84], [CHR 0xE2, CHR 0x80, CHR 0x85],
      [CHR 0xE2, CHR 0x80, CHR 0x86], [CHR 0xE2, CHR 0x80, CHR 0x87], [CHR 0xE2, CHR 0x80, CHR 0x88],
      [CHR 0xE2, CHR 0x80, CHR 0x89], [CHR 0xE2, CHR 0x80, CHR 0x8A], [CHR 0xE2, CHR 0x80, CHR 0xA8],
      [CHR 0xE2, CHR 0x80, CHR 0xA9], [CHR 0xE2, CHR 0x80, CHR 0xAF], [CHR 0xE2, CHR 0x81, CHR 0x9F],
      [CHR 0xE3, CHR 0x80, CHR 0x80]]"

text \<open>Removing leading words of \<open>ws\<close> (all of them non-empty) as long as there is one.\<close>

function trim_words :: "string list \<Rightarrow> string \<Rightarrow> string" where
  "trim_words ws s =
     (case find (\<lambda>w. w \<noteq> [] \<and> HasPrefix s w) ws of
        None \<Rightarrow> s
      | Some w \<Rightarrow> trim_words ws (drop (length w) s))"
  by pat_completeness auto
termination
proof (relation "measure (\<lambda>(ws, s). length s)")
  fix ws s w
  assume "find (\<lambda>w. w \<noteq> [] \<and> HasPrefix s w) ws = Some w"
  then have "w \<noteq> []" "HasPrefix s w" by (auto simp: find_Some_iff)
  then show "((ws, drop (length w) s), ws, s) \<in> measure (\<lambda>(ws, s). length s)"
    by (cases s) (auto simp: HasPrefix_def)
qed simp

declare trim_words.simps [simp del]

definition TrimSpace :: "string \<Rightarrow> string" where
  "TrimSpace s = rev (trim_words (map rev white_space) (rev (trim_words white_space s)))"

section \<open>Runes\<close>

text \<open>\<^verbatim>\<open>utf8.RuneCountInString\<close>: a byte that does not start a valid UTF-8 sequence counts as one rune.\<close>

definition in_range :: "nat \<Rightarrow> nat \<Rightarrow> char \<Rightarrow> bool" where
  "in_range lo hi c \<longleftrightarrow> lo \<le> of_char c \<and> of_char c \<le> hi"

fun rune_size :: "string \<Rightarrow> nat" where
  "rune_size (a # b # c # d # _) =
     (if in_range 0xC2 0xDF a \<and> in_range 0x80 0xBF b then 2
      else if (in_range 0xE0 0xE0 a \<and> in_range 0xA0 0xBF b \<or> in_range 0xED 0xED a \<and> in_range 0x80 0x9F b
          \<or> (in_range 0xE1 0xEC a \<or> in_range 0xEE 0xEF a) \<and> in_range 0x80 0xBF b) \<and> in_range 0x80 0xBF c then 3
      else if (in_range 0xF0 0xF0 a \<and> in_range 0x90 0xBF b \<or> in_range 0xF1 0xF3 a \<and> in_range 0x80 0xBF b
          \<or> in_range 0xF4 0xF4 a \<and> in_range 0x80 0x8F b) \<and> in_range 0x80 0xBF c \<and> in_range 0x80 0xBF d then 4
      else 1)"
| "rune_size [a, b, c] =
     (if in_range 0xC2 0xDF a \<and> in_range 0x80 0xBF b then 2
      else if (in_range 0xE0 0xE0 a \<and> in_range 0xA0 0xBF b \<or> in_range 0xED 0xED a \<and> in_range 0x80 0x9F b
          \<or> (in_range 0xE1 0xEC a \<or> in_range 0xEE 0xEF a) \<and> in_range 0x80 0xBF b) \<and> in_range 0x80 0xBF c then 3
      else 1)"
| "rune_size [a, b] = (if in_range 0xC2 0xDF a \<and> in_range 0x80 0xBF b then 2 else 1)"
| "rune_size _ = 1"

lemma rune_size_pos: "0 < rune_size s"
  by (cases s rule: rune_size.cases) auto

function RuneCount :: "string \<Rightarrow> nat" where
  "RuneCount s = (if s = [] then 0 else Suc (RuneCount (drop (rune_size s) s)))"
  by pat_completeness auto
termination
  by (relation "measure length") (auto simp: rune_size_pos)

declare RuneCount.simps [simp del]

section \<open>Integers\<close>

text \<open>\<^verbatim>\<open>strconv.ParseInt(s, 10, 64)\<close>: the value and the error; on a range error the value is
  the nearest representable number.\<close>

datatype num_error = Err_syntax | Err_range

definition parse_digits :: "string \<Rightarrow> int option" where
  "parse_digits s =
     (if s \<noteq> [] \<and> list_all is_digit s
      then Some (fold (\<lambda>c n. 10 * n + (int (of_char c) - 48)) s 0) else None)"

definition ParseInt :: "string \<Rightarrow> int \<times> num_error option" where
  "ParseInt s =
     (let neg = HasPrefix s ''-'';
          ds = (if neg \<or> HasPrefix s ''+'' then tl s else s)
      in case parse_digits ds of
           None \<Rightarrow> (0, Some Err_syntax)
         | Some n \<Rightarrow>
             if neg then (if 2 ^ 63 < n then (- (2 ^ 63), Some Err_range) else (- n, None))
             else (if 2 ^ 63 \<le> n then (2 ^ 63 - 1, Some Err_range) else (n, None)))"

section \<open>Lemmas\<close>

lemma HasPrefix_iff: "HasPrefix s p \<longleftrightarrow> (\<exists>r. s = p @ r)"
  by (metis HasPrefix_def append_eq_conv_conj)

lemma HasPrefix_append [simp]: "HasPrefix (p @ r) p"
  by (simp add: HasPrefix_def)

lemma Index_Some: "Index s t = Some i \<Longrightarrow> \<exists>a r. s = a @ t @ r \<and> length a = i"
proof (induction s t arbitrary: i rule: Index.induct)
  case (2 c cs t)
  show ?case
  proof (cases "HasPrefix (c # cs) t")
    case True
    with "2.prems" show ?thesis by (auto simp: HasPrefix_iff)
  next
    case False
    with "2.prems" obtain j where "Index cs t = Some j" "i = Suc j" by (auto split: if_splits)
    from "2.IH" [OF False this(1)] this(2) show ?thesis by (metis append_Cons length_Cons)
  qed
qed (auto split: if_splits)

lemma Index_append: "Index (a @ t @ r) t \<noteq> None"
proof (induction a)
  case Nil
  then show ?case using HasPrefix_append [of t r] by (cases "t @ r") auto
next
  case (Cons c a)
  then show ?case by auto
qed

lemma Contains_iff: "Contains s t \<longleftrightarrow> (\<exists>a r. s = a @ t @ r)"
  using Index_Some Index_append by (fastforce simp: Contains_def)

lemma Split_not_Nil [simp]: "Split s sep \<noteq> []"
  by (cases s) (auto split: list.splits)

lemma Split_no_sep: "sep \<notin> set s \<Longrightarrow> Split s sep = [s]"
  by (induction s) auto

lemma Split_append: "Split (a @ sep # b) sep = Split a sep @ Split b sep"
  by (induction a) (auto split: list.splits)

lemma Join_Split: "Join (Split s sep) [sep] = s"
proof (induction s)
  case (Cons c s)
  then show ?case by (cases "Split s sep") (auto elim: Join.elims, cases "tl (Split s sep)", auto)
qed simp

lemma trim_words_suffix: "\<exists>a. s = a @ trim_words ws s"
proof (induction ws s rule: trim_words.induct)
  case (1 ws s)
  show ?case
  proof (cases "find (\<lambda>w. w \<noteq> [] \<and> HasPrefix s w) ws")
    case None
    then show ?thesis by (simp add: trim_words.simps [of ws s])
  next
    case (Some w)
    then have "HasPrefix s w" by (auto simp: find_Some_iff)
    then obtain r where r: "s = w @ r" by (auto simp: HasPrefix_iff)
    from "1.IH" [OF Some] obtain a where "r = a @ trim_words ws r" by (auto simp: r)
    then have "s = (w @ a) @ trim_words ws s" using Some by (simp add: r trim_words.simps [of ws "w @ r"])
    then show ?thesis by blast
  qed
qed

lemma TrimSpace_length: "length (TrimSpace s) \<le> length s"
  using trim_words_suffix [of s white_space]
    trim_words_suffix [of "rev (trim_words white_space s)" "map rev white_space"]
  by (auto simp: TrimSpace_def) (metis length_append length_rev le_add2 order_trans)

lemma trim_words_id: "\<forall>w\<in>set ws. w \<noteq> [] \<longrightarrow> \<not> HasPrefix s w \<Longrightarrow> trim_words ws s = s"
  by (simp add: trim_words.simps [of ws s] find_None_iff split: option.splits) (auto simp: find_Some_iff)

lemma is_upper_code: "is_upper c \<longleftrightarrow> 65 \<le> (of_char c :: nat) \<and> (of_char c :: nat) \<le> 90"
  by (simp add: is_upper_def less_eq_char_def)

lemma lower_char_code: "(of_char (lower_char c) :: nat) = (if is_upper c then of_char c + 32 else of_char c)"
  by (auto simp: lower_char_def is_upper_code)

lemma lower_lower [simp]: "lower_char (lower_char c) = lower_char c"
proof -
  have "\<not> is_upper (lower_char c)" by (simp add: is_upper_code lower_char_code)
  then show ?thesis by (simp add: lower_char_def [of "lower_char c"])
qed

lemma lower_ascii: "is_ascii s \<Longrightarrow> is_ascii (map lower_char s)"
  by (auto simp: is_ascii_def list_all_iff lower_char_code is_upper_code)

lemma is_ascii_simps [simp]:
  "is_ascii []" "is_ascii (c # s) \<longleftrightarrow> (of_char c :: nat) < 128 \<and> is_ascii s"
  "is_ascii (s @ t) \<longleftrightarrow> is_ascii s \<and> is_ascii t"
  by (auto simp: is_ascii_def)

end
