(* ===== verification/Httputil.thy ===== *)
theory Httputil
  imports Gostr
begin

text \<open>
  \<^verbatim>\<open>backend/httputil.go\<close>: the helpers every handler uses.  A request is the record of what the
  handlers read of it, a response the record of what they write (JSON values stay
  structured).  Errors are values of \<open>go_error\<close>.  \<^verbatim>\<open>net/netip\<close> and \<^verbatim>\<open>net.SplitHostPort\<close> are an
  argument (\<open>netip\<close>); the zero \<^verbatim>\<open>netip.Addr\<close> is \<^const>\<open>None\<close>.
\<close>

section \<open>Requests and responses\<close>

record request =
  rq_Method :: string
  rq_RemoteAddr :: string
  rq_Host :: string
  rq_TLS :: bool
  rq_header :: "(string, string list) gomap"
  rq_query :: "(string, string list) gomap"
  rq_cookies :: "(string, string) gomap"
  rq_param :: string

definition header_values :: "request \<Rightarrow> string \<Rightarrow> string list" where
  "header_values r k = mget [] (rq_header r) k"

definition first_or_empty :: "string list \<Rightarrow> string" where
  "first_or_empty vs = (case vs of [] \<Rightarrow> [] | v # _ \<Rightarrow> v)"

definition header_get :: "request \<Rightarrow> string \<Rightarrow> string" where
  "header_get r k = first_or_empty (header_values r k)"

definition query_get :: "request \<Rightarrow> string \<Rightarrow> string" where
  "query_get r k = first_or_empty (mget [] (rq_query r) k)"

datatype 'b body = Detail string | JSON 'b | Bytes string | No_body

record 'b response =
  rs_status :: int
  rs_headers :: "(string, string) gomap"
  rs_body :: "'b body"

definition write_body :: "int \<Rightarrow> 'b body \<Rightarrow> 'b response" where
  "write_body st b = \<lparr>rs_status = st, rs_headers = [(''Content-Type'', ''application/json'')], rs_body = b\<rparr>"

definition writeJSON :: "int \<Rightarrow> 'b \<Rightarrow> 'b response" where
  "writeJSON st v = write_body st (JSON v)"

definition writeErr :: "int \<Rightarrow> string \<Rightarrow> 'b response" where
  "writeErr st msg = write_body st (Detail msg)"

definition set_header :: "string \<Rightarrow> string \<Rightarrow> 'b response \<Rightarrow> 'b response" where
  "set_header k v w = w\<lparr>rs_headers := mput k v (rs_headers w)\<rparr>"

section \<open>Errors\<close>

datatype go_error =
    Http_error int string
  | Err_no_rows
  | Pg_error string
  | Err_unknown_code
  | Err_other string

definition errStatus :: "int \<Rightarrow> string \<Rightarrow> go_error" where
  "errStatus st msg = Http_error st msg"

definition internalErr :: "'b response" where
  "internalErr = writeErr 500 ''internal error''"

definition fail_response :: "go_error \<Rightarrow> 'b response" where
  "fail_response e = (case e of Http_error st msg \<Rightarrow> writeErr st msg | _ \<Rightarrow> internalErr)"

section \<open>Query parameters\<close>

definition atoi64 :: "string \<Rightarrow> int \<times> num_error option" where
  "atoi64 s = ParseInt s"

definition qInt :: "request \<Rightarrow> string \<Rightarrow> int \<Rightarrow> int" where
  "qInt r k def =
     (let v = query_get r k
      in if v \<noteq> [] then (case ParseInt v of (n, None) \<Rightarrow> n | (_, Some e) \<Rightarrow> def) else def)"

definition clamp :: "int \<Rightarrow> int \<Rightarrow> int \<Rightarrow> int" where
  "clamp n lo hi = min (max n lo) hi"

definition qLimit :: "request \<Rightarrow> int \<Rightarrow> int" where
  "qLimit r def = clamp (qInt r ''limit'' def) 1 500"

section \<open>The client's address\<close>

record ('a, 'p) netip =
  SplitHostPort :: "string \<Rightarrow> string option"
  ParseAddr :: "string \<Rightarrow> 'a option"
  Unmap :: "'a \<Rightarrow> 'a"
  addr_String :: "'a \<Rightarrow> string"
  BitLen :: "'a \<Rightarrow> int"
  ParsePrefix :: "string \<Rightarrow> 'p option"
  Masked :: "'p \<Rightarrow> 'p"
  PrefixFrom :: "'a \<Rightarrow> int \<Rightarrow> 'p"
  prefix_Contains :: "'p \<Rightarrow> 'a \<Rightarrow> bool"

definition peerAddr :: "('a, 'p) netip \<Rightarrow> request \<Rightarrow> 'a option" where
  "peerAddr N r =
     (let host = (case SplitHostPort N (rq_RemoteAddr r) of Some h \<Rightarrow> h | None \<Rightarrow> rq_RemoteAddr r)
      in map_option (Unmap N) (ParseAddr N host))"

fun trusted :: "('a, 'p) netip \<Rightarrow> 'a \<Rightarrow> 'p list \<Rightarrow> bool" where
  "trusted N ip [] = False"
| "trusted N ip (p # ps) = (if prefix_Contains N p ip then True else trusted N ip ps)"

text \<open>The loop of \<^verbatim>\<open>rightmostUntrusted\<close> over the hops from the right.\<close>

fun walk_hops :: "('a, 'p) netip \<Rightarrow> 'p list \<Rightarrow> string list \<Rightarrow> 'a option \<Rightarrow> 'a option" where
  "walk_hops N proxies [] lst = lst"
| "walk_hops N proxies (hop # hops) lst =
     (case ParseAddr N (TrimSpace hop) of
        None \<Rightarrow> lst
      | Some ip0 \<Rightarrow>
          let ip = Unmap N ip0
          in if \<not> trusted N ip proxies then Some ip else walk_hops N proxies hops (Some ip))"

definition rightmostUntrusted :: "('a, 'p) netip \<Rightarrow> string list \<Rightarrow> 'p list \<Rightarrow> 'a option" where
  "rightmostUntrusted N xff proxies =
     (if xff = [] then None
      else walk_hops N proxies (rev (Split (Join xff '','') (CHR '',''))) None)"

definition clientIP :: "('a, 'p) netip \<Rightarrow> 'p list \<Rightarrow> request \<Rightarrow> string" where
  "clientIP N proxies r =
     (case peerAddr N r of
        None \<Rightarrow> rq_RemoteAddr r
      | Some peer \<Rightarrow>
          if \<not> trusted N peer proxies then addr_String N peer
          else (case rightmostUntrusted N (header_values r ''X-Forwarded-For'') proxies of
                  Some ip \<Rightarrow> addr_String N ip
                | None \<Rightarrow>
                    (case ParseAddr N (TrimSpace (header_get r ''X-Real-Ip'')) of
                       Some ip \<Rightarrow> addr_String N (Unmap N ip)
                     | None \<Rightarrow> addr_String N peer)))"

section \<open>Lemmas\<close>

lemma clamp_range: "lo \<le> hi \<Longrightarrow> lo \<le> clamp n lo hi \<and> clamp n lo hi \<le> hi"
  by (auto simp: clamp_def)

lemma Split_Join:
  "ws \<noteq> [] \<Longrightarrow> \<forall>w\<in>set ws. sep \<notin> set w \<Longrightarrow> Split (Join ws [sep]) sep = ws"
proof (induction ws "[sep]" rule: Join.induct)
  case (3 w v ws)
  then show ?case by (simp add: Split_append Split_no_sep)
qed (auto simp: Split_no_sep)

text \<open>A hop that some trusted proxy appended: it reads as a trusted address.\<close>

definition trusted_hop :: "('a, 'p) netip \<Rightarrow> 'p list \<Rightarrow> string \<Rightarrow> bool" where
  "trusted_hop N proxies h \<longleftrightarrow>
     (case ParseAddr N (TrimSpace h) of None \<Rightarrow> False | Some ip \<Rightarrow> trusted N (Unmap N ip) proxies)"

lemma walk_hops_trusted:
  "\<forall>h\<in>set hs. trusted_hop N proxies h \<Longrightarrow>
     \<exists>l. walk_hops N proxies (hs @ rest) lst = walk_hops N proxies rest l"
proof (induction hs arbitrary: lst)
  case (Cons h hs)
  then obtain ip where "ParseAddr N (TrimSpace h) = Some ip" "trusted N (Unmap N ip) proxies"
    by (auto simp: trusted_hop_def split: option.splits)
  with Cons show ?case by simp
qed auto

lemma walk_hops_stop:
  assumes "\<forall>h\<in>set hs. trusted_hop N proxies h"
    and "ParseAddr N (TrimSpace h) = Some ip" "\<not> trusted N (Unmap N ip) proxies"
  shows "walk_hops N proxies (hs @ h # rest) lst = Some (Unmap N ip)"
proof -
  from walk_hops_trusted [OF assms(1)] obtain l
    where "walk_hops N proxies (hs @ h # rest) lst = walk_hops N proxies (h # rest) l" by blast
  with assms(2,3) show ?thesis by (simp add: Let_def)
qed

lemma rightmost_hop:
  assumes "xff \<noteq> []" "Join xff '','' = forged @ '','' @ Join (h # chain) '',''"
    and "\<forall>w\<in>set (h # chain). CHR '','' \<notin> set w" "\<forall>p\<in>set chain. trusted_hop N proxies p"
    and "ParseAddr N (TrimSpace h) = Some ip" "\<not> trusted N (Unmap N ip) proxies"
  shows "rightmostUntrusted N xff proxies = Some (Unmap N ip)"
proof -
  have "Split (Join xff '','') (CHR '','') = Split forged (CHR '','') @ h # chain"
    unfolding assms(2) append_Cons append_Nil Split_append
    using Split_Join [of "h # chain" "CHR '',''"] assms(3) by simp
  then show ?thesis using assms(1) walk_hops_stop [of "rev chain" N proxies h ip] assms(4-6)
    by (simp add: rightmostUntrusted_def)
qed

section \<open>Properties\<close>

text \<open>C26: a client cannot choose its own address.  With a peer that is not a trusted proxy the
  result is the peer's address whatever the headers say; behind trusted proxies, which
  append to the right of \<^verbatim>\<open>X-Forwarded-For\<close>, the result is the rightmost hop that is not a
  trusted proxy, whatever the client had put to its left.\<close>

theorem clientIP_unforgeable:
  assumes "peerAddr N r = Some peer"
  shows "(\<not> trusted N peer proxies \<longrightarrow> clientIP N proxies r = addr_String N peer)
    \<and> (\<forall>forged h chain ip. trusted N peer proxies \<and> header_values r ''X-Forwarded-For'' \<noteq> []
         \<and> Join (header_values r ''X-Forwarded-For'') '','' = forged @ '','' @ Join (h # chain) '',''
         \<and> (\<forall>w\<in>set (h # chain). CHR '','' \<notin> set w) \<and> (\<forall>p\<in>set chain. trusted_hop N proxies p)
         \<and> ParseAddr N (TrimSpace h) = Some ip \<and> \<not> trusted N (Unmap N ip) proxies \<longrightarrow>
         clientIP N proxies r = addr_String N (Unmap N ip))"
proof (intro conjI allI impI, goal_cases)
  case 1
  then show ?case using assms by (simp add: clientIP_def)
next
  case (2 forged h chain ip)
  then have "rightmostUntrusted N (header_values r ''X-Forwarded-For'') proxies = Some (Unmap N ip)"
    by (intro rightmost_hop [of _ forged h chain]) blast+
  with 2 assms show ?case by (simp add: clientIP_def)
qed

text \<open>Addresses as plain strings, with one trusted proxy.\<close>

definition demo_netip :: "(string, string) netip" where
  "demo_netip = \<lparr>SplitHostPort = (\<lambda>s. if s = '''' then None else Some (takeWhile (\<lambda>c. c \<noteq> CHR '':'') s)),
     ParseAddr = (\<lambda>s. if s = '''' then None else Some s), Unmap = id, addr_String = id, BitLen = (\<lambda>_. 32),
     ParsePrefix = Some, Masked = id, PrefixFrom = (\<lambda>a n. a), prefix_Contains = (=)\<rparr>"

definition demo_request :: request where
  "demo_request = \<lparr>rq_Method = ''GET'', rq_RemoteAddr = ''p:1'', rq_Host = ''h'', rq_TLS = False,
     rq_header = [(''X-Forwarded-For'', [''z, c, p''])], rq_query = [], rq_cookies = [], rq_param = ''''\<rparr>"

theorem clientIP_unforgeable_witness:
  "peerAddr demo_netip demo_request = Some ''p'' \<and> clientIP demo_netip [''p''] demo_request = ''c''"
proof -
  have p: "peerAddr demo_netip demo_request = Some ''p''" by code_simp
  have "trusted demo_netip ''p'' [''p'']" "header_values demo_request ''X-Forwarded-For'' \<noteq> []"
    "Join (header_values demo_request ''X-Forwarded-For'') '','' = ''z'' @ '','' @ Join ['' c'', '' p''] '',''"
    "\<forall>w\<in>set ['' c'', '' p'']. CHR '','' \<notin> set w" "\<forall>p\<in>set ['' p'']. trusted_hop demo_netip [''p''] p"
    "ParseAddr demo_netip (TrimSpace '' c'') = Some ''c''" "\<not> trusted demo_netip (Unmap demo_netip ''c'') [''p'']"
    by code_simp+
  with clientIP_unforgeable [OF p, of "[''p'']"]
  have "clientIP demo_netip [''p''] demo_request = addr_String demo_netip (Unmap demo_netip ''c'')" by metis
  with p show ?thesis by (simp add: demo_netip_def)
qed

end
