(* ===== verification/Cache.thy ===== *)
theory Cache
  imports Httputil
begin

text \<open>
  \<^verbatim>\<open>backend/cache.go\<close>: the Redis layer, and the \<^verbatim>\<open>Link\<close> and \<^verbatim>\<open>User\<close> structs of \<^verbatim>\<open>backend/pg.go\<close>.
  The Redis server is an argument (\<open>redis\<close>): each command is a function on an abstract server
  state \<open>'r\<close>, so that expiry, eviction and failures are whatever the server does.  So is the
  JSON encoding of a cached link (\<open>json_api\<close>).  What the code relies on of them is stated by
  the predicates of the section on the contract.  Instants are nanoseconds since the Unix
  epoch, durations given to Redis are milliseconds.
\<close>

section \<open>Links and users\<close>

record link =
  l_ID :: int
  l_Code :: string
  l_LongURL :: string
  l_Title :: string
  l_UserID :: int
  l_Custom :: bool
  l_Redirect :: int
  l_ExpiresAt :: "int option"
  l_CreatedAt :: int
  l_Clicks :: int
  l_Active :: bool
  l_Shard :: int

record user =
  u_ID :: int
  u_Email :: string
  u_Name :: string
  u_Role :: string
  u_CreatedAt :: int

record cached_link =
  c_Code :: string
  c_LongURL :: string
  c_UserID :: int
  c_Redirect :: int
  c_ExpiresAt :: int
  c_Active :: bool

definition UnixMilli :: "int \<Rightarrow> int" where
  "UnixMilli t = t div 1000000"

definition toCached :: "link \<Rightarrow> cached_link" where
  "toCached l =
     \<lparr>c_Code = l_Code l, c_LongURL = l_LongURL l, c_UserID = l_UserID l, c_Redirect = l_Redirect l,
      c_ExpiresAt = (case l_ExpiresAt l of None \<Rightarrow> 0 | Some t \<Rightarrow> UnixMilli t), c_Active = l_Active l\<rparr>"

definition Expired :: "int \<Rightarrow> cached_link \<Rightarrow> bool" where
  "Expired now cl \<longleftrightarrow> c_ExpiresAt cl > 0 \<and> UnixMilli now > c_ExpiresAt cl"

section \<open>The server\<close>

text \<open>\<^verbatim>\<open>redis.Nil\<close> is the reply for a missing key.  A script runs atomically on the server or fails.\<close>

datatype 'a reply = Reply 'a | Reply_nil | Reply_err

record 'r redis =
  r_get :: "string \<Rightarrow> 'r \<Rightarrow> string reply \<times> 'r"
  r_set :: "string \<Rightarrow> string \<Rightarrow> int \<Rightarrow> 'r \<Rightarrow> bool \<times> 'r"
  r_del :: "string \<Rightarrow> 'r \<Rightarrow> 'r"
  r_pipeline :: "(string \<times> string \<times> int) list \<Rightarrow> 'r \<Rightarrow> 'r"
  r_setnx :: "string \<Rightarrow> string \<Rightarrow> int \<Rightarrow> 'r \<Rightarrow> bool reply \<times> 'r"
  r_exists :: "string \<Rightarrow> 'r \<Rightarrow> int reply \<times> 'r"
  r_incr :: "string \<Rightarrow> 'r \<Rightarrow> (int \<times> 'r) option"
  r_pttl :: "string \<Rightarrow> 'r \<Rightarrow> int"
  r_pexpire :: "string \<Rightarrow> int \<Rightarrow> 'r \<Rightarrow> 'r"
  r_script :: "('r \<Rightarrow> (int list \<times> 'r) option) \<Rightarrow> 'r \<Rightarrow> int list reply \<times> 'r"
  r_dbsize :: "'r \<Rightarrow> int reply"
  r_info :: "'r \<Rightarrow> string reply"
  r_config_get :: "string \<Rightarrow> 'r \<Rightarrow> string reply"

record json_api =
  marshal_link :: "cached_link \<Rightarrow> string"
  unmarshal_link :: "string \<Rightarrow> cached_link option"

record cache_stats =
  cs_Hits :: u64
  cs_Misses :: u64
  cs_Sets :: u64
  cs_Warmed :: u64
  cs_Errors :: u64
  cs_Keys :: int
  cs_UsedMem :: int
  cs_Policy :: string
  cs_Evicted :: int

record 'r cache =
  rdb :: 'r
  ttl :: int
  Hits :: u64
  Misses :: u64
  Sets :: u64
  Errors :: u64
  Warmed :: u64
  serverAt :: "int option"
  serverSnap :: cache_stats

section \<open>The link cache\<close>

definition keyLink :: string where "keyLink = ''k:l:''"
definition keyRateLimit :: string where "keyRateLimit = ''k:rl:''"
definition keyFailedLogin :: string where "keyFailedLogin = ''k:fail:''"
definition keyRevoked :: string where "keyRevoked = ''k:rev:''"

definition linkKey :: "string \<Rightarrow> string" where "linkKey code = keyLink @ code"

definition Get :: "'r redis \<Rightarrow> json_api \<Rightarrow> string \<Rightarrow> 'r cache \<Rightarrow> cached_link option \<times> 'r cache" where
  "Get R J code c0 =
     (let (val, r) = r_get R (linkKey code) (rdb c0); c = c0\<lparr>rdb := r\<rparr>
      in case val of
           Reply_nil \<Rightarrow> (None, c\<lparr>Misses := Misses c + 1\<rparr>)
         | Reply_err \<Rightarrow> (None, c\<lparr>Errors := Errors c + 1, Misses := Misses c + 1\<rparr>)
         | Reply v \<Rightarrow>
             (case unmarshal_link J v of
                None \<Rightarrow> (None, c\<lparr>Misses := Misses c + 1\<rparr>)
              | Some cl \<Rightarrow> (Some cl, c\<lparr>Hits := Hits c + 1\<rparr>)))"

definition Set :: "'r redis \<Rightarrow> json_api \<Rightarrow> link \<Rightarrow> 'r cache \<Rightarrow> 'r cache" where
  "Set R J l c0 =
     (let (ok, r) = r_set R (linkKey (l_Code l)) (marshal_link J (toCached l)) (ttl c0) (rdb c0); c = c0\<lparr>rdb := r\<rparr>
      in if ok then c\<lparr>Sets := Sets c + 1\<rparr> else c\<lparr>Errors := Errors c + 1\<rparr>)"

definition Del :: "'r redis \<Rightarrow> string \<Rightarrow> 'r cache \<Rightarrow> 'r cache" where
  "Del R code c = c\<lparr>rdb := r_del R (linkKey code) (rdb c)\<rparr>"

definition Warm :: "'r redis \<Rightarrow> json_api \<Rightarrow> link list \<Rightarrow> nat \<Rightarrow> 'r cache \<Rightarrow> nat \<times> 'r cache" where
  "Warm R J links0 n c =
     (let links = take (min n (length links0)) links0;
          r = r_pipeline R (map (\<lambda>l. (linkKey (l_Code l), marshal_link J (toCached l), ttl c)) links) (rdb c)
      in (length links, c\<lparr>rdb := r, Warmed := Warmed c + of_nat (length links)\<rparr>))"

section \<open>Windowed counters\<close>

text \<open>The Lua script: \<^verbatim>\<open>INCR\<close>, then \<^verbatim>\<open>PTTL\<close>, and \<^verbatim>\<open>PEXPIRE\<close> when the key has no expiry.\<close>

definition incrWindow :: "'r redis \<Rightarrow> string \<Rightarrow> int \<Rightarrow> 'r \<Rightarrow> (int list \<times> 'r) option" where
  "incrWindow R k window s =
     (case r_incr R k s of
        None \<Rightarrow> None
      | Some (n, s1) \<Rightarrow>
          let t = r_pttl R k s1
          in if t < 0 then Some ([n, window], r_pexpire R k window s1) else Some ([n, t], s1))"

definition incr :: "'r redis \<Rightarrow> string \<Rightarrow> int \<Rightarrow> 'r cache \<Rightarrow> (int \<times> int) reply \<times> 'r cache" where
  "incr R k window c0 =
     (let (res, r) = r_script R (incrWindow R k window) (rdb c0); c = c0\<lparr>rdb := r\<rparr>
      in case res of
           Reply [n, t] \<Rightarrow> (Reply (n, t), c)
         | Reply _ \<Rightarrow> (Reply (0, 0), c)
         | _ \<Rightarrow> (Reply_err, c))"

text \<open>The result is allowed, remaining and the whole seconds until the reset.\<close>

definition RateLimit :: "'r redis \<Rightarrow> string \<Rightarrow> int \<Rightarrow> int \<Rightarrow> 'r cache \<Rightarrow> (bool \<times> int \<times> int) \<times> 'r cache" where
  "RateLimit R bucket limit window c0 =
     (let (res, c) = incr R (keyRateLimit @ bucket) window c0
      in case res of
           Reply (n, t) \<Rightarrow> ((n \<le> limit, max (limit - n) 0, sgn t * (\<bar>t\<bar> div 1000)), c)
         | _ \<Rightarrow> ((True, limit, 0), c\<lparr>Errors := Errors c + 1\<rparr>))"

definition FailedLogins :: "'r redis \<Rightarrow> string \<Rightarrow> 'r cache \<Rightarrow> int \<times> 'r cache" where
  "FailedLogins R i c0 =
     (let (val, r) = r_get R (keyFailedLogin @ i) (rdb c0); c = c0\<lparr>rdb := r\<rparr>
      in case val of
           Reply v \<Rightarrow> (case ParseInt v of (n, None) \<Rightarrow> (n, c) | (_, Some _) \<Rightarrow> (0, c))
         | _ \<Rightarrow> (0, c))"

definition loginLockout :: int where "loginLockout = 15 * 60 * 1000"

definition BumpFailedLogin :: "'r redis \<Rightarrow> string \<Rightarrow> 'r cache \<Rightarrow> int \<times> 'r cache" where
  "BumpFailedLogin R i c0 =
     (let (res, c) = incr R (keyFailedLogin @ i) loginLockout c0
      in case res of Reply (n, _) \<Rightarrow> (n, c) | _ \<Rightarrow> (0, c))"

definition ClearFailedLogin :: "'r redis \<Rightarrow> string \<Rightarrow> 'r cache \<Rightarrow> 'r cache" where
  "ClearFailedLogin R i c = c\<lparr>rdb := r_del R (keyFailedLogin @ i) (rdb c)\<rparr>"

section \<open>Revoked tokens\<close>

definition Revoke :: "'r redis \<Rightarrow> string \<Rightarrow> int \<Rightarrow> 'r cache \<Rightarrow> bool reply \<times> 'r cache" where
  "Revoke R jti t0 c =
     (let t = (if t0 \<le> 0 then 1000 else t0); (res, r) = r_setnx R (keyRevoked @ jti) ''1'' t (rdb c)
      in (res, c\<lparr>rdb := r\<rparr>))"

text \<open>The error is dropped by the only caller, so a failed lookup reads as not revoked.\<close>

definition IsRevoked :: "'r redis \<Rightarrow> string \<Rightarrow> 'r cache \<Rightarrow> bool \<times> 'r cache" where
  "IsRevoked R jti c =
     (let (res, r) = r_exists R (keyRevoked @ jti) (rdb c)
      in ((case res of Reply n \<Rightarrow> n > 0 | _ \<Rightarrow> False), c\<lparr>rdb := r\<rparr>))"

section \<open>Statistics\<close>

text \<open>A field of the text of \<^verbatim>\<open>INFO\<close>; a number that does not parse reads as what \<^verbatim>\<open>ParseInt\<close> returns
  beside its error.\<close>

definition parseInfoInt :: "string \<Rightarrow> string \<Rightarrow> int" where
  "parseInfoInt info field =
     (case Index info field of
        None \<Rightarrow> 0
      | Some idx \<Rightarrow>
          fst (ParseInt (takeWhile (\<lambda>c. c \<noteq> CHR 0x0D \<and> c \<noteq> CHR 0x0A) (drop (idx + length field) info))))"

definition statsTTL :: int where "statsTTL = 5000000000"

definition zero_stats :: cache_stats where
  "zero_stats = \<lparr>cs_Hits = 0, cs_Misses = 0, cs_Sets = 0, cs_Warmed = 0, cs_Errors = 0, cs_Keys = 0,
     cs_UsedMem = 0, cs_Policy = [], cs_Evicted = 0\<rparr>"

definition serverStats :: "'r redis \<Rightarrow> int \<Rightarrow> int \<Rightarrow> 'r cache \<Rightarrow> cache_stats \<times> 'r cache" where
  "serverStats R now now' c =
     (if (case serverAt c of None \<Rightarrow> False | Some at \<Rightarrow> now - at < statsTTL) then (serverSnap c, c)
      else let st0 = zero_stats;
               st1 = (case r_dbsize R (rdb c) of Reply n \<Rightarrow> st0\<lparr>cs_Keys := n\<rparr> | _ \<Rightarrow> st0);
               st2 = (case r_info R (rdb c) of
                        Reply info \<Rightarrow> st1\<lparr>cs_UsedMem := parseInfoInt info ''used_memory:'',
                                          cs_Evicted := parseInfoInt info ''evicted_keys:''\<rparr>
                      | _ \<Rightarrow> st1);
               st3 = (case r_config_get R ''maxmemory-policy'' (rdb c) of Reply v \<Rightarrow> st2\<lparr>cs_Policy := v\<rparr> | _ \<Rightarrow> st2)
           in (st3, c\<lparr>serverSnap := st3, serverAt := Some now'\<rparr>))"

definition Stats :: "'r redis \<Rightarrow> int \<Rightarrow> int \<Rightarrow> 'r cache \<Rightarrow> cache_stats \<times> 'r cache" where
  "Stats R now now' c =
     (let (st, c') = serverStats R now now' c
      in (st\<lparr>cs_Hits := Hits c, cs_Misses := Misses c, cs_Sets := Sets c', cs_Warmed := Warmed c', cs_Errors := Errors c'\<rparr>, c'))"

section \<open>Contracts\<close>

text \<open>
  Documented behaviour of the commands, on the values that are live in the server.  The first
  contract is a reachable server: reads and writes take effect.  The second allows every
  command to fail.
\<close>

definition redis_serves :: "'r redis \<Rightarrow> ('r \<Rightarrow> string \<rightharpoonup> string) \<Rightarrow> bool" where
  "redis_serves R view \<longleftrightarrow>
     (\<forall>k s. fst (r_get R k s) = (case view s k of None \<Rightarrow> Reply_nil | Some v \<Rightarrow> Reply v) \<and> view (snd (r_get R k s)) = view s)
   \<and> (\<forall>k v t s. fst (r_set R k v t s) \<and> view (snd (r_set R k v t s)) = (view s)(k \<mapsto> v))
   \<and> (\<forall>k s. view (r_del R k s) = (view s)(k := None))
   \<and> (\<forall>kvs s. view (r_pipeline R kvs s) = fold (\<lambda>(k, v, t) m. m(k \<mapsto> v)) kvs (view s))
   \<and> (\<forall>k w s k'. k' \<noteq> k \<longrightarrow> view (snd (r_script R (incrWindow R k w) s)) k' = view s k')"

definition setnx_atomic :: "'r redis \<Rightarrow> ('r \<Rightarrow> string \<rightharpoonup> string) \<Rightarrow> bool" where
  "setnx_atomic R view \<longleftrightarrow>
     (\<forall>k v t s. case fst (r_setnx R k v t s) of
          Reply True \<Rightarrow> view s k = None \<and> view (snd (r_setnx R k v t s)) k \<noteq> None
        | Reply False \<Rightarrow> view s k \<noteq> None \<and> view (snd (r_setnx R k v t s)) k \<noteq> None
        | _ \<Rightarrow> view s k \<noteq> None \<longrightarrow> view (snd (r_setnx R k v t s)) k \<noteq> None)
   \<and> (\<forall>k k' v t s. k' \<noteq> k \<longrightarrow> view (snd (r_setnx R k v t s)) k' = view s k')"

definition json_roundtrip :: "json_api \<Rightarrow> bool" where
  "json_roundtrip J \<longleftrightarrow> (\<forall>cl. unmarshal_link J (marshal_link J cl) = Some cl)"

section \<open>Lemmas\<close>

lemma linkKey_inj [simp]: "linkKey a = linkKey b \<longleftrightarrow> a = b"
  by (simp add: linkKey_def)

text \<open>Reads and writes of the link cache, on the live values of a reachable server.\<close>

lemma Get_live:
  assumes "redis_serves R view"
  shows "fst (Get R J code c) = Option.bind (view (rdb c) (linkKey code)) (unmarshal_link J)
    \<and> view (rdb (snd (Get R J code c))) = view (rdb c)"
proof -
  obtain val r where g: "r_get R (linkKey code) (rdb c) = (val, r)" by (cases "r_get R (linkKey code) (rdb c)")
  have "fst (r_get R (linkKey code) (rdb c)) = (case view (rdb c) (linkKey code) of None \<Rightarrow> Reply_nil | Some v \<Rightarrow> Reply v)"
    "view (snd (r_get R (linkKey code) (rdb c))) = view (rdb c)"
    using assms unfolding redis_serves_def by blast+
  then show ?thesis unfolding Get_def g by (auto simp: Let_def split: option.splits)
qed

lemma Set_live:
  assumes "redis_serves R view"
  shows "view (rdb (Set R J l c)) = (view (rdb c))(linkKey (l_Code l) \<mapsto> marshal_link J (toCached l))"
proof -
  let ?set = "r_set R (linkKey (l_Code l)) (marshal_link J (toCached l)) (ttl c) (rdb c)"
  obtain ok r where s: "?set = (ok, r)" by (cases ?set)
  have "view (snd ?set) = (view (rdb c))(linkKey (l_Code l) \<mapsto> marshal_link J (toCached l))"
    using assms unfolding redis_serves_def by blast
  then show ?thesis unfolding Set_def s by (simp add: Let_def)
qed

lemma RateLimit_live:
  assumes "redis_serves R view"
  shows "view (rdb (snd (RateLimit R bucket limit window c))) (linkKey code) = view (rdb c) (linkKey code)"
proof -
  let ?s = "r_script R (incrWindow R (keyRateLimit @ bucket) window) (rdb c)"
  have "linkKey code \<noteq> keyRateLimit @ bucket" by (simp add: linkKey_def keyLink_def keyRateLimit_def)
  then have "view (snd ?s) (linkKey code) = view (rdb c) (linkKey code)"
    using assms unfolding redis_serves_def by blast
  moreover have "rdb (snd (RateLimit R bucket limit window c)) = snd ?s"
    by (auto simp: RateLimit_def incr_def Let_def split: prod.splits reply.splits list.splits)
  ultimately show ?thesis by simp
qed

lemma Del_live:
  assumes "redis_serves R view"
  shows "view (rdb (Del R code c)) = (view (rdb c))(linkKey code := None)"
  using assms by (simp add: Del_def redis_serves_def)

end
