(* ===== verification/Shard.thy ===== *)
theory Shard
  imports Kortex_Prelude
begin

text \<open>
  \<^verbatim>\<open>backend/shard.go\<close>: the consistent-hash ring that picks the Postgres shard of a
  code.  \<^verbatim>\<open>hash/fnv\<close> and \<^verbatim>\<open>sort.Search\<close> are written out as the standard library
  defines them.  The percentages and angles of the lab report are floating-point
  renderings of the counts and positions modelled here.
\<close>

section \<open>Hashing\<close>

text \<open>\<^verbatim>\<open>fnv.New32a\<close>: xor the byte in, then multiply by the 32-bit FNV prime.\<close>

definition fnv32a :: "string \<Rightarrow> u32" where
  "fnv32a s = fold (\<lambda>c h. (h XOR of_char c) * 16777619) s 2166136261"

definition fmix32 :: "u32 \<Rightarrow> u32" where
  "fmix32 h0 =
     (let h1 = h0 XOR drop_bit 16 h0;
          h2 = h1 * 0x85ebca6b;
          h3 = h2 XOR drop_bit 13 h2;
          h4 = h3 * 0xc2b2ae35
      in h4 XOR drop_bit 16 h4)"

definition hash32 :: "string \<Rightarrow> u32" where
  "hash32 s = fmix32 (fnv32a s)"

section \<open>The ring\<close>

record ring =
  vnodes :: int
  shards :: "int list"
  points :: "u32 list"
  owner :: "(u32, int) gomap"

definition vnode_name :: "int \<Rightarrow> int \<Rightarrow> string" where
  "vnode_name s v = ''shard-'' @ itoa s @ ''#vn'' @ itoa v"

definition add_vnode :: "int \<Rightarrow> int \<Rightarrow> ring \<Rightarrow> ring" where
  "add_vnode s v r =
     (let p = hash32 (vnode_name s v)
      in r\<lparr>points := points r @ [p], owner := mput p s (owner r)\<rparr>)"

definition add_shard :: "int \<Rightarrow> ring \<Rightarrow> ring" where
  "add_shard s r = fold (add_vnode s) [0..vnodes r - 1] (r\<lparr>shards := shards r @ [s]\<rparr>)"

text \<open>The ring before the final sort, after the loop over the shards.\<close>

definition ring_unsorted :: "int \<Rightarrow> int \<Rightarrow> ring" where
  "ring_unsorted n vn = fold add_shard [0..n - 1] \<lparr>vnodes = vn, shards = [], points = [], owner = []\<rparr>"

definition NewRing :: "int \<Rightarrow> int \<Rightarrow> ring" where
  "NewRing n vn = (let r = ring_unsorted n vn in r\<lparr>points := sort (points r)\<rparr>)"

text \<open>\<^verbatim>\<open>sort.Search\<close>: binary search for the first index at which \<open>f\<close> holds.\<close>

function go_search :: "(nat \<Rightarrow> bool) \<Rightarrow> nat \<Rightarrow> nat \<Rightarrow> nat" where
  "go_search f i j =
     (if i < j then let h = (i + j) div 2 in if f h then go_search f i h else go_search f (h + 1) j
      else i)"
  by pat_completeness auto
termination
  by (relation "measure (\<lambda>(f, i, j). j - i)") auto

declare go_search.simps [simp del]

definition Get :: "ring \<Rightarrow> string \<Rightarrow> int" where
  "Get r key =
     (if points r = [] then 0
      else let h = hash32 key;
               i = go_search (\<lambda>i. h \<le> points r ! i) 0 (length (points r));
               i' = (if i = length (points r) then 0 else i)
           in mget 0 (owner r) (points r ! i'))"

definition ShardCount :: "ring \<Rightarrow> int" where
  "ShardCount r = int (length (shards r))"

section \<open>The resize report\<close>

record ring_counts =
  Before :: "(string, nat) gomap"
  After :: "(string, nat) gomap"
  moved :: nat
  naiveMoved :: nat

definition sample_key :: "string list \<Rightarrow> nat \<Rightarrow> string" where
  "sample_key ks i = (if i < length ks then ks ! i else ''key-'' @ itoa (int i))"

definition count_sample :: "ring \<Rightarrow> ring \<Rightarrow> int \<Rightarrow> int \<Rightarrow> string \<Rightarrow> ring_counts \<Rightarrow> ring_counts" where
  "count_sample oldRing newRing oldN newN k c =
     (let a = Get oldRing k; b = Get newRing k; h = uint (hash32 k)
      in c\<lparr>Before := mput (itoa a) (mget 0 (Before c) (itoa a) + 1) (Before c),
           After := mput (itoa b) (mget 0 (After c) (itoa b) + 1) (After c),
           moved := moved c + (if a \<noteq> b then 1 else 0),
           naiveMoved := naiveMoved c + (if go_rem h oldN \<noteq> go_rem h newN then 1 else 0)\<rparr>)"

text \<open>The loop of \<^verbatim>\<open>ringReport\<close>.  The remainder by a shard count of zero panics.\<close>

definition ringReport :: "int \<Rightarrow> int \<Rightarrow> int \<Rightarrow> nat \<Rightarrow> string list \<Rightarrow> ring_counts option" where
  "ringReport oldN newN vn samples ks =
     (if 0 < samples \<and> (oldN = 0 \<or> newN = 0) then None
      else Some (fold (\<lambda>i. count_sample (NewRing oldN vn) (NewRing newN vn) oldN newN (sample_key ks i))
        [0..<samples] \<lparr>Before = [], After = [], moved = 0, naiveMoved = 0\<rparr>))"

text \<open>The shard and position of every \<open>step\<close>-th point.\<close>

definition ringPreview :: "ring \<Rightarrow> int \<Rightarrow> (int \<times> u32) list" where
  "ringPreview r perShard =
     (let step = max (vnodes r div perShard) 1
      in map (\<lambda>(i, p). (mget 0 (owner r) p, p))
           (filter (\<lambda>(i, p). int i mod step = 0) (List.enumerate 0 (points r))))"

section \<open>Specification\<close>

text \<open>The first point clockwise from \<open>h\<close>, wrapping around to the smallest.\<close>

definition clockwise :: "u32 \<Rightarrow> u32 set \<Rightarrow> u32" where
  "clockwise h P = (if \<exists>p\<in>P. h \<le> p then Min {p\<in>P. h \<le> p} else Min P)"

definition vnode_points :: "int \<Rightarrow> int \<Rightarrow> u32 set" where
  "vnode_points s vn = (\<lambda>v. hash32 (vnode_name s v)) ` {0..<vn}"

section \<open>Lemmas\<close>

lemma xor_shift_inj:
  fixes x y :: u32
  assumes "x XOR drop_bit k x = y XOR drop_bit k y" "0 < k"
  shows "x = y"
proof -
  let ?d = "x XOR y"
  have "?d = drop_bit k ?d"
  proof (rule bit_word_eqI)
    fix n
    have "bit (x XOR drop_bit k x) n = bit (y XOR drop_bit k y) n" by (simp add: assms(1))
    then show "bit ?d n = bit (drop_bit k ?d) n" by (auto simp: bit_simps)
  qed
  then have "unat ?d = unat (drop_bit k ?d)" by (rule arg_cong)
  also have "\<dots> = unat ?d div 2 ^ k" by (subst unat_drop_bit_eq) (rule drop_bit_eq_div)
  finally have u: "unat ?d = unat ?d div 2 ^ k" .
  have "unat ?d = 0"
  proof (rule ccontr)
    assume "unat ?d \<noteq> 0"
    moreover have "(1 :: nat) < 2 ^ k" using assms(2) by (intro one_less_power) auto
    ultimately have "unat ?d div 2 ^ k < unat ?d" by (intro div_less_dividend) auto
    with u show False by simp
  qed
  then have z: "?d = 0" by (simp add: unat_eq_zero)
  show ?thesis
  proof (rule bit_word_eqI)
    fix n
    have "\<not> bit ?d n" unfolding z by simp
    then show "bit x n = bit y n" by (simp add: bit_xor_iff)
  qed
qed

lemma mult_odd_inj:
  fixes x y a b :: u32
  assumes "x * a = y * a" "a * b = 1"
  shows "x = y"
proof -
  have "x = x * a * b" using assms(2) by (simp add: mult.assoc)
  also have "\<dots> = y * a * b" by (simp only: assms(1))
  also have "\<dots> = y" using assms(2) by (simp add: mult.assoc)
  finally show ?thesis .
qed

lemma fmix32_inj: "inj fmix32"
proof (rule injI)
  fix x y :: u32
  define a where "a z = z XOR drop_bit 16 z" for z :: u32
  define b where "b z = a z * 0x85ebca6b" for z
  define c where "c z = b z XOR drop_bit 13 (b z)" for z
  define d where "d z = c z * 0xc2b2ae35" for z
  assume "fmix32 x = fmix32 y"
  then have "d x XOR drop_bit 16 (d x) = d y XOR drop_bit 16 (d y)"
    by (simp add: fmix32_def Let_def a_def b_def c_def d_def)
  then have "d x = d y" by (rule xor_shift_inj) simp
  then have "c x = c y" unfolding d_def by (rule mult_odd_inj [where b = "0x7ed1b41d"]) simp
  then have "b x = b y" unfolding c_def by (rule xor_shift_inj) simp
  then have "a x = a y" unfolding b_def by (rule mult_odd_inj [where b = "0xa5cb9243"]) simp
  then show "x = y" unfolding a_def by (rule xor_shift_inj) simp
qed

lemma go_search_bounds: "i \<le> j \<Longrightarrow> i \<le> go_search f i j \<and> go_search f i j \<le> j"
proof (induction f i j rule: go_search.induct)
  case (1 f i j)
  show ?case
  proof (cases "i < j")
    case True
    then have h: "i \<le> (i + j) div 2" "(i + j) div 2 + 1 \<le> j" by auto
    show ?thesis
      using "1.IH"(1) [OF True refl _ h(1)] "1.IH"(2) [OF True refl _ h(2)] h True
      by (cases "f ((i + j) div 2)") (simp_all add: go_search.simps [of f i j] Let_def)
  next
    case False
    then have "go_search f i j = i" by (simp add: go_search.simps [of f i j])
    then show ?thesis using "1.prems" by simp
  qed
qed

lemma go_search_before:
  "(\<And>k l. k \<le> l \<Longrightarrow> l < j \<Longrightarrow> f k \<Longrightarrow> f l) \<Longrightarrow> i \<le> k \<Longrightarrow> k < go_search f i j \<Longrightarrow> \<not> f k"
proof (induction f i j rule: go_search.induct)
  case (1 f i j)
  let ?h = "(i + j) div 2"
  have ij: "i < j" using "1.prems"(2,3) by (rule_tac ccontr) (simp add: go_search.simps [of f i j])
  show ?case
  proof (cases "f ?h")
    case True
    then have "k < go_search f i ?h" using "1.prems"(3) ij by (simp add: go_search.simps [of f i j] Let_def)
    from "1.IH"(1) [OF ij refl True _ "1.prems"(2) this] "1.prems"(1) ij show ?thesis by simp
  next
    case False
    then have k: "k < go_search f (?h + 1) j" using "1.prems"(3) ij by (simp add: go_search.simps [of f i j] Let_def)
    show ?thesis
    proof (cases "k \<le> ?h")
      case True
      moreover have "?h < j" using ij by linarith
      ultimately show ?thesis using "1.prems"(1) [of k ?h] False by blast
    next
      case F: False
      from "1.IH"(2) [OF ij refl False "1.prems"(1) _ k] F show ?thesis by simp
    qed
  qed
qed

lemma go_search_after:
  "(\<And>k l. k \<le> l \<Longrightarrow> l < j \<Longrightarrow> f k \<Longrightarrow> f l) \<Longrightarrow> go_search f i j \<le> k \<Longrightarrow> k < j \<Longrightarrow> f k"
proof (induction f i j rule: go_search.induct)
  case (1 f i j)
  let ?h = "(i + j) div 2"
  have ij: "i < j" using "1.prems"(2,3) by (rule_tac ccontr) (simp add: go_search.simps [of f i j])
  show ?case
  proof (cases "f ?h")
    case True
    then have k: "go_search f i ?h \<le> k" using "1.prems"(2) ij by (simp add: go_search.simps [of f i j] Let_def)
    show ?thesis
    proof (cases "k < ?h")
      case t: True
      from "1.IH"(1) [OF ij refl True _ k t] "1.prems"(1) ij show ?thesis by simp
    next
      case False
      then show ?thesis using "1.prems"(1) [of ?h k] "1.prems"(3) True by simp
    qed
  next
    case False
    then have "go_search f (?h + 1) j \<le> k" using "1.prems"(2) ij by (simp add: go_search.simps [of f i j] Let_def)
    from "1.IH"(2) [OF ij refl False "1.prems"(1) this "1.prems"(3)] show ?thesis .
  qed
qed

lemma search_sorted_clockwise:
  fixes h :: u32
  assumes "sorted ps" "ps \<noteq> []"
  defines "i \<equiv> go_search (\<lambda>i. h \<le> ps ! i) 0 (length ps)"
  shows "ps ! (if i = length ps then 0 else i) = clockwise h (set ps)"
proof -
  have mono: "h \<le> ps ! l" if "k \<le> l" "l < length ps" "h \<le> ps ! k" for k l
    using that sorted_nth_mono [OF assms(1), of k l] by simp
  have s1: "i \<le> length ps" unfolding i_def using go_search_bounds by blast
  have s2: "\<not> h \<le> ps ! k" if "k < i" for k
    using go_search_before [of "length ps" "\<lambda>i. h \<le> ps ! i" 0 k, OF mono] that by (simp add: i_def)
  have s3: "h \<le> ps ! k" if "i \<le> k" "k < length ps" for k
    using go_search_after [of "length ps" "\<lambda>i. h \<le> ps ! i" 0 k, OF mono] that by (simp add: i_def)
  show ?thesis
  proof (cases "i = length ps")
    case True
    then have "\<not> (\<exists>p\<in>set ps. h \<le> p)" using s2 by (auto simp: in_set_conv_nth)
    moreover have "Min (set ps) = ps ! 0"
      using assms(1,2) by (intro Min_eqI) (auto simp: in_set_conv_nth intro: sorted_nth_mono)
    ultimately show ?thesis using True by (simp add: clockwise_def)
  next
    case False
    then have i: "i < length ps" using s1 by simp
    have "Min {p \<in> set ps. h \<le> p} = ps ! i"
    proof (rule Min_eqI)
      show "ps ! i \<in> {p \<in> set ps. h \<le> p}" using i s3 by auto
      fix q assume "q \<in> {p \<in> set ps. h \<le> p}"
      then obtain k where "k < length ps" "q = ps ! k" "h \<le> ps ! k" by (auto simp: in_set_conv_nth)
      moreover have "i \<le> k" using s2 [of k] \<open>h \<le> ps ! k\<close> by (meson not_less)
      ultimately show "ps ! i \<le> q" using sorted_nth_mono [OF assms(1)] by simp
    qed simp
    moreover have "\<exists>p\<in>set ps. h \<le> p" using i s3 [of i] nth_mem by blast
    ultimately show ?thesis using False by (simp add: clockwise_def)
  qed
qed

lemma fold_add_vnode:
  "points (fold (add_vnode s) vs r) = points r @ map (\<lambda>v. hash32 (vnode_name s v)) vs
   \<and> map_of (owner (fold (add_vnode s) vs r)) p =
       (if p \<in> (\<lambda>v. hash32 (vnode_name s v)) ` set vs then Some s else map_of (owner r) p)
   \<and> vnodes (fold (add_vnode s) vs r) = vnodes r \<and> shards (fold (add_vnode s) vs r) = shards r"
  by (induction vs arbitrary: r) (auto simp: add_vnode_def Let_def)

lemma ring_unsorted_Suc:
  "0 \<le> n \<Longrightarrow> ring_unsorted (n + 1) vn = add_shard n (ring_unsorted n vn)"
  by (simp add: ring_unsorted_def upto_rec2)

lemma ring_unsorted_neg: "n \<le> 0 \<Longrightarrow> ring_unsorted n vn = ring_unsorted 0 vn"
  by (simp add: ring_unsorted_def)

lemma vnodes_unsorted: "vnodes (ring_unsorted (int n) vn) = vn"
proof (induction n)
  case (Suc n)
  then show ?case using ring_unsorted_Suc [of "int n" vn] by (simp add: add_shard_def fold_add_vnode add.commute)
qed (simp add: ring_unsorted_def)

lemma ring_grow:
  assumes "0 \<le> n"
  shows "set (points (NewRing (n + 1) vn)) = set (points (NewRing n vn)) \<union> vnode_points n vn"
    and "map_of (owner (NewRing (n + 1) vn)) p =
      (if p \<in> vnode_points n vn then Some n else map_of (owner (NewRing n vn)) p)"
    and "shards (NewRing (n + 1) vn) = shards (NewRing n vn) @ [n]"
proof -
  have v: "vnodes (ring_unsorted n vn) = vn" using vnodes_unsorted [of "nat n" vn] assms by simp
  note f = fold_add_vnode [of n "[0..vn - 1]" "ring_unsorted n vn\<lparr>shards := shards (ring_unsorted n vn) @ [n]\<rparr>" p]
  have i: "{0..vn - 1} = {0..<vn}" by auto
  show "set (points (NewRing (n + 1) vn)) = set (points (NewRing n vn)) \<union> vnode_points n vn"
    using f v by (simp add: NewRing_def Let_def ring_unsorted_Suc assms add_shard_def vnode_points_def i)
  show "map_of (owner (NewRing (n + 1) vn)) p =
      (if p \<in> vnode_points n vn then Some n else map_of (owner (NewRing n vn)) p)"
    using f v by (simp add: NewRing_def Let_def ring_unsorted_Suc assms add_shard_def vnode_points_def i)
  show "shards (NewRing (n + 1) vn) = shards (NewRing n vn) @ [n]"
    using f v by (simp add: NewRing_def Let_def ring_unsorted_Suc assms add_shard_def)
qed

lemma NewRing_0: "n \<le> 0 \<Longrightarrow> points (NewRing n vn) = [] \<and> owner (NewRing n vn) = [] \<and> shards (NewRing n vn) = []"
  by (simp add: NewRing_def ring_unsorted_def)

lemma Get_clockwise:
  "Get (NewRing n vn) key =
     (if points (NewRing n vn) = [] then 0
      else mget 0 (owner (NewRing n vn)) (clockwise (hash32 key) (set (points (NewRing n vn)))))"
proof -
  have "sorted (points (NewRing n vn))" by (simp add: NewRing_def Let_def)
  from search_sorted_clockwise [OF this, of "hash32 key"] show ?thesis
    by (simp add: Get_def Let_def)
qed

lemma clockwise_mem: "finite P \<Longrightarrow> P \<noteq> {} \<Longrightarrow> clockwise h P \<in> P"
  using Min_in [of "{p\<in>P. h \<le> p}"] by (auto simp: clockwise_def intro: Min_in)

lemma clockwise_subset:
  assumes "finite Q" "P \<subseteq> Q" "clockwise h Q \<in> P"
  shows "clockwise h P = clockwise h Q"
proof (cases "\<exists>p\<in>Q. h \<le> p")
  case True
  then have c: "clockwise h Q = Min {p\<in>Q. h \<le> p}" by (simp add: clockwise_def)
  have "Min {p\<in>Q. h \<le> p} \<in> {p\<in>Q. h \<le> p}" by (rule Min_in) (use assms(1) True in auto)
  then have m: "h \<le> clockwise h Q" by (simp add: c)
  have "Min {p\<in>P. h \<le> p} = clockwise h Q"
  proof (rule Min_eqI)
    show "finite {p\<in>P. h \<le> p}" using assms(1,2) by (simp add: finite_subset)
    show "clockwise h Q \<le> p" if "p \<in> {p\<in>P. h \<le> p}" for p
      unfolding c by (rule Min_le) (use that assms(1,2) in auto)
    show "clockwise h Q \<in> {p\<in>P. h \<le> p}" using m assms(3) by simp
  qed
  moreover have "\<exists>p\<in>P. h \<le> p" using m assms(3) by blast
  ultimately show ?thesis by (simp add: clockwise_def)
next
  case False
  then have c: "clockwise h Q = Min Q" by (simp add: clockwise_def)
  have "Min P = Min Q"
  proof (rule Min_eqI)
    show "finite P" using assms(1,2) by (simp add: finite_subset)
    show "Min Q \<le> p" if "p \<in> P" for p using that assms(1,2) by (intro Min_le) auto
    show "Min Q \<in> P" using assms(3) c by simp
  qed
  moreover have "\<not> (\<exists>p\<in>P. h \<le> p)" using False assms(2) by blast
  ultimately show ?thesis using c by (simp add: clockwise_def)
qed

lemma Get_grow:
  assumes "0 \<le> n"
  shows "Get (NewRing (n + 1) vn) key = n \<or> Get (NewRing (n + 1) vn) key = Get (NewRing n vn) key"
proof -
  let ?P = "set (points (NewRing n vn))" and ?Q = "set (points (NewRing (n + 1) vn))"
  let ?c = "clockwise (hash32 key) ?Q"
  show ?thesis
  proof (cases "?Q = {}")
    case True
    then show ?thesis using ring_grow(1) [OF assms, of vn] by (simp add: Get_clockwise)
  next
    case False
    then have m: "?c \<in> ?Q" by (intro clockwise_mem) auto
    show ?thesis
    proof (cases "?c \<in> vnode_points n vn")
      case True
      then show ?thesis using False ring_grow(2) [OF assms, of vn ?c] by (simp add: Get_clockwise mget_def)
    next
      case F: False
      then have p: "?c \<in> ?P" using m ring_grow(1) [OF assms] by auto
      then have "clockwise (hash32 key) ?P = ?c"
        using ring_grow(1) [OF assms, of vn] by (intro clockwise_subset) auto
      then show ?thesis using False F p ring_grow(2) [OF assms, of vn ?c]
        by (auto simp: Get_clockwise mget_def)
    qed
  qed
qed


lemma NewRing_owner:
  "map_of (owner (NewRing (int n) vn)) p = Some s \<Longrightarrow> 0 \<le> s \<and> s < int n \<and> p \<in> vnode_points s vn"
proof (induction n)
  case 0
  then show ?case by (simp add: NewRing_0)
next
  case (Suc n)
  then show ?case using ring_grow(2) [of "int n" vn p] by (fastforce simp: add.commute split: if_splits)
qed

lemma NewRing_points:
  "set (points (NewRing (int n) vn)) = (\<Union>s\<in>{0..<int n}. vnode_points s vn) \<and>
   set (points (NewRing (int n) vn)) = dom (map_of (owner (NewRing (int n) vn)))"
proof (induction n)
  case 0
  then show ?case by (simp add: NewRing_0)
next
  case (Suc n)
  have "{0..<int (Suc n)} = insert (int n) {0..<int n}" by auto
  with Suc show ?case using ring_grow(1,2) [of "int n" vn]
    by (auto simp: add.commute dom_def)
qed

lemma Get_owner:
  assumes "0 < n" "0 < vn"
  shows "0 \<le> Get (NewRing n vn) key \<and> Get (NewRing n vn) key < n
    \<and> clockwise (hash32 key) (\<Union>s\<in>{0..<n}. vnode_points s vn) \<in> vnode_points (Get (NewRing n vn) key) vn"
proof -
  let ?r = "NewRing n vn"
  let ?c = "clockwise (hash32 key) (set (points ?r))"
  have p: "set (points ?r) = (\<Union>s\<in>{0..<n}. vnode_points s vn)"
    "set (points ?r) = dom (map_of (owner ?r))"
    using NewRing_points [of "nat n" vn] assms(1) by auto
  have "hash32 (vnode_name 0 0) \<in> vnode_points 0 vn" using assms by (auto simp: vnode_points_def)
  then have ne: "set (points ?r) \<noteq> {}" using p(1) assms by auto
  then have "?c \<in> set (points ?r)" by (intro clockwise_mem) auto
  then obtain s where s: "map_of (owner ?r) ?c = Some s" using p(2) by auto
  then have "Get ?r key = s" using ne by (auto simp: Get_clockwise mget_def)
  with NewRing_owner [of "nat n" vn ?c s] s p(1) assms show ?thesis by simp
qed

lemma Get_range: "0 < n \<Longrightarrow> 0 \<le> Get (NewRing n vn) key \<and> Get (NewRing n vn) key < n"
proof (cases "0 < vn")
  case False
  moreover assume "0 < n"
  ultimately have "points (NewRing n vn) = []"
    using NewRing_points [of "nat n" vn] by (simp add: vnode_points_def)
  with \<open>0 < n\<close> show ?thesis by (simp add: Get_clockwise)
qed (use Get_owner in blast)

lemma ShardCount_NewRing: "0 \<le> n \<Longrightarrow> ShardCount (NewRing n vn) = n"
proof -
  have "ShardCount (NewRing (int k) vn) = int k" for k
  proof (induction k)
    case (Suc k)
    then show ?case using ring_grow(3) [of "int k" vn] by (simp add: ShardCount_def add.commute)
  qed (simp add: ShardCount_def NewRing_0)
  from this [of "nat n"] show "0 \<le> n \<Longrightarrow> ?thesis" by simp
qed

interpretation ring: router Get ShardCount "\<lambda>r. \<exists>n vn. 0 < n \<and> r = NewRing n vn"
  by unfold_locales (auto simp: ShardCount_NewRing Get_range)

lemma Get_grow_many:
  assumes "0 \<le> m"
  shows "Get (NewRing (m + int k) vn) key = Get (NewRing m vn) key \<or> m \<le> Get (NewRing (m + int k) vn) key"
proof (induction k)
  case (Suc k)
  have e: "m + int (Suc k) = m + int k + 1" by simp
  from Get_grow [of "m + int k" vn key] assms
  have "Get (NewRing (m + int (Suc k)) vn) key = m + int k \<or>
    Get (NewRing (m + int (Suc k)) vn) key = Get (NewRing (m + int k) vn) key" unfolding e by simp
  with Suc show ?case by linarith
qed simp

lemma fold_count_moved:
  "moved (fold (\<lambda>i. count_sample a b x y (f i)) is c) =
     moved c + length (filter (\<lambda>i. Get a (f i) \<noteq> Get b (f i)) is)"
  by (induction "is" arbitrary: c) (auto simp: count_sample_def Let_def)

section \<open>Properties\<close>

text \<open>C17: a key belongs to the shard of the first virtual node clockwise from its hash, among
  the virtual nodes of all shards, and that shard exists.\<close>

theorem Get_first_clockwise:
  assumes "0 < n" "0 < vn"
  shows "0 \<le> Get (NewRing n vn) key \<and> Get (NewRing n vn) key < n
    \<and> clockwise (hash32 key) (\<Union>s\<in>{0..<n}. vnode_points s vn) \<in> vnode_points (Get (NewRing n vn) key) vn"
  using assms by (rule Get_owner)

theorem Get_first_clockwise_witness:
  "0 \<le> Get (NewRing 4 160) ''abc'' \<and> Get (NewRing 4 160) ''abc'' < 4"
  using Get_first_clockwise [of 4 160 "''abc''"] by simp

text \<open>C18: consistent hashing moves as little as possible: when the cluster grows, a key stays
  where it was or moves to one of the new shards, never between old ones.\<close>

theorem resize_minimal:
  assumes "0 \<le> oldN" "oldN \<le> newN"
  shows "Get (NewRing newN vn) key = Get (NewRing oldN vn) key \<or> oldN \<le> Get (NewRing newN vn) key"
  using Get_grow_many [OF assms(1), of "nat (newN - oldN)" vn key] assms(2) by simp

theorem resize_minimal_witness:
  "Get (NewRing 5 160) ''abc'' = Get (NewRing 4 160) ''abc'' \<or> 4 \<le> Get (NewRing 5 160) ''abc''"
  by (rule resize_minimal) simp_all

text \<open>The resize report of a growing cluster counts as moved exactly the sample keys that the
  new ring puts on a new shard.\<close>

theorem ringReport_moved:
  assumes "0 < oldN" "oldN \<le> newN"
  shows "\<exists>c. ringReport oldN newN vn samples ks = Some c \<and>
    moved c = length (filter (\<lambda>i. oldN \<le> Get (NewRing newN vn) (sample_key ks i)) [0..<samples])"
proof -
  have e: "(Get (NewRing oldN vn) k \<noteq> Get (NewRing newN vn) k) = (oldN \<le> Get (NewRing newN vn) k)" for k
  proof -
    have "oldN + int (nat (newN - oldN)) = newN" using assms by simp
    with Get_grow_many [of oldN "nat (newN - oldN)" vn k] assms
    have "Get (NewRing newN vn) k = Get (NewRing oldN vn) k \<or> oldN \<le> Get (NewRing newN vn) k" by simp
    moreover have "Get (NewRing oldN vn) k < oldN" using Get_range [OF assms(1)] by blast
    ultimately show ?thesis by linarith
  qed
  have "oldN \<noteq> 0" "newN \<noteq> 0" using assms by auto
  then show ?thesis
    unfolding ringReport_def
    by (simp add: fold_count_moved [where f = "sample_key ks"] e del: not_le)
qed

theorem ringReport_moved_witness:
  "\<exists>c. ringReport 4 5 160 3 [''a'', ''b''] = Some c \<and>
    moved c = length (filter (\<lambda>i. 4 \<le> Get (NewRing 5 160) (sample_key [''a'', ''b''] i)) [0..<3])"
  using ringReport_moved [of 4 5 160 3 "[''a'', ''b'']"] by (simp del: upt_rec_numeral)

text \<open>The finaliser loses nothing: it permutes the 32-bit ring positions.\<close>

lemma fmix32_bij: "bij fmix32"
  using fmix32_inj by (simp add: bij_def finite_UNIV_inj_surj)

end
