(* ===== verification/Pg.thy ===== *)
theory Pg
  imports Cache Shard
begin

text \<open>
  \<^verbatim>\<open>backend/pg.go\<close>: storage in Postgres.  The server is an argument (\<open>exec\<close>): it runs one
  statement on an abstract database state \<open>'db\<close> and gives a reply or an error.  The
  statements are the constructors of \<open>sql\<close>, one for each query text of the file, with the
  table name and the arguments that the code passes.  What the code relies on of Postgres is
  the predicate \<open>pg_ok\<close>.  The store keeps the hash ring, the buffered click counts and the
  cached shard statistics.
\<close>

section \<open>Statements\<close>

datatype sql =
    Create_users
  | Create_links string
  | Create_index string
  | Select_user_id int
  | Select_user_email string
  | Insert_user user string
  | Update_password int string
  | Update_password_role int string string
  | Insert_link string link
  | Select_link string string
  | Select_one string string
  | Select_user_links string int int
  | Select_all_links string
  | Update_owner string int "string list"
  | Delete_link string string int
  | Toggle_active string string int
  | Set_clicks string string int
  | Add_clicks string "(string \<times> int) list"
  | Count_links string

datatype sql_reply =
    Done
  | Affected nat
  | Ones nat
  | Rows "link list"
  | User_rows "(user \<times> string) list"
  | Counts int int

type_synonym 'db pg = "sql \<Rightarrow> 'db \<Rightarrow> (go_error + sql_reply) \<times> 'db"

definition unexpected :: go_error where "unexpected = Err_other ''unexpected reply''"

definition isUniqueViolation :: "go_error \<Rightarrow> bool" where
  "isUniqueViolation e \<longleftrightarrow> e = Pg_error ''23505''"

definition shardTable :: "int \<Rightarrow> string" where "shardTable s = ''links_s'' @ itoa s"

section \<open>The store\<close>

record shard_stat =
  ss_shard :: int
  ss_table :: string
  ss_links :: int
  ss_clicks :: int

record 'db store =
  db :: 'db
  st_ring :: ring
  pendingClicks :: "(string, int) gomap"
  shardStats :: "(int \<times> shard_stat list) option"

definition ShardFor :: "'db store \<Rightarrow> string \<Rightarrow> int" where
  "ShardFor st code = Shard.Get (st_ring st) code"

definition groupByShard :: "'db store \<Rightarrow> string list \<Rightarrow> (int, string list) gomap" where
  "groupByShard st codes =
     fold (\<lambda>c out. let sh = ShardFor st c in mput sh (mget [] out sh @ [c]) out) codes []"

text \<open>Running a statement in the store.\<close>

definition run_sql :: "'db pg \<Rightarrow> sql \<Rightarrow> 'db store \<Rightarrow> (go_error + sql_reply) \<times> 'db store" where
  "run_sql exec q st = (let (r, d) = exec q (db st) in (r, st\<lparr>db := d\<rparr>))"

text \<open>The first row of a query, \<^verbatim>\<open>pgx.ErrNoRows\<close> if there is none.\<close>

definition scan_first :: "'a list \<Rightarrow> go_error + 'a" where
  "scan_first rows = (case rows of [] \<Rightarrow> Inl Err_no_rows | x # _ \<Rightarrow> Inr x)"

fun exec_all :: "'db pg \<Rightarrow> sql list \<Rightarrow> 'db store \<Rightarrow> go_error option \<times> 'db store" where
  "exec_all exec [] st = (None, st)"
| "exec_all exec (q # qs) st =
     (case run_sql exec q st of
        (Inl e, st') \<Rightarrow> (Some e, st')
      | (Inr _, st') \<Rightarrow> exec_all exec qs st')"

definition migrate :: "'db pg \<Rightarrow> 'db store \<Rightarrow> go_error option \<times> 'db store" where
  "migrate exec st =
     exec_all exec (Create_users # concat (map (\<lambda>i. [Create_links (shardTable i), Create_index (shardTable i)])
       [0..ShardCount (st_ring st) - 1])) st"

section \<open>Users\<close>

definition normEmail :: "(string \<Rightarrow> string) \<Rightarrow> string \<Rightarrow> string" where
  "normEmail uni e = ToLower uni (TrimSpace e)"

definition user_row :: "go_error + sql_reply \<Rightarrow> go_error + (user \<times> string)" where
  "user_row r = (case r of Inl e \<Rightarrow> Inl e | Inr (User_rows us) \<Rightarrow> scan_first us | Inr _ \<Rightarrow> Inl unexpected)"

definition GetUserByID :: "'db pg \<Rightarrow> int \<Rightarrow> 'db store \<Rightarrow> (go_error + user) \<times> 'db store" where
  "GetUserByID exec i st =
     (let (r, st') = run_sql exec (Select_user_id i) st
      in (case user_row r of Inl e \<Rightarrow> Inl e | Inr (u, _) \<Rightarrow> Inr u, st'))"

definition GetUserByEmail ::
  "'db pg \<Rightarrow> (string \<Rightarrow> string) \<Rightarrow> string \<Rightarrow> 'db store \<Rightarrow> (go_error + (user \<times> string)) \<times> 'db store" where
  "GetUserByEmail exec uni email st =
     (let (r, st') = run_sql exec (Select_user_email (normEmail uni email)) st in (user_row r, st'))"

definition exec_only :: "'db pg \<Rightarrow> sql \<Rightarrow> 'db store \<Rightarrow> go_error option \<times> 'db store" where
  "exec_only exec q st =
     (let (r, st') = run_sql exec q st in (case r of Inl e \<Rightarrow> Some e | Inr _ \<Rightarrow> None, st'))"

definition InsertUser :: "'db pg \<Rightarrow> user \<Rightarrow> string \<Rightarrow> 'db store \<Rightarrow> go_error option \<times> 'db store" where
  "InsertUser exec u passwordHash st = exec_only exec (Insert_user u passwordHash) st"

definition SetPassword :: "'db pg \<Rightarrow> int \<Rightarrow> string \<Rightarrow> 'db store \<Rightarrow> go_error option \<times> 'db store" where
  "SetPassword exec userID passwordHash st = exec_only exec (Update_password userID passwordHash) st"

definition SetPasswordAndRole ::
  "'db pg \<Rightarrow> int \<Rightarrow> string \<Rightarrow> string \<Rightarrow> 'db store \<Rightarrow> go_error option \<times> 'db store" where
  "SetPasswordAndRole exec userID passwordHash role st =
     exec_only exec (Update_password_role userID passwordHash role) st"

section \<open>Links\<close>

definition scanLink :: "int \<Rightarrow> link \<Rightarrow> link" where
  "scanLink shard l = l\<lparr>l_Shard := shard\<rparr>"

text \<open>\<^verbatim>\<open>InsertLink\<close> also sets the shard of the link it is given.\<close>

definition InsertLink :: "'db pg \<Rightarrow> link \<Rightarrow> 'db store \<Rightarrow> (go_error option \<times> link) \<times> 'db store" where
  "InsertLink exec l0 st =
     (let l = l0\<lparr>l_Shard := ShardFor st (l_Code l0)\<rparr>;
          (e, st') = exec_only exec (Insert_link (shardTable (l_Shard l)) l) st
      in ((e, l), st'))"

definition link_row :: "int \<Rightarrow> go_error + sql_reply \<Rightarrow> go_error + link" where
  "link_row shard r =
     (case r of
        Inl e \<Rightarrow> Inl e
      | Inr (Rows ls) \<Rightarrow> (case scan_first ls of Inl e \<Rightarrow> Inl e | Inr l \<Rightarrow> Inr (scanLink shard l))
      | Inr _ \<Rightarrow> Inl unexpected)"

definition GetByCode :: "'db pg \<Rightarrow> string \<Rightarrow> 'db store \<Rightarrow> (go_error + link) \<times> 'db store" where
  "GetByCode exec code st =
     (let shard = ShardFor st code; (r, st') = run_sql exec (Select_link (shardTable shard) code) st
      in (link_row shard r, st'))"

definition CodeExists :: "'db pg \<Rightarrow> string \<Rightarrow> 'db store \<Rightarrow> (go_error + bool) \<times> 'db store" where
  "CodeExists exec code st =
     (let (r, st') = run_sql exec (Select_one (shardTable (ShardFor st code)) code) st
      in (case r of
            Inl e \<Rightarrow> Inl e
          | Inr (Ones n) \<Rightarrow> Inr (n > 0)
          | Inr _ \<Rightarrow> Inl unexpected, st'))"

fun every_shard ::
  "'db pg \<Rightarrow> (string \<Rightarrow> sql) \<Rightarrow> int list \<Rightarrow> link list \<Rightarrow> 'db store \<Rightarrow> (go_error + link list) \<times> 'db store" where
  "every_shard exec query [] out st = (Inr out, st)"
| "every_shard exec query (shard # rest) out st =
     (case run_sql exec (query (shardTable shard)) st of
        (Inl e, st') \<Rightarrow> (Inl e, st')
      | (Inr (Rows ls), st') \<Rightarrow> every_shard exec query rest (out @ map (scanLink shard) ls) st'
      | (Inr _, st') \<Rightarrow> (Inl unexpected, st'))"

definition queryEveryShard ::
  "'db pg \<Rightarrow> (string \<Rightarrow> sql) \<Rightarrow> 'db store \<Rightarrow> (go_error + link list) \<times> 'db store" where
  "queryEveryShard exec query st = every_shard exec query [0..ShardCount (st_ring st) - 1] [] st"

text \<open>\<^verbatim>\<open>sort.Slice\<close> leaves the order of equal elements open: the sorting function is an argument.\<close>

definition ListByUser ::
  "'db pg \<Rightarrow> (link list \<Rightarrow> link list) \<Rightarrow> int \<Rightarrow> int \<Rightarrow> 'db store \<Rightarrow> (go_error + link list) \<times> 'db store" where
  "ListByUser exec sort_desc userID limit st =
     (let (r, st') = queryEveryShard exec (\<lambda>t. Select_user_links t userID limit) st
      in (case r of
            Inl e \<Rightarrow> Inl e
          | Inr out \<Rightarrow>
              let s = sort_desc out in Inr (if int (length s) > limit then take (nat limit) s else s), st'))"

definition AllCodes :: "'db pg \<Rightarrow> 'db store \<Rightarrow> (go_error + link list) \<times> 'db store" where
  "AllCodes exec st = queryEveryShard exec Select_all_links st"

text \<open>The order in which Go visits the groups is an argument (\<open>order\<close>).\<close>

definition ReassignLinks ::
  "'db pg \<Rightarrow> ((int, string list) gomap \<Rightarrow> (int, string list) gomap) \<Rightarrow> string list \<Rightarrow> int \<Rightarrow> 'db store
     \<Rightarrow> go_error option \<times> 'db store" where
  "ReassignLinks exec order codes userID st =
     exec_all exec (map (\<lambda>(shard, cs). Update_owner (shardTable shard) userID cs) (order (groupByShard st codes))) st"

definition DeleteLink :: "'db pg \<Rightarrow> string \<Rightarrow> int \<Rightarrow> 'db store \<Rightarrow> (go_error + bool) \<times> 'db store" where
  "DeleteLink exec code userID st =
     (let (r, st') = run_sql exec (Delete_link (shardTable (ShardFor st code)) code userID) st
      in (case r of
            Inl e \<Rightarrow> Inl e
          | Inr (Affected n) \<Rightarrow> Inr (n > 0)
          | Inr _ \<Rightarrow> Inl unexpected, st'))"

definition ToggleActive :: "'db pg \<Rightarrow> string \<Rightarrow> int \<Rightarrow> 'db store \<Rightarrow> (go_error + link) \<times> 'db store" where
  "ToggleActive exec code userID st =
     (let shard = ShardFor st code; (r, st') = run_sql exec (Toggle_active (shardTable shard) code userID) st
      in (link_row shard r, st'))"

section \<open>Click counters\<close>

definition BumpClicks :: "string \<Rightarrow> int \<Rightarrow> 'db store \<Rightarrow> 'db store" where
  "BumpClicks code n st = st\<lparr>pendingClicks := mput code (mget 0 (pendingClicks st) code + n) (pendingClicks st)\<rparr>"

definition DropPending :: "string \<Rightarrow> 'db store \<Rightarrow> 'db store" where
  "DropPending code st = st\<lparr>pendingClicks := mdel code (pendingClicks st)\<rparr>"

fun SetClicks :: "'db pg \<Rightarrow> (string, int) gomap \<Rightarrow> 'db store \<Rightarrow> go_error option \<times> 'db store" where
  "SetClicks exec [] st = (None, st)"
| "SetClicks exec ((code, n) # totals) st =
     (case run_sql exec (Set_clicks (shardTable (ShardFor st code)) code n) (DropPending code st) of
        (Inl e, st') \<Rightarrow> (Some e, st')
      | (Inr _, st') \<Rightarrow> SetClicks exec totals st')"

definition flushChunk :: nat where "flushChunk = 1000"

text \<open>\<^verbatim>\<open>for start := 0; start < len(cs); start += flushChunk\<close>\<close>

function chunks :: "nat \<Rightarrow> 'a list \<Rightarrow> 'a list list" where
  "chunks n xs = (if xs = [] \<or> n = 0 then [] else take n xs # chunks n (drop n xs))"
  by pat_completeness auto
termination
  by (relation "measure (\<lambda>(n, xs). length xs)") auto

declare chunks.simps [simp del]

definition clickUpdate :: "string \<Rightarrow> string list \<Rightarrow> (string, int) gomap \<Rightarrow> sql" where
  "clickUpdate table codes counts = Add_clicks table (map (\<lambda>c. (c, mget 0 counts c)) codes)"

text \<open>The chunks of a flush in the order they are written.\<close>

definition flush_plan ::
  "((int, string list) gomap \<Rightarrow> (int, string list) gomap) \<Rightarrow> 'db store \<Rightarrow> (string, int) gomap \<Rightarrow> (int \<times> string list) list" where
  "flush_plan order st pending =
     concat (map (\<lambda>(shard, cs). map (Pair shard) (chunks flushChunk cs)) (order (groupByShard st (map fst pending))))"

definition write_chunk ::
  "'db pg \<Rightarrow> (string, int) gomap \<Rightarrow> int \<times> string list \<Rightarrow> string list \<times> 'db store \<Rightarrow> string list \<times> 'db store" where
  "write_chunk exec pending = (\<lambda>(shard, chunk) (failed, st).
     let (r, st') = run_sql exec (clickUpdate (shardTable shard) chunk pending) st
     in case r of Inl e \<Rightarrow> (failed @ chunk, st') | Inr _ \<Rightarrow> (failed, st'))"

definition put_back :: "(string, int) gomap \<Rightarrow> string list \<Rightarrow> 'db store \<Rightarrow> 'db store" where
  "put_back pending failed st = fold (\<lambda>c. BumpClicks c (mget 0 pending c)) failed st"

definition flushClicks ::
  "'db pg \<Rightarrow> ((int, string list) gomap \<Rightarrow> (int, string list) gomap) \<Rightarrow> 'db store \<Rightarrow> 'db store" where
  "flushClicks exec order st =
     (let pending = pendingClicks st; st0 = st\<lparr>pendingClicks := []\<rparr>
      in if pending = [] then st0
         else let (failed, st1) = fold (write_chunk exec pending) (flush_plan order st0 pending) ([], st0)
              in put_back pending failed st1)"

section \<open>Statistics\<close>

definition stat_of :: "int \<Rightarrow> go_error + sql_reply \<Rightarrow> shard_stat" where
  "stat_of i r =
     (case r of
        Inr (Counts links clicks) \<Rightarrow> \<lparr>ss_shard = i, ss_table = shardTable i, ss_links = links, ss_clicks = clicks\<rparr>
      | _ \<Rightarrow> \<lparr>ss_shard = i, ss_table = shardTable i, ss_links = 0, ss_clicks = 0\<rparr>)"

definition count_shards :: "'db pg \<Rightarrow> int \<Rightarrow> 'db store \<Rightarrow> shard_stat list \<times> 'db store" where
  "count_shards exec now st =
     (let (out, st') = fold (\<lambda>i (out, st). let (r, st') = run_sql exec (Count_links (shardTable i)) st in (out @ [stat_of i r], st'))
        [0..ShardCount (st_ring st) - 1] ([], st)
      in (out, st'\<lparr>shardStats := Some (now, out)\<rparr>))"

definition ShardDistribution :: "'db pg \<Rightarrow> int \<Rightarrow> int \<Rightarrow> 'db store \<Rightarrow> shard_stat list \<times> 'db store" where
  "ShardDistribution exec now now' st =
     (case shardStats st of
        Some (at, out) \<Rightarrow> if now - at < statsTTL then (out, st) else count_shards exec now' st
      | None \<Rightarrow> count_shards exec now' st)"

end
