(* ===== verification/Pg_Spec.thy ===== *)
theory Pg_Spec
  imports Pg
begin

text \<open>
  What the store relies on of Postgres (\<open>pg_ok\<close>), a small database that meets it, and the
  properties of \<^verbatim>\<open>backend/pg.go\<close> under that contract: every link lives in exactly the shard that the
  ring assigns, a listing over all shards is the newest links overall, and buffered click
  counts are never lost or counted twice.
\<close>

section \<open>The contract\<close>

text \<open>
  The rows of the link tables by name.  A row has the eleven columns: no shard number, and
  times cut to the microseconds of \<^verbatim>\<open>TIMESTAMPTZ\<close>.
\<close>

type_synonym tables = "string \<Rightarrow> link list"

definition micros :: "int \<Rightarrow> int" where "micros t = t div 1000 * 1000"

definition columns :: "link \<Rightarrow> link" where
  "columns l = l\<lparr>l_Shard := 0, l_CreatedAt := micros (l_CreatedAt l), l_ExpiresAt := map_option micros (l_ExpiresAt l)\<rparr>"

definition newest_first :: "link list \<Rightarrow> bool" where
  "newest_first ls \<longleftrightarrow> sorted_wrt (\<lambda>a b. l_CreatedAt a \<ge> l_CreatedAt b) ls"

definition update_rows :: "(link \<Rightarrow> bool) \<Rightarrow> (link \<Rightarrow> link) \<Rightarrow> string \<Rightarrow> tables \<Rightarrow> tables" where
  "update_rows P f t T = T(t := map (\<lambda>l. if P l then f l else l) (T t))"

definition add_count :: "(string \<times> int) list \<Rightarrow> link \<Rightarrow> link" where
  "add_count vs l = (case map_of vs (l_Code l) of None \<Rightarrow> l | Some n \<Rightarrow> l\<lparr>l_Clicks := l_Clicks l + n\<rparr>)"

text \<open>The meaning of the statements on links: the reply and the tables afterwards.\<close>

fun link_sql :: "sql \<Rightarrow> tables \<Rightarrow> sql_reply \<Rightarrow> tables \<Rightarrow> bool" where
  "link_sql (Insert_link t l) T r T' \<longleftrightarrow>
     (\<forall>x\<in>set (T t). l_Code x \<noteq> l_Code l \<and> l_ID x \<noteq> l_ID l) \<and> r = Affected 1 \<and> T' = T(t := T t @ [columns l])"
| "link_sql (Select_link t c) T r T' \<longleftrightarrow> r = Rows (filter (\<lambda>l. l_Code l = c) (T t)) \<and> T' = T"
| "link_sql (Select_one t c) T r T' \<longleftrightarrow> r = Ones (length (filter (\<lambda>l. l_Code l = c) (T t))) \<and> T' = T"
| "link_sql (Select_user_links t u n) T r T' \<longleftrightarrow>
     (\<exists>ls. mset ls = mset (filter (\<lambda>l. l_UserID l = u) (T t)) \<and> newest_first ls \<and> r = Rows (take (nat n) ls)) \<and> T' = T"
| "link_sql (Select_all_links t) T r T' \<longleftrightarrow>
     (\<exists>ls. mset ls = mset (T t) \<and> sorted_wrt (\<lambda>a b. l_Clicks a \<ge> l_Clicks b) ls \<and> r = Rows ls) \<and> T' = T"
| "link_sql (Update_owner t u cs) T r T' \<longleftrightarrow>
     (\<exists>k. r = Affected k) \<and> T' = update_rows (\<lambda>l. l_Code l \<in> set cs) (\<lambda>l. l\<lparr>l_UserID := u\<rparr>) t T"
| "link_sql (Delete_link t c u) T r T' \<longleftrightarrow>
     r = Affected (length (filter (\<lambda>l. l_Code l = c \<and> l_UserID l = u) (T t)))
     \<and> T' = T(t := filter (\<lambda>l. \<not> (l_Code l = c \<and> l_UserID l = u)) (T t))"
| "link_sql (Toggle_active t c u) T r T' \<longleftrightarrow>
     T' = update_rows (\<lambda>l. l_Code l = c \<and> l_UserID l = u) (\<lambda>l. l\<lparr>l_Active := \<not> l_Active l\<rparr>) t T
     \<and> r = Rows (filter (\<lambda>l. l_Code l = c \<and> l_UserID l = u) (T' t))"
| "link_sql (Set_clicks t c n) T r T' \<longleftrightarrow>
     (\<exists>k. r = Affected k) \<and> T' = update_rows (\<lambda>l. l_Code l = c) (\<lambda>l. l\<lparr>l_Clicks := n\<rparr>) t T"
| "link_sql (Add_clicks t vs) T r T' \<longleftrightarrow> (\<exists>k. r = Affected k) \<and> T' = T(t := map (add_count vs) (T t))"
| "link_sql (Count_links t) T r T' \<longleftrightarrow> r = Counts (int (length (T t))) (\<Sum>l\<leftarrow>T t. l_Clicks l) \<and> T' = T"
| "link_sql (Create_links t) T r T' \<longleftrightarrow> r = Done \<and> T' = T"
| "link_sql (Create_index t) T r T' \<longleftrightarrow> r = Done \<and> T' = T"
| "link_sql Create_users T r T' \<longleftrightarrow> r = Done \<and> T' = T"
| "link_sql _ T r T' \<longleftrightarrow> T' = T"

text \<open>A statement that fails changes nothing; a missing row is no failure of the server, and a
  unique violation is reported only for a row that is there.\<close>

definition sql_step :: "sql \<Rightarrow> tables \<Rightarrow> go_error + sql_reply \<Rightarrow> tables \<Rightarrow> bool" where
  "sql_step q T r T' \<longleftrightarrow>
     (case r of
        Inl e \<Rightarrow> T' = T \<and> e \<noteq> Err_no_rows \<and> e \<noteq> Err_unknown_code
          \<and> (\<forall>t l. q = Insert_link t l \<and> isUniqueViolation e \<longrightarrow> (\<exists>x\<in>set (T t). l_Code x = l_Code l \<or> l_ID x = l_ID l))
      | Inr rep \<Rightarrow> link_sql q T rep T')"

definition pg_ok :: "'db pg \<Rightarrow> ('db \<Rightarrow> tables) \<Rightarrow> bool" where
  "pg_ok exec view \<longleftrightarrow> (\<forall>q d. sql_step q (view d) (fst (exec q d)) (view (snd (exec q d))))"

text \<open>A database of link tables that fails when the script of its failures says so.\<close>

type_synonym mem_db = "(string, link list) gomap \<times> bool list"

definition mem_tables :: "mem_db \<Rightarrow> tables" where
  "mem_tables d = mget [] (fst d)"

definition insert_desc :: "(link \<Rightarrow> int) \<Rightarrow> link list \<Rightarrow> link list" where
  "insert_desc key ls = sort_key (\<lambda>l. - key l) ls"

fun mem_sql :: "sql \<Rightarrow> (string, link list) gomap \<Rightarrow> (go_error + sql_reply) \<times> (string, link list) gomap" where
  "mem_sql (Insert_link t l) m =
     (if list_ex (\<lambda>x. l_Code x = l_Code l \<or> l_ID x = l_ID l) (mget [] m t) then (Inl (Pg_error ''23505''), m)
      else (Inr (Affected 1), mput t (mget [] m t @ [columns l]) m))"
| "mem_sql (Select_link t c) m = (Inr (Rows (filter (\<lambda>l. l_Code l = c) (mget [] m t))), m)"
| "mem_sql (Select_one t c) m = (Inr (Ones (length (filter (\<lambda>l. l_Code l = c) (mget [] m t)))), m)"
| "mem_sql (Select_user_links t u n) m =
     (Inr (Rows (take (nat n) (insert_desc l_CreatedAt (filter (\<lambda>l. l_UserID l = u) (mget [] m t))))), m)"
| "mem_sql (Select_all_links t) m = (Inr (Rows (insert_desc l_Clicks (mget [] m t))), m)"
| "mem_sql (Update_owner t u cs) m =
     (Inr (Affected 0), mput t (map (\<lambda>l. if List.member cs (l_Code l) then l\<lparr>l_UserID := u\<rparr> else l) (mget [] m t)) m)"
| "mem_sql (Delete_link t c u) m =
     (Inr (Affected (length (filter (\<lambda>l. l_Code l = c \<and> l_UserID l = u) (mget [] m t)))),
      mput t (filter (\<lambda>l. \<not> (l_Code l = c \<and> l_UserID l = u)) (mget [] m t)) m)"
| "mem_sql (Toggle_active t c u) m =
     (let rows = map (\<lambda>l. if l_Code l = c \<and> l_UserID l = u then l\<lparr>l_Active := \<not> l_Active l\<rparr> else l) (mget [] m t)
      in (Inr (Rows (filter (\<lambda>l. l_Code l = c \<and> l_UserID l = u) rows)), mput t rows m))"
| "mem_sql (Set_clicks t c n) m =
     (Inr (Affected 0), mput t (map (\<lambda>l. if l_Code l = c then l\<lparr>l_Clicks := n\<rparr> else l) (mget [] m t)) m)"
| "mem_sql (Add_clicks t vs) m = (Inr (Affected 0), mput t (map (add_count vs) (mget [] m t)) m)"
| "mem_sql (Count_links t) m = (Inr (Counts (int (length (mget [] m t))) (\<Sum>l\<leftarrow>mget [] m t. l_Clicks l)), m)"
| "mem_sql (Select_user_id i) m = (Inr (User_rows []), m)"
| "mem_sql (Select_user_email e) m = (Inr (User_rows []), m)"
| "mem_sql _ m = (Inr Done, m)"

fun mem_exec :: "mem_db pg" where
  "mem_exec q (m, True # fs) = (Inl (Err_other ''connection lost''), (m, fs))"
| "mem_exec q (m, fs) = (let (r, m') = mem_sql q m in (r, (m', tl fs)))"

lemma mset_insert_desc: "mset (insert_desc key ls) = mset ls"
  by (simp add: insert_desc_def)

lemma sorted_insert_desc: "sorted_wrt (\<lambda>a b. key a \<ge> key b) (insert_desc key ls)"
proof -
  have "sorted (map (\<lambda>l. - key l) (insert_desc key ls))" by (simp add: insert_desc_def)
  then show ?thesis by (simp add: sorted_wrt_map)
qed

lemma mget_put_fun: "mget z (mput t v m) = (mget z m)(t := v)"
  by auto

lemma mem_sql_ok: "sql_step q (mget [] m) (fst (mem_sql q m)) (mget [] (snd (mem_sql q m)))"
proof (cases q)
  case (Select_user_links t u n)
  then show ?thesis
    by (auto simp: sql_step_def newest_first_def sorted_insert_desc mset_insert_desc
        intro!: exI [of _ "insert_desc l_CreatedAt (filter (\<lambda>l. l_UserID l = u) (mget [] m t))"])
next
  case (Select_all_links t)
  then show ?thesis by (auto simp: sql_step_def sorted_insert_desc mset_insert_desc)
qed (auto simp: sql_step_def mget_put_fun update_rows_def list_ex_iff Let_def fun_eq_iff comp_def split: if_splits)

lemma mem_pg_ok: "pg_ok mem_exec mem_tables"
  unfolding pg_ok_def
proof (intro allI)
  fix q and d :: mem_db
  obtain m fs where d: "d = (m, fs)" by (cases d)
  show "sql_step q (mem_tables d) (fst (mem_exec q d)) (mem_tables (snd (mem_exec q d)))"
  proof (cases "fs \<noteq> [] \<and> hd fs")
    case True
    then show ?thesis by (cases fs) (auto simp: d mem_tables_def sql_step_def isUniqueViolation_def)
  next
    case False
    then have "mem_exec q d = (let (r, m') = mem_sql q m in (r, (m', tl fs)))"
      by (cases fs) (auto simp: d)
    with mem_sql_ok [of q m] show ?thesis by (simp add: d mem_tables_def case_prod_beta' Let_def)
  qed
qed

section \<open>Rows\<close>

text \<open>The row of a code: the first one in the table that the ring assigns to it.\<close>

definition row_of :: "('db \<Rightarrow> tables) \<Rightarrow> 'db store \<Rightarrow> string \<Rightarrow> link option" where
  "row_of view st code = find (\<lambda>l. l_Code l = code) (view (db st) (shardTable (ShardFor st code)))"

definition clicks_of :: "('db \<Rightarrow> tables) \<Rightarrow> 'db store \<Rightarrow> string \<Rightarrow> int" where
  "clicks_of view st code = (case row_of view st code of None \<Rightarrow> 0 | Some l \<Rightarrow> l_Clicks l)"

lemma run_sql_simps [simp]:
  "st_ring (snd (run_sql exec q st)) = st_ring st" "pendingClicks (snd (run_sql exec q st)) = pendingClicks st"
  "ShardFor (snd (run_sql exec q st)) = ShardFor st"
  by (simp_all add: run_sql_def ShardFor_def fun_eq_iff split: prod.splits)

lemma run_sql_step:
  assumes "pg_ok exec view" "run_sql exec q st = (r, st')"
  shows "sql_step q (view (db st)) r (view (db st'))"
proof -
  have "r = fst (exec q (db st))" "db st' = snd (exec q (db st))"
    using assms(2) by (auto simp: run_sql_def split: prod.splits)
  then show ?thesis using assms(1) by (simp add: pg_ok_def)
qed

lemma run_sql_error:
  assumes "pg_ok exec view" "run_sql exec q st = (Inl e, st')"
  shows "view (db st') = view (db st)" "e \<noteq> Err_no_rows" "e \<noteq> Err_unknown_code"
  using run_sql_step [OF assms] by (simp_all add: sql_step_def)

lemma run_sql_reply:
  assumes "pg_ok exec view" "run_sql exec q st = (Inr r, st')"
  shows "link_sql q (view (db st)) r (view (db st'))"
  using run_sql_step [OF assms] by (simp add: sql_step_def)

lemma run_sql_keeps:
  assumes "run_sql exec q st = (r, st')"
  shows "st_ring st' = st_ring st" "pendingClicks st' = pendingClicks st" "ShardFor st' = ShardFor st"
  using run_sql_simps [of exec q st] by (simp_all add: assms)

section \<open>Grouping and chunks\<close>

lemma groupBy_put:
  "mset (concat (map snd (mput k (mget [] m k @ [c]) m))) = add_mset c (mset (concat (map snd m)))"
  by (induction m) (auto simp: mget_def)

lemma groupByShard_mset: "mset (concat (map snd (groupByShard st codes))) = mset codes"
proof -
  have "mset (concat (map snd (fold (\<lambda>c out. let sh = ShardFor st c in mput sh (mget [] out sh @ [c]) out) codes m)))
      = mset (concat (map snd m)) + mset codes" for m
    by (induction codes arbitrary: m) (auto simp: Let_def groupBy_put)
  then show ?thesis by (simp add: groupByShard_def)
qed

definition grouped :: "'db store \<Rightarrow> (int, string list) gomap \<Rightarrow> bool" where
  "grouped st m \<longleftrightarrow> wf_map m \<and> (\<forall>sh cs. (sh, cs) \<in> set m \<longrightarrow> (\<forall>c\<in>set cs. ShardFor st c = sh))"

lemma grouped_put:
  assumes "grouped st m"
  shows "grouped st (mput (ShardFor st c) (mget [] m (ShardFor st c) @ [c]) m)"
proof -
  have wf: "wf_map m" using assms by (simp add: grouped_def)
  have old: "\<forall>x\<in>set (mget [] m (ShardFor st c)). ShardFor st x = ShardFor st c"
    using assms by (cases "map_of m (ShardFor st c)") (auto simp: grouped_def mget_def dest: map_of_SomeD)
  show ?thesis unfolding grouped_def
  proof (intro conjI allI impI)
    fix sh cs assume "(sh, cs) \<in> set (mput (ShardFor st c) (mget [] m (ShardFor st c) @ [c]) m)"
    from put_entries [OF wf this] old assms show "\<forall>c\<in>set cs. ShardFor st c = sh" by (auto simp: grouped_def)
  qed (simp add: wf)
qed

lemma groupByShard_grouped: "grouped st (groupByShard st codes)"
proof -
  have "grouped st m \<Longrightarrow> grouped st (fold (\<lambda>c out. let sh = ShardFor st c in mput sh (mget [] out sh @ [c]) out) codes m)" for m
  proof (induction codes arbitrary: m)
    case (Cons c codes)
    show ?case unfolding fold_simps Let_def
      using Cons.IH [OF grouped_put [OF Cons.prems, of c]] by (simp only: Let_def)
  qed simp
  moreover have "grouped st []" by (simp add: grouped_def)
  ultimately show ?thesis unfolding groupByShard_def by blast
qed

lemma concat_chunks: "0 < n \<Longrightarrow> concat (chunks n xs) = xs"
  by (induction n xs rule: chunks.induct) (subst chunks.simps, auto)

lemma concat_map_concat: "concat (map f (concat (map g xs))) = concat (map (\<lambda>x. concat (map f (g x))) xs)"
  by (induction xs) auto

text \<open>The order in which the groups are visited is a permutation.\<close>

definition permutes_map :: "((int, string list) gomap \<Rightarrow> (int, string list) gomap) \<Rightarrow> bool" where
  "permutes_map order \<longleftrightarrow> (\<forall>m. mset (order m) = mset m)"

lemma flush_plan_codes:
  assumes "permutes_map order"
  shows "mset (concat (map snd (flush_plan order st pending))) = mset (map fst pending)"
    and "\<forall>(sh, ch)\<in>set (flush_plan order st pending). \<forall>c\<in>set ch. ShardFor st c = sh"
proof -
  let ?g = "groupByShard st (map fst pending)"
  have p: "mset (order ?g) = mset ?g" using assms by (simp add: permutes_map_def)
  have "concat (map snd (flush_plan order st pending)) = concat (map snd (order ?g))"
    unfolding flush_plan_def concat_map_concat
    by (simp add: case_prod_beta' comp_def concat_chunks flushChunk_def)
  also have "mset \<dots> = mset (concat (map snd ?g))"
    using p by (simp add: mset_concat) (metis mset_map sum_mset_sum_list)
  finally show "mset (concat (map snd (flush_plan order st pending))) = mset (map fst pending)"
    by (simp add: groupByShard_mset)
  have s: "set (order ?g) = set ?g" using p by (metis set_mset_mset)
  have sub: "ch \<in> set (chunks flushChunk cs) \<Longrightarrow> set ch \<subseteq> set cs" for ch cs :: "string list"
    using concat_chunks [of flushChunk cs] by (auto simp: flushChunk_def) (metis UN_I set_concat)
  show "\<forall>(sh, ch)\<in>set (flush_plan order st pending). \<forall>c\<in>set ch. ShardFor st c = sh"
    using groupByShard_grouped [of st "map fst pending"] sub
    by (fastforce simp: flush_plan_def s grouped_def)
qed

section \<open>Clicks\<close>

text \<open>
  Redirects bump counters while the flusher is at work: the flusher takes the lock to swap the
  map and to put failed chunks back, and each \<^verbatim>\<open>UPDATE\<close> runs between them.  The steps of
  \<^const>\<open>flushClicks\<close> interleave with \<^const>\<open>BumpClicks\<close>; the last component counts the clicks that
  were recorded.
\<close>

datatype flush_pc = Idle | Writing "(string, int) gomap" "(int \<times> string list) list" "string list"

type_synonym 'db click_state = "'db store \<times> flush_pc \<times> (string \<Rightarrow> int)"

inductive click_step ::
  "'db pg \<Rightarrow> ((int, string list) gomap \<Rightarrow> (int, string list) gomap) \<Rightarrow> 'db click_state \<Rightarrow> 'db click_state \<Rightarrow> bool"
  for exec order where
  click_bump: "click_step exec order (st, pc, k) (BumpClicks c n st, pc, k(c := k c + n))"
| click_swap: "pendingClicks st \<noteq> [] \<Longrightarrow> st0 = st\<lparr>pendingClicks := []\<rparr> \<Longrightarrow>
    click_step exec order (st, Idle, k) (st0, Writing (pendingClicks st) (flush_plan order st0 (pendingClicks st)) [], k)"
| click_write: "write_chunk exec p ch (failed, st) = (failed', st') \<Longrightarrow>
    click_step exec order (st, Writing p (ch # chs) failed, k) (st', Writing p chs failed', k)"
| click_back: "click_step exec order (st, Writing p [] failed, k) (put_back p failed st, Idle, k)"

inductive click_run ::
  "'db pg \<Rightarrow> ((int, string list) gomap \<Rightarrow> (int, string list) gomap) \<Rightarrow> 'db store \<Rightarrow> 'db click_state \<Rightarrow> bool"
  for exec order st0 where
  click_start: "click_run exec order st0 (st0, Idle, \<lambda>_. 0)"
| click_next: "click_run exec order st0 s \<Longrightarrow> click_step exec order s s' \<Longrightarrow> click_run exec order st0 s'"

inductive_cases click_stepE: "click_step exec order s s'"

text \<open>What the flusher holds of a code, and the shape of its work.\<close>

fun held :: "flush_pc \<Rightarrow> string \<Rightarrow> int" where
  "held Idle c = 0"
| "held (Writing p chs failed) c = (if c \<in> set (concat (map snd chs)) \<union> set failed then mget 0 p c else 0)"

fun pc_wf :: "'db store \<Rightarrow> flush_pc \<Rightarrow> bool" where
  "pc_wf st Idle \<longleftrightarrow> True"
| "pc_wf st (Writing p chs failed) \<longleftrightarrow> distinct (concat (map snd chs) @ failed)
     \<and> (\<forall>(sh, ch)\<in>set chs. \<forall>c\<in>set ch. ShardFor st c = sh)"

lemma BumpClicks_simps [simp]:
  "db (BumpClicks c n st) = db st" "st_ring (BumpClicks c n st) = st_ring st"
  "ShardFor (BumpClicks c n st) = ShardFor st"
  by (simp_all add: BumpClicks_def ShardFor_def fun_eq_iff)

lemma pending_bump:
  "mget 0 (pendingClicks (BumpClicks c n st)) d = mget 0 (pendingClicks st) d + (if d = c then n else 0)"
  by (simp add: BumpClicks_def)

lemma put_back_simps:
  "db (put_back p failed st) = db st \<and> ShardFor (put_back p failed st) = ShardFor st
   \<and> st_ring (put_back p failed st) = st_ring st
   \<and> (wf_map (pendingClicks st) \<longrightarrow> wf_map (pendingClicks (put_back p failed st)))"
  unfolding put_back_def by (induction failed arbitrary: st) (auto simp: BumpClicks_def ShardFor_def fun_eq_iff)

lemma pending_put_back:
  "distinct failed \<Longrightarrow> mget 0 (pendingClicks (put_back p failed st)) d =
     mget 0 (pendingClicks st) d + (if d \<in> set failed then mget 0 p d else 0)"
proof (induction failed arbitrary: st)
  case (Cons c failed)
  have "put_back p (c # failed) st = put_back p failed (BumpClicks c (mget 0 p c) st)" by (simp add: put_back_def)
  then show ?case using Cons by (auto simp: pending_bump)
qed (simp add: put_back_def)

lemma find_map_code:
  assumes "\<And>l. l_Code (f l) = l_Code l"
  shows "find (\<lambda>l. l_Code l = c) (map f ls) = map_option f (find (\<lambda>l. l_Code l = c) ls)"
  using assms by (induction ls) auto

lemma row_of_code: "row_of view st c = Some l \<Longrightarrow> l_Code l = c"
  by (auto simp: row_of_def find_Some_iff)

lemma row_of_cong:
  "view (db st') = view (db st) \<Longrightarrow> ShardFor st' = ShardFor st \<Longrightarrow> row_of view st' c = row_of view st c"
  by (simp add: row_of_def)

lemma map_of_counts: "map_of (map (\<lambda>c. (c, f c)) cs) c = (if c \<in> set cs then Some (f c) else None)"
  by (induction cs) auto

lemma row_of_written:
  assumes "pg_ok exec view" "run_sql exec (clickUpdate (shardTable sh) ch p) st = (Inr r, st')"
    and "\<forall>c\<in>set ch. ShardFor st c = sh"
  shows "row_of view st' c =
    map_option (\<lambda>l. if c \<in> set ch then l\<lparr>l_Clicks := l_Clicks l + mget 0 p c\<rparr> else l) (row_of view st c)"
proof -
  let ?vs = "map (\<lambda>c. (c, mget 0 p c)) ch" and ?T = "view (db st)" and ?t = "shardTable (ShardFor st c)"
  have T': "view (db st') = ?T(shardTable sh := map (add_count ?vs) (?T (shardTable sh)))"
    using run_sql_reply [OF assms(1,2)] by (simp add: clickUpdate_def)
  have code: "l_Code (add_count ?vs l) = l_Code l" for l by (simp add: add_count_def split: option.splits)
  have eq: "add_count ?vs l = (if c \<in> set ch then l\<lparr>l_Clicks := l_Clicks l + mget 0 p c\<rparr> else l)" if "l_Code l = c" for l
    using that by (simp add: add_count_def map_of_counts)
  have S: "ShardFor st' = ShardFor st" by (rule run_sql_keeps [OF assms(2)])
  have row: "map_option (add_count ?vs) (row_of view st c) =
      map_option (\<lambda>l. if c \<in> set ch then l\<lparr>l_Clicks := l_Clicks l + mget 0 p c\<rparr> else l) (row_of view st c)"
    using eq row_of_code [of view st c] by (cases "row_of view st c") auto
  show ?thesis
  proof (cases "?t = shardTable sh")
    case True
    then have "row_of view st' c = map_option (add_count ?vs) (row_of view st c)"
      by (simp add: row_of_def S T' find_map_code [OF code])
    with row show ?thesis by simp
  next
    case False
    then have "c \<notin> set ch" using assms(3) by auto
    then show ?thesis using False by (cases "row_of view st c") (simp_all add: row_of_def S T' False)
  qed
qed

definition click_inv :: "('db \<Rightarrow> tables) \<Rightarrow> 'db store \<Rightarrow> 'db click_state \<Rightarrow> bool" where
  "click_inv view st0 = (\<lambda>(st, pc, k). ShardFor st = ShardFor st0 \<and> wf_map (pendingClicks st) \<and> pc_wf st pc
     \<and> (\<forall>c. row_of view st0 c \<noteq> None \<longrightarrow> row_of view st c \<noteq> None
          \<and> clicks_of view st c + mget 0 (pendingClicks st) c + held pc c
            = clicks_of view st0 c + mget 0 (pendingClicks st0) c + k c))"

lemma inv_start: "wf_map (pendingClicks st0) \<Longrightarrow> click_inv view st0 (st0, Idle, \<lambda>_. 0)"
  by (simp add: click_inv_def)

lemma inv_bump:
  assumes "click_inv view st0 (st, pc, k)"
  shows "click_inv view st0 (BumpClicks c n st, pc, k(c := k c + n))"
proof -
  have r: "row_of view (BumpClicks c n st) = row_of view st" by (simp add: fun_eq_iff row_of_def)
  then have "clicks_of view (BumpClicks c n st) = clicks_of view st" by (simp add: fun_eq_iff clicks_of_def)
  moreover have "pc_wf (BumpClicks c n st) pc = pc_wf st pc" by (cases pc) simp_all
  moreover have "wf_map (pendingClicks st) \<Longrightarrow> wf_map (pendingClicks (BumpClicks c n st))" by (simp add: BumpClicks_def)
  ultimately show ?thesis using assms r by (auto simp: click_inv_def pending_bump)
qed

lemma inv_swap:
  assumes "click_inv view st0 (st, Idle, k)" "permutes_map order"
  defines "s \<equiv> st\<lparr>pendingClicks := []\<rparr>"
  shows "click_inv view st0 (s, Writing (pendingClicks st) (flush_plan order s (pendingClicks st)) [], k)"
proof -
  let ?plan = "flush_plan order s (pendingClicks st)"
  note plan = flush_plan_codes [OF assms(2), of s "pendingClicks st"]
  have S: "ShardFor s = ShardFor st" by (simp add: s_def ShardFor_def fun_eq_iff)
  have r: "row_of view s = row_of view st" by (simp add: fun_eq_iff row_of_def S) (simp add: s_def)
  then have q: "clicks_of view s = clicks_of view st" by (simp add: fun_eq_iff clicks_of_def)
  have "distinct (map fst (pendingClicks st))" using assms(1) by (simp add: click_inv_def wf_map_def)
  then have d: "distinct (concat (map snd ?plan))" using plan(1) by (metis mset_eq_imp_distinct_iff)
  have "set (concat (map snd ?plan)) = set (map fst (pendingClicks st))" using plan(1) by (metis set_mset_mset)
  then have h: "held (Writing (pendingClicks st) ?plan []) c = mget 0 (pendingClicks st) c" for c
    using map_of_eq_None_iff [of "pendingClicks st" c] by (auto simp: mget_def)
  have p: "pendingClicks s = []" by (simp add: s_def)
  show ?thesis using assms(1) d plan(2) by (simp add: click_inv_def S r q h p del: held.simps(2))
qed

lemma inv_write:
  assumes inv: "click_inv view st0 (st, Writing p (ch # chs) failed, k)" and pg: "pg_ok exec view"
    and w: "write_chunk exec p ch (failed, st) = (failed', st')"
  shows "click_inv view st0 (st', Writing p chs failed', k)"
proof -
  obtain sh cs where ch: "ch = (sh, cs)" by (cases ch)
  let ?q = "clickUpdate (shardTable sh) cs p"
  have S: "\<forall>c\<in>set cs. ShardFor st c = sh" using inv by (auto simp: click_inv_def ch)
  have dj: "\<forall>c\<in>set cs. c \<notin> set (concat (map snd chs)) \<and> c \<notin> set failed"
    using inv by (auto simp: click_inv_def ch)
  obtain r s where run: "run_sql exec ?q st = (r, s)" by (cases "run_sql exec ?q st")
  note keep = run_sql_keeps [OF run]
  show ?thesis
  proof (cases r)
    case (Inl e)
    then have f: "failed' = failed @ cs" "st' = s" using w run by (simp_all add: write_chunk_def ch)
    have v: "view (db s) = view (db st)" using run_sql_error [OF pg run [unfolded Inl]] by simp
    have row: "row_of view s = row_of view st" by (rule ext) (rule row_of_cong [OF v keep(3)])
    then have "clicks_of view s = clicks_of view st" by (simp add: fun_eq_iff clicks_of_def)
    moreover have "held (Writing p chs (failed @ cs)) = held (Writing p (ch # chs) failed)"
      by (auto simp: fun_eq_iff ch)
    moreover have "pc_wf s (Writing p chs (failed @ cs))" using inv keep(3) by (auto simp: click_inv_def ch)
    ultimately show ?thesis using inv keep row unfolding f by (simp add: click_inv_def del: held.simps pc_wf.simps)
  next
    case (Inr rep)
    then have f: "failed' = failed" "st' = s" using w run by (simp_all add: write_chunk_def ch)
    note row = row_of_written [OF pg run [unfolded Inr] S]
    have moved: "clicks_of view s c + held (Writing p chs failed) c = clicks_of view st c + held (Writing p (ch # chs) failed) c"
      if "row_of view st c \<noteq> None" for c
      using that dj by (auto simp: clicks_of_def row ch)
    have "row_of view s c \<noteq> None \<and> clicks_of view s c + mget 0 (pendingClicks s) c + held (Writing p chs failed) c
        = clicks_of view st0 c + mget 0 (pendingClicks st0) c + k c" if "row_of view st0 c \<noteq> None" for c
    proof -
      from inv that have "row_of view st c \<noteq> None" "clicks_of view st c + mget 0 (pendingClicks st) c
          + held (Writing p (ch # chs) failed) c = clicks_of view st0 c + mget 0 (pendingClicks st0) c + k c"
        by (auto simp: click_inv_def simp del: held.simps)
      with moved [of c] show ?thesis unfolding keep(2) by (simp add: row del: held.simps)
    qed
    moreover have "pc_wf s (Writing p chs failed)" using inv keep(3) by (auto simp: click_inv_def ch)
    ultimately show ?thesis using inv keep unfolding f by (simp add: click_inv_def del: held.simps pc_wf.simps)
  qed
qed

lemma inv_back:
  assumes "click_inv view st0 (st, Writing p [] failed, k)"
  shows "click_inv view st0 (put_back p failed st, Idle, k)"
proof -
  have d: "distinct failed" using assms by (simp add: click_inv_def)
  note b = put_back_simps [of p failed st]
  have "row_of view (put_back p failed st) = row_of view st" using b by (simp add: fun_eq_iff row_of_def)
  moreover from this have "clicks_of view (put_back p failed st) = clicks_of view st" by (simp add: fun_eq_iff clicks_of_def)
  ultimately show ?thesis using assms b by (auto simp: click_inv_def pending_put_back [OF d])
qed

lemma inv_step:
  assumes "click_step exec order s s'" "click_inv view st0 s" "pg_ok exec view" "permutes_map order"
  shows "click_inv view st0 s'"
  using assms(1)
  by (cases rule: click_step.cases)
    (use assms(2-4) in \<open>auto intro: inv_bump inv_swap inv_write inv_back\<close>)

lemma click_run_inv:
  assumes "click_run exec order st0 s" "pg_ok exec view" "permutes_map order" "wf_map (pendingClicks st0)"
  shows "click_inv view st0 s"
  using assms(1) by induction (auto intro: inv_start [OF assms(4)] inv_step [OF _ _ assms(2,3)])

text \<open>Undisturbed, the steps are \<^const>\<open>flushClicks\<close>.\<close>

lemma writes_run:
  "(click_step exec order)\<^sup>*\<^sup>* (st, Writing p chs failed, k)
     (snd (fold (write_chunk exec p) chs (failed, st)), Writing p [] (fst (fold (write_chunk exec p) chs (failed, st))), k)"
proof (induction chs arbitrary: st failed)
  case (Cons ch chs)
  obtain failed' st' where w: "write_chunk exec p ch (failed, st) = (failed', st')"
    by (cases "write_chunk exec p ch (failed, st)")
  show ?case using converse_rtranclp_into_rtranclp [OF click_write [OF w] Cons.IH [of st' failed']] by (simp add: w)
qed simp

lemma flushClicks_run: "(click_step exec order)\<^sup>*\<^sup>* (st, Idle, k) (flushClicks exec order st, Idle, k)"
proof (cases "pendingClicks st = []")
  case True
  then have "flushClicks exec order st = st" by (simp add: flushClicks_def)
  then show ?thesis by simp
next
  case False
  let ?s = "st\<lparr>pendingClicks := []\<rparr>" and ?p = "pendingClicks st"
  let ?f = "fold (write_chunk exec ?p) (flush_plan order ?s ?p) ([], ?s)"
  have "flushClicks exec order st = put_back ?p (fst ?f) (snd ?f)"
    using False by (simp add: flushClicks_def Let_def case_prod_beta')
  then show ?thesis
    using converse_rtranclp_into_rtranclp [OF click_swap [OF False refl] rtranclp.rtrancl_into_rtrancl [OF writes_run click_back]]
    by simp
qed

lemma click_run_star: "(click_step exec order)\<^sup>*\<^sup>* s s' \<Longrightarrow> click_run exec order st0 s \<Longrightarrow> click_run exec order st0 s'"
  by (induction rule: rtranclp_induct) (auto intro: click_next)

section \<open>Listing\<close>

lemma every_shard_ok:
  assumes "pg_ok exec view" "every_shard exec (\<lambda>t. Select_user_links t u n) shs out st = (Inr ls, st')"
  shows "view (db st') = view (db st) \<and>
    (\<exists>tops. length tops = length shs \<and> ls = out @ concat (map2 (\<lambda>sh full. map (scanLink sh) (take (nat n) full)) shs tops)
      \<and> (\<forall>i<length shs. mset (tops ! i) = mset (filter (\<lambda>l. l_UserID l = u) (view (db st) (shardTable (shs ! i))))
           \<and> newest_first (tops ! i)))"
  using assms(2)
proof (induction shs arbitrary: out st)
  case (Cons sh shs)
  let ?q = "Select_user_links (shardTable sh) u n"
  obtain r s where run: "run_sql exec ?q st = (r, s)" by (cases "run_sql exec ?q st")
  then obtain rows where r: "r = Inr (Rows rows)" and
    rest: "every_shard exec (\<lambda>t. Select_user_links t u n) shs (out @ map (scanLink sh) rows) s = (Inr ls, st')"
    using Cons.prems by (auto split: sum.splits sql_reply.splits)
  from run_sql_reply [OF assms(1) run [unfolded r]] obtain full where full:
    "mset full = mset (filter (\<lambda>l. l_UserID l = u) (view (db st) (shardTable sh)))" "newest_first full"
    "rows = take (nat n) full" and v: "view (db s) = view (db st)" by auto
  from Cons.IH [OF rest] v obtain tops where tops: "view (db st') = view (db st)" "length tops = length shs"
    "ls = out @ map (scanLink sh) rows @ concat (map2 (\<lambda>sh full. map (scanLink sh) (take (nat n) full)) shs tops)"
    "\<forall>i<length shs. mset (tops ! i) = mset (filter (\<lambda>l. l_UserID l = u) (view (db st) (shardTable (shs ! i)))) \<and> newest_first (tops ! i)"
    by auto
  show ?case
    by (rule conjI [OF tops(1)], rule exI [of _ "full # tops"])
      (use tops full in \<open>auto simp: nth_Cons' less_Suc_eq_0_disj\<close>)
qed auto

text \<open>Cutting every list to its first \<open>k\<close>, merging and cutting again gives the first \<open>k\<close> of all.\<close>

lemma take_filter_desc:
  fixes key :: "'a \<Rightarrow> int"
  assumes "sorted_wrt (\<lambda>a b. key a \<ge> key b) s" "k \<le> length (filter (\<lambda>x. v \<le> key x) s)" "x \<in> set (take k s)"
  shows "v \<le> key x"
  using assms
proof (induction s arbitrary: k)
  case (Cons a s)
  show ?case
  proof (cases "v \<le> key a")
    case True
    then show ?thesis using Cons by (cases k) auto
  next
    case False
    then have "filter (\<lambda>x. v \<le> key x) (a # s) = []" using Cons.prems(1) by (auto simp: filter_empty_conv)
    then show ?thesis using Cons.prems(2,3) by simp
  qed
qed simp

lemma top_of_part:
  assumes "mset s = mset (concat (map (take k) fulls))" "f \<in> set fulls"
  shows "mset (take k f) \<subseteq># mset s"
proof -
  obtain a b where "fulls = a @ f # b" using assms(2) by (meson split_list)
  then show ?thesis by (simp add: assms(1))
qed

lemma cut_below:
  fixes key :: "'a \<Rightarrow> int"
  assumes fulls: "\<forall>f\<in>set fulls. sorted_wrt (\<lambda>a b. key a \<ge> key b) f"
    and s: "mset s = mset (concat (map (take k) fulls))" "sorted_wrt (\<lambda>a b. key a \<ge> key b) s"
    and x: "x \<in> set (take k s)" and y: "y \<in> set (drop k s @ concat (map (drop k) fulls))"
  shows "key y \<le> key x"
proof (cases "y \<in> set (drop k s)")
  case True
  have "sorted_wrt (\<lambda>a b. key a \<ge> key b) (take k s @ drop k s)" using s(2) by simp
  with True x show ?thesis by (auto simp: sorted_wrt_append simp del: append_take_drop_id)
next
  case False
  then obtain f where f: "f \<in> set fulls" "y \<in> set (drop k f)" using y by auto
  have "sorted_wrt (\<lambda>a b. key a \<ge> key b) (take k f @ drop k f)" using fulls f(1) by simp
  then have "\<forall>z\<in>set (take k f). key y \<le> key z" using f(2) by (auto simp: sorted_wrt_append simp del: append_take_drop_id)
  then have "filter (\<lambda>z. key y \<le> key z) (take k f) = take k f" by simp
  moreover have "length (take k f) = k" using f(2) by (cases "length f \<le> k") auto
  moreover have "filter_mset (\<lambda>z. key y \<le> key z) (mset (take k f)) \<subseteq># filter_mset (\<lambda>z. key y \<le> key z) (mset s)"
    by (rule multiset_filter_mono [OF top_of_part [OF s(1) f(1)]])
  then have "length (filter (\<lambda>z. key y \<le> key z) (take k f)) \<le> length (filter (\<lambda>z. key y \<le> key z) s)"
    by (metis mset_filter size_mset size_mset_mono)
  ultimately show ?thesis using take_filter_desc [OF s(2) _ x] by simp
qed

lemma cut_empty:
  assumes "mset s = mset (concat (map (take k) fulls))" "length s < k"
  shows "drop k s @ concat (map (drop k) fulls) = []"
proof -
  have "drop k f = []" if "f \<in> set fulls" for f
    using size_mset_mono [OF top_of_part [OF assms(1) that]] assms(2) by (cases "length f \<le> k") auto
  then show ?thesis using assms(2) by (auto simp: concat_eq_Nil_conv)
qed

lemma top_k_merge:
  fixes key :: "'a \<Rightarrow> int"
  assumes fulls: "\<forall>f\<in>set fulls. sorted_wrt (\<lambda>a b. key a \<ge> key b) f"
    and s: "mset s = mset (concat (map (take k) fulls))" "sorted_wrt (\<lambda>a b. key a \<ge> key b) s"
  shows "\<exists>all. mset all = mset (concat fulls) \<and> sorted_wrt (\<lambda>a b. key a \<ge> key b) all \<and> take k s = take k all"
proof -
  let ?cut = "drop k s @ concat (map (drop k) fulls)"
  define rest where "rest = sort_key (\<lambda>x. - key x) ?cut"
  have parts: "mset (concat fs) = mset (concat (map (take k) fs)) + mset (concat (map (drop k) fs))" for fs :: "'a list list"
  proof (induction fs)
    case (Cons f fs)
    have "mset f = mset (take k f) + mset (drop k f)" by (metis append_take_drop_id mset_append)
    then show ?case using Cons by simp
  qed simp
  have "mset s = mset (take k s) + mset (drop k s)" by (metis append_take_drop_id mset_append)
  then have "mset (take k s @ rest) = mset (concat fulls)"
    unfolding parts [of fulls] s(1) [symmetric] by (simp add: rest_def)
  moreover have "sorted (map (\<lambda>x. - key x) rest)" by (simp add: rest_def)
  then have "sorted_wrt (\<lambda>a b. key a \<ge> key b) rest" by (simp add: sorted_wrt_map)
  then have "sorted_wrt (\<lambda>a b. key a \<ge> key b) (take k s @ rest)"
    using s(2) cut_below [OF fulls s] by (auto simp: sorted_wrt_append sorted_wrt_take rest_def)
  moreover have "take k s = take k (take k s @ rest)"
    using cut_empty [OF s(1)] by (cases "length s < k") (simp_all only: rest_def, simp_all)
  ultimately show ?thesis by blast
qed

text \<open>All links of a user, over all shards.\<close>

definition user_links :: "('db \<Rightarrow> tables) \<Rightarrow> 'db store \<Rightarrow> int \<Rightarrow> link list" where
  "user_links view st u =
     concat (map (\<lambda>sh. map (scanLink sh) (filter (\<lambda>l. l_UserID l = u) (view (db st) (shardTable sh)))) [0..ShardCount (st_ring st) - 1])"

definition sorts_newest :: "(link list \<Rightarrow> link list) \<Rightarrow> bool" where
  "sorts_newest f \<longleftrightarrow> (\<forall>ls. mset (f ls) = mset ls \<and> newest_first (f ls))"

lemma mset_concat_eq:
  assumes "length xss = length yss" "\<forall>i<length xss. mset (xss ! i) = mset (yss ! i)"
  shows "mset (concat xss) = mset (concat yss)"
  using assms
proof (induction xss yss rule: list_induct2)
  case (Cons xs xss ys yss)
  have "mset xs = mset ys" using Cons.prems by (auto dest: spec [of _ 0])
  moreover have "\<forall>i<length xss. mset (xss ! i) = mset (yss ! i)" using Cons.prems by (auto dest: spec [of _ "Suc i" for i])
  ultimately show ?case using Cons.IH by simp
qed simp

lemma ListByUser_top:
  assumes pg: "pg_ok exec view" and sorter: "sorts_newest srt"
    and list: "ListByUser exec srt u limit st = (Inr ls, st')"
  shows "view (db st') = view (db st)
    \<and> (\<exists>all. mset all = mset (user_links view st u) \<and> newest_first all \<and> ls = take (nat limit) all)"
proof -
  let ?shs = "[0..ShardCount (st_ring st) - 1]"
  from list obtain out where q: "every_shard exec (\<lambda>t. Select_user_links t u limit) ?shs [] st = (Inr out, st')"
    and ls: "ls = (if int (length (srt out)) > limit then take (nat limit) (srt out) else srt out)"
    by (auto simp: ListByUser_def queryEveryShard_def Let_def split: prod.splits sum.splits)
  from every_shard_ok [OF pg q] obtain tops where v: "view (db st') = view (db st)" and tops: "length tops = length ?shs"
    "out = concat (map2 (\<lambda>sh full. map (scanLink sh) (take (nat limit) full)) ?shs tops)"
    "\<forall>i<length ?shs. mset (tops ! i) = mset (filter (\<lambda>l. l_UserID l = u) (view (db st) (shardTable (?shs ! i)))) \<and> newest_first (tops ! i)"
    by auto
  let ?fulls = "map2 (\<lambda>sh full. map (scanLink sh) full) ?shs tops"
  have sorted: "\<forall>f\<in>set ?fulls. sorted_wrt (\<lambda>a b. l_CreatedAt a \<ge> l_CreatedAt b) f"
    using tops(1,3) by (auto simp: set_zip sorted_wrt_map scanLink_def newest_first_def)
  have out: "out = concat (map (take (nat limit)) ?fulls)"
    unfolding tops(2) by (simp add: comp_def case_prod_beta' take_map)
  have s: "mset (srt out) = mset (concat (map (take (nat limit)) ?fulls))"
    "sorted_wrt (\<lambda>a b. l_CreatedAt a \<ge> l_CreatedAt b) (srt out)"
    unfolding out [symmetric] using sorter by (simp_all add: sorts_newest_def newest_first_def)
  from top_k_merge [OF sorted s] obtain all where all: "mset all = mset (concat ?fulls)" "newest_first all"
    "take (nat limit) (srt out) = take (nat limit) all" by (auto simp: newest_first_def)
  have "mset (concat ?fulls) = mset (user_links view st u)"
    unfolding user_links_def using tops(1,3) by (intro mset_concat_eq) (auto simp del: upto_rec_numeral)
  moreover have "ls = take (nat limit) (srt out)" using ls by (auto simp: nat_le_iff)
  ultimately show ?thesis using v all by auto
qed

section \<open>Operations on one link\<close>

definition unique_codes :: "('db \<Rightarrow> tables) \<Rightarrow> 'db store \<Rightarrow> bool" where
  "unique_codes view st \<longleftrightarrow> (\<forall>t. distinct (map l_Code (view (db st) t)))"

lemma find_filter: "find P ls = (case filter P ls of [] \<Rightarrow> None | l # _ \<Rightarrow> Some l)"
  by (induction ls) auto

lemma filter_code_row:
  "row_of view st code = (case filter (\<lambda>l. l_Code l = code) (view (db st) (shardTable (ShardFor st code))) of [] \<Rightarrow> None | l # _ \<Rightarrow> Some l)"
  unfolding row_of_def by (rule find_filter)

lemma GetByCode_row:
  assumes "pg_ok exec view" "GetByCode exec code st = (r, st')"
  shows "view (db st') = view (db st)" "ShardFor st' = ShardFor st" "pendingClicks st' = pendingClicks st"
    and "r = Inr l \<Longrightarrow> \<exists>row. row_of view st code = Some row \<and> l = scanLink (ShardFor st code) row"
    and "r = Inl Err_no_rows \<Longrightarrow> row_of view st code = None"
    and "r \<noteq> Inl Err_unknown_code"
proof -
  let ?q = "Select_link (shardTable (ShardFor st code)) code"
  obtain a where run: "run_sql exec ?q st = (a, st')" and r: "r = link_row (ShardFor st code) a"
    using assms(2) by (auto simp: GetByCode_def Let_def split: prod.splits)
  note step = run_sql_step [OF assms(1) run]
  show "ShardFor st' = ShardFor st" "pendingClicks st' = pendingClicks st" using run_sql_keeps [OF run] by auto
  show "view (db st') = view (db st)" using step by (auto simp: sql_step_def split: sum.splits)
  show "r = Inr l \<Longrightarrow> \<exists>row. row_of view st code = Some row \<and> l = scanLink (ShardFor st code) row"
    "r = Inl Err_no_rows \<Longrightarrow> row_of view st code = None" "r \<noteq> Inl Err_unknown_code"
    using step by (auto simp: r sql_step_def link_row_def scan_first_def filter_code_row unexpected_def split: sum.splits list.splits)
qed

lemma CodeExists_row:
  assumes "pg_ok exec view" "CodeExists exec code st = (r, st')"
  shows "view (db st') = view (db st)" "ShardFor st' = ShardFor st" "pendingClicks st' = pendingClicks st"
    and "r = Inr b \<Longrightarrow> b = (row_of view st code \<noteq> None)"
proof -
  let ?q = "Select_one (shardTable (ShardFor st code)) code"
  obtain a where run: "run_sql exec ?q st = (a, st')"
    and r: "r = (case a of Inl e \<Rightarrow> Inl e | Inr (Ones n) \<Rightarrow> Inr (n > 0) | Inr _ \<Rightarrow> Inl unexpected)"
    using assms(2) by (auto simp: CodeExists_def Let_def split: prod.splits)
  note step = run_sql_step [OF assms(1) run]
  show "ShardFor st' = ShardFor st" "pendingClicks st' = pendingClicks st" using run_sql_keeps [OF run] by auto
  show "view (db st') = view (db st)" using step by (auto simp: sql_step_def split: sum.splits)
  show "r = Inr b \<Longrightarrow> b = (row_of view st code \<noteq> None)"
    using step by (auto simp: r sql_step_def filter_code_row split: sum.splits list.splits)
qed

lemma find_append_code:
  "find (\<lambda>l. l_Code l = c) (ls @ [x]) =
     (case find (\<lambda>l. l_Code l = c) ls of Some l \<Rightarrow> Some l | None \<Rightarrow> if l_Code x = c then Some x else None)"
  by (induction ls) auto

lemma columns_code [simp]: "l_Code (columns l) = l_Code l"
  by (simp add: columns_def)

lemma InsertLink_row:
  assumes "pg_ok exec view" "InsertLink exec l0 st = ((e, l), st')" "unique_codes view st"
  shows "l = l0\<lparr>l_Shard := ShardFor st (l_Code l0)\<rparr>" "ShardFor st' = ShardFor st" "pendingClicks st' = pendingClicks st"
    and "unique_codes view st'"
    and "e = None \<Longrightarrow> row_of view st (l_Code l0) = None
      \<and> row_of view st' = (row_of view st)(l_Code l0 \<mapsto> columns l)"
    and "e \<noteq> None \<Longrightarrow> view (db st') = view (db st)"
proof -
  define t where "t = shardTable (ShardFor st (l_Code l0))"
  show l: "l = l0\<lparr>l_Shard := ShardFor st (l_Code l0)\<rparr>" using assms(2) by (auto simp: InsertLink_def Let_def split: prod.splits)
  have code: "l_Code l = l_Code l0" by (simp add: l)
  obtain a where run: "run_sql exec (Insert_link t l) st = (a, st')" and e: "e = (case a of Inl e \<Rightarrow> Some e | Inr _ \<Rightarrow> None)"
    using assms(2) l by (auto simp: InsertLink_def exec_only_def Let_def t_def split: prod.splits)
  note step = run_sql_step [OF assms(1) run]
  show S: "ShardFor st' = ShardFor st" and "pendingClicks st' = pendingClicks st" using run_sql_keeps [OF run] by auto
  show err: "view (db st') = view (db st)" if "e \<noteq> None"
    using that step by (auto simp: e sql_step_def split: sum.splits)
  have ok: "view (db st') = (view (db st))(t := view (db st) t @ [columns l])" "\<forall>x\<in>set (view (db st) t). l_Code x \<noteq> l_Code l0"
    if "e = None"
    using that step by (auto simp: e sql_step_def code split: sum.splits)
  show "unique_codes view st'"
    using assms(3) ok err by (cases e) (auto simp: unique_codes_def code)
  show "row_of view st (l_Code l0) = None \<and> row_of view st' = (row_of view st)(l_Code l0 \<mapsto> columns l)" if "e = None"
  proof
    show none: "row_of view st (l_Code l0) = None" using ok(2) [OF that] by (auto simp: row_of_def t_def find_None_iff)
    show "row_of view st' = (row_of view st)(l_Code l0 \<mapsto> columns l)"
    proof
      fix c
      show "row_of view st' c = ((row_of view st)(l_Code l0 \<mapsto> columns l)) c"
        using none ok(1) [OF that] by (auto simp: row_of_def S t_def find_append_code code split: option.splits)
    qed
  qed
qed

lemma find_unique:
  assumes "distinct (map l_Code ls)" "find (\<lambda>l. l_Code l = c) ls = Some x"
  shows "filter (\<lambda>l. l_Code l = c \<and> P l) ls = (if P x then [x] else [])"
    and "find (\<lambda>l. l_Code l = c) (filter (\<lambda>l. \<not> (l_Code l = c \<and> P l)) ls) = (if P x then None else Some x)"
  using assms by (induction ls) (auto simp: filter_empty_conv find_None_iff image_iff split: if_splits)

lemma find_other:
  "c \<noteq> code \<Longrightarrow> find (\<lambda>l. l_Code l = c) (filter (\<lambda>l. \<not> (l_Code l = code \<and> P l)) ls) = find (\<lambda>l. l_Code l = c) ls"
  by (induction ls) auto

lemma filter_absent: "find (\<lambda>l. l_Code l = c) ls = None \<Longrightarrow> filter (\<lambda>l. l_Code l = c \<and> P l) ls = []"
  by (auto simp: find_None_iff filter_empty_conv)

lemma distinct_filter_codes: "distinct (map l_Code ls) \<Longrightarrow> distinct (map l_Code (filter P ls))"
  by (rule distinct_map_filter)

definition owned :: "int \<Rightarrow> link option \<Rightarrow> bool" where
  "owned u r \<longleftrightarrow> (case r of None \<Rightarrow> False | Some l \<Rightarrow> l_UserID l = u)"

lemma DeleteLink_row:
  assumes "pg_ok exec view" "DeleteLink exec code u st = (r, st')" "unique_codes view st"
  shows "ShardFor st' = ShardFor st" "pendingClicks st' = pendingClicks st" "unique_codes view st'"
    and "r = Inr b \<Longrightarrow> b = owned u (row_of view st code)
      \<and> row_of view st' = (if b then (row_of view st)(code := None) else row_of view st)"
    and "r = Inl e \<Longrightarrow> view (db st') = view (db st)"
proof -
  define t where "t = shardTable (ShardFor st code)"
  let ?T = "view (db st)" and ?P = "\<lambda>l. l_UserID l = u"
  obtain a where run: "run_sql exec (Delete_link t code u) st = (a, st')"
    and r: "r = (case a of Inl e \<Rightarrow> Inl e | Inr (Affected n) \<Rightarrow> Inr (n > 0) | Inr _ \<Rightarrow> Inl unexpected)"
    using assms(2) by (auto simp: DeleteLink_def Let_def t_def split: prod.splits)
  note step = run_sql_step [OF assms(1) run]
  show S: "ShardFor st' = ShardFor st" and "pendingClicks st' = pendingClicks st" using run_sql_keeps [OF run] by auto
  have d: "distinct (map l_Code (?T t))" using assms(3) by (simp add: unique_codes_def)
  show "unique_codes view st'"
    using step assms(3) by (auto simp: sql_step_def unique_codes_def distinct_filter_codes split: sum.splits)
  show "view (db st') = ?T" if "r = Inl e"
    using that step by (auto simp: r sql_step_def split: sum.splits)
  assume "r = Inr b"
  then have T': "view (db st') = ?T(t := filter (\<lambda>l. \<not> (l_Code l = code \<and> ?P l)) (?T t))"
    and b: "b = (filter (\<lambda>l. l_Code l = code \<and> ?P l) (?T t) \<noteq> [])"
    using step by (auto simp: r sql_step_def split: sum.splits)
  have row: "row_of view st code = find (\<lambda>l. l_Code l = code) (?T t)" by (simp add: row_of_def t_def)
  have other: "row_of view st' c = row_of view st c" if "c \<noteq> code" for c
    using find_other [OF that, of ?P "?T t"] by (cases "shardTable (ShardFor st c) = t") (simp_all only: row_of_def S T' fun_upd_apply if_True if_False refl)
  have own: "b = owned u (row_of view st code) \<and> row_of view st' code = (if b then None else row_of view st code)"
  proof (cases "row_of view st code")
    case None
    then have f: "filter (\<lambda>l. l_Code l = code \<and> ?P l) (?T t) = []" unfolding row by (rule filter_absent)
    then have "filter (\<lambda>l. \<not> (l_Code l = code \<and> ?P l)) (?T t) = ?T t" by (simp add: filter_empty_conv filter_id_conv)
    then show ?thesis using None f b by (simp add: owned_def row_of_def S T' t_def)
  next
    case (Some l)
    note u = find_unique [OF d Some [unfolded row], of ?P]
    have "row_of view st' code = find (\<lambda>l. l_Code l = code) (filter (\<lambda>l. \<not> (l_Code l = code \<and> ?P l)) (?T t))"
      by (simp add: row_of_def S T' t_def)
    then show ?thesis using Some u b by (simp add: owned_def)
  qed
  show "b = owned u (row_of view st code) \<and> row_of view st' = (if b then (row_of view st)(code := None) else row_of view st)"
    using own other by (cases b) (auto simp: fun_eq_iff, metis)
qed

lemma map_codes_update: "map l_Code (map (\<lambda>l. if P l then f l else l) ls) = map l_Code ls"
  if "\<And>l. l_Code (f l) = l_Code l"
  using that by (induction ls) auto

lemma filter_map_hits:
  assumes "\<And>l. P l \<Longrightarrow> P (f l)"
  shows "filter P (map (\<lambda>l. if P l then f l else l) ls) = map f (filter P ls)"
  using assms by (induction ls) auto

lemma owned_filter:
  assumes "distinct (map l_Code ls)"
  shows "filter (\<lambda>l. l_Code l = code \<and> l_UserID l = u) ls =
    (case find (\<lambda>l. l_Code l = code) ls of Some l \<Rightarrow> if l_UserID l = u then [l] else [] | None \<Rightarrow> [])"
  using find_unique(1) [OF assms, of code _ "\<lambda>l. l_UserID l = u"] filter_absent [of code ls "\<lambda>l. l_UserID l = u"]
  by (auto split: option.splits)

lemma ToggleActive_row:
  assumes "pg_ok exec view" "ToggleActive exec code u st = (r, st')" "unique_codes view st"
  shows "ShardFor st' = ShardFor st" "pendingClicks st' = pendingClicks st" "unique_codes view st'"
    and "r = Inr l \<Longrightarrow> \<exists>row. row_of view st code = Some row \<and> l_UserID row = u
      \<and> l = scanLink (ShardFor st code) (row\<lparr>l_Active := \<not> l_Active row\<rparr>)
      \<and> row_of view st' = (row_of view st)(code \<mapsto> row\<lparr>l_Active := \<not> l_Active row\<rparr>)"
    and "r = Inl e \<Longrightarrow> row_of view st' = row_of view st \<and> (e = Err_no_rows \<longrightarrow> \<not> owned u (row_of view st code))"
proof -
  define t where "t = shardTable (ShardFor st code)"
  let ?T = "view (db st)" and ?P = "\<lambda>l. l_Code l = code \<and> l_UserID l = u" and ?f = "\<lambda>l. l\<lparr>l_Active := \<not> l_Active l\<rparr>"
  let ?g = "\<lambda>l. if ?P l then ?f l else l"
  obtain a where run: "run_sql exec (Toggle_active t code u) st = (a, st')" and r: "r = link_row (ShardFor st code) a"
    using assms(2) by (auto simp: ToggleActive_def Let_def t_def split: prod.splits)
  note step = run_sql_step [OF assms(1) run]
  show S: "ShardFor st' = ShardFor st" and "pendingClicks st' = pendingClicks st" using run_sql_keeps [OF run] by auto
  have d: "distinct (map l_Code (?T t))" using assms(3) by (simp add: unique_codes_def)
  have row: "row_of view st code = find (\<lambda>l. l_Code l = code) (?T t)" by (simp add: row_of_def t_def)
  show "unique_codes view st'"
    using step assms(3) map_codes_update [of ?f ?P "?T t"]
    by (auto simp: sql_step_def unique_codes_def update_rows_def simp del: map_map split: sum.splits)
  have after: "row_of view st' c = map_option ?g (row_of view st c)"
      "rep = Rows (filter ?P (map ?g (?T t)))" if "a = Inr rep" for rep c
  proof -
    have T': "view (db st') = ?T(t := map ?g (?T t))" "rep = Rows (filter ?P (view (db st') t))"
      using step that by (auto simp: sql_step_def update_rows_def)
    then show "rep = Rows (filter ?P (map ?g (?T t)))" by simp
    have "map_option ?g (row_of view st c) = row_of view st c" if "shardTable (ShardFor st c) \<noteq> t"
      using that row_of_code [of view st c] by (cases "row_of view st c") (auto simp: t_def)
    then show "row_of view st' c = map_option ?g (row_of view st c)"
      by (cases "shardTable (ShardFor st c) = t") (auto simp: row_of_def S T' find_map_code)
  qed
  have hits: "filter ?P (map ?g (?T t)) = map ?f (case row_of view st code of Some l \<Rightarrow> if l_UserID l = u then [l] else [] | None \<Rightarrow> [])"
    unfolding row owned_filter [OF d, symmetric] by (rule filter_map_hits) simp
  show "\<exists>row. row_of view st code = Some row \<and> l_UserID row = u
      \<and> l = scanLink (ShardFor st code) (row\<lparr>l_Active := \<not> l_Active row\<rparr>)
      \<and> row_of view st' = (row_of view st)(code \<mapsto> row\<lparr>l_Active := \<not> l_Active row\<rparr>)" if inr: "r = Inr l"
  proof -
    obtain rep where rep: "a = Inr rep" using inr by (auto simp: r link_row_def split: sum.splits)
    have rows: "rep = Rows (filter ?P (map ?g (?T t)))" by (rule after(2) [OF rep])
    obtain x where x: "row_of view st code = Some x" "l_UserID x = u" "l = scanLink (ShardFor st code) (?f x)"
      using inr unfolding r rep rows hits by (auto simp: link_row_def scan_first_def split: option.splits if_splits)
    have "row_of view st' c = ((row_of view st)(code \<mapsto> ?f x)) c" for c
    proof (cases "c = code")
      case True
      then show ?thesis using after(1) [OF rep, of c] x(1,2) row_of_code [OF x(1)] by simp
    next
      case False
      have "map_option ?g (row_of view st c) = row_of view st c"
        using False by (cases "row_of view st c") (simp_all add: row_of_code)
      then show ?thesis using after(1) [OF rep, of c] False by simp
    qed
    with x show ?thesis by (auto simp: fun_eq_iff)
  qed
  show "row_of view st' = row_of view st \<and> (e = Err_no_rows \<longrightarrow> \<not> owned u (row_of view st code))" if "r = Inl e"
  proof (cases a)
    case (Inl e')
    then have "view (db st') = ?T" "e = e'" "e' \<noteq> Err_no_rows"
      using that step by (auto simp: r link_row_def sql_step_def)
    then show ?thesis by (auto simp: fun_eq_iff row_of_def S)
  next
    case (Inr rep)
    have rows: "rep = Rows (filter ?P (map ?g (?T t)))" by (rule after(2) [OF Inr])
    have no: "\<not> owned u (row_of view st code)"
      using that unfolding r Inr rows hits by (auto simp: link_row_def scan_first_def owned_def split: option.splits if_splits)
    have "row_of view st' c = row_of view st c" for c
    proof -
      have "map_option ?g (row_of view st c) = row_of view st c"
        using no by (cases "row_of view st c") (auto simp: owned_def row_of_code)
      then show ?thesis using after(1) [OF Inr, of c] by simp
    qed
    with no show ?thesis by auto
  qed
qed

section \<open>Properties\<close>

text \<open>C5: no click is lost or counted twice.  While redirects record clicks and the flusher swaps, writes
  chunk by chunk and puts failed chunks back, in any interleaving and with any statements
  failing, the stored count of a link plus the buffered clicks plus what the flusher holds is
  the initial total plus the clicks recorded since; whenever the flusher is idle, an
  undisturbed flush keeps that total.\<close>

theorem clicks_conserved:
  assumes "pg_ok exec view" "permutes_map order" "wf_map (pendingClicks st0)"
    and "click_run exec order st0 (st, pc, k)" "row_of view st0 c \<noteq> None"
  shows "clicks_of view st c + mget 0 (pendingClicks st) c + held pc c
      = clicks_of view st0 c + mget 0 (pendingClicks st0) c + k c
    \<and> (pc = Idle \<longrightarrow> clicks_of view (flushClicks exec order st) c + mget 0 (pendingClicks (flushClicks exec order st)) c
      = clicks_of view st c + mget 0 (pendingClicks st) c)"
proof -
  have total: "clicks_of view s c + mget 0 (pendingClicks s) c + held p c
      = clicks_of view st0 c + mget 0 (pendingClicks st0) c + j c" if "click_run exec order st0 (s, p, j)" for s p j
    using click_run_inv [OF that assms(1-3)] assms(5) by (simp add: click_inv_def)
  have "clicks_of view (flushClicks exec order st) c + mget 0 (pendingClicks (flushClicks exec order st)) c
      = clicks_of view st0 c + mget 0 (pendingClicks st0) c + k c" if "pc = Idle"
    using total [OF click_run_star [OF flushClicks_run]] assms(4) that by fastforce
  then show ?thesis using total [OF assms(4)] by auto
qed

definition demo_link :: link where
  "demo_link = \<lparr>l_ID = 1, l_Code = ''a'', l_LongURL = ''https://x.y'', l_Title = ''x.y'', l_UserID = 7, l_Custom = True,
     l_Redirect = 302, l_ExpiresAt = None, l_CreatedAt = 1000, l_Clicks = 2, l_Active = True, l_Shard = 0\<rparr>"

definition demo_store :: "mem_db store" where
  "demo_store = \<lparr>db = ([(''links_s0'', [demo_link])], [True]), st_ring = NewRing 1 0,
     pendingClicks = [(''a'', 5)], shardStats = None\<rparr>"

theorem clicks_conserved_witness:
  "clicks_of mem_tables (flushClicks mem_exec id demo_store) ''a''
     + mget 0 (pendingClicks (flushClicks mem_exec id demo_store)) ''a'' = 7"
proof -
  have "permutes_map id" by (simp add: permutes_map_def)
  moreover have "wf_map (pendingClicks demo_store)" "row_of mem_tables demo_store ''a'' \<noteq> None"
    "clicks_of mem_tables demo_store ''a'' + mget 0 (pendingClicks demo_store) ''a'' = 7" by code_simp+
  ultimately show ?thesis
    using clicks_conserved [OF mem_pg_ok _ _ click_start, of id demo_store "''a''"] by simp
qed

text \<open>C29: a listing is globally the newest.  When the scatter-gather over all shards succeeds it returns
  the first \<open>limit\<close> entries of all links of the user, over all shards, in descending order of
  creation (for some order of links created at the same instant), each with the number of
  the shard it is stored in; and it changes nothing.\<close>

theorem ListByUser_newest:
  assumes "pg_ok exec view" "sorts_newest srt" "ListByUser exec srt u limit st = (Inr ls, st')"
  shows "view (db st') = view (db st)
    \<and> (\<exists>all. mset all = mset (user_links view st u) \<and> newest_first all \<and> ls = take (nat limit) all)"
  by (rule ListByUser_top [OF assms])

definition demo_shards :: "mem_db store" where
  "demo_shards = \<lparr>db = ([(''links_s0'', [demo_link]), (''links_s1'', [demo_link\<lparr>l_Code := ''b'', l_CreatedAt := 3000\<rparr>,
      demo_link\<lparr>l_Code := ''c'', l_CreatedAt := 2000\<rparr>])], []), st_ring = NewRing 2 0, pendingClicks = [], shardStats = None\<rparr>"

theorem ListByUser_newest_witness:
  "\<exists>all. mset all = mset (user_links mem_tables demo_shards 7) \<and> newest_first all
     \<and> map l_Code (take 2 all) = [''b'', ''c'']"
proof -
  have s: "sorts_newest (insert_desc l_CreatedAt)"
    by (simp add: sorts_newest_def newest_first_def mset_insert_desc sorted_insert_desc)
  obtain r where r: "ListByUser mem_exec (insert_desc l_CreatedAt) 7 2 demo_shards = r" by blast
  have "(case fst r of Inl e \<Rightarrow> False | Inr ls \<Rightarrow> map l_Code ls = [''b'', ''c''])" unfolding r [symmetric] by code_simp
  then obtain ls st' where l: "r = (Inr ls, st')" "map l_Code ls = [''b'', ''c'']" by (cases r) (auto split: sum.splits)
  from ListByUser_newest [OF mem_pg_ok s r [unfolded l(1)]] obtain all where
    "mset all = mset (user_links mem_tables demo_shards 7)" "newest_first all" "ls = take (nat 2) all" by blast
  with l(2) show ?thesis by (intro exI [of _ all]) simp
qed

end
