(* ===== verification/Bloom.thy ===== *)
theory Bloom
  imports Kortex_Prelude
begin

text \<open>
  \<^verbatim>\<open>backend/bloom.go\<close>: the Bloom filter in front of the shards.  The two floating-point
  size formulas of \<^verbatim>\<open>NewBloom\<close> are arguments (\<open>mEst\<close>, \<open>kEst\<close>); the clamps applied to
  them, the bit array and all operations on it are modelled at their width.  An index
  out of range and a remainder by zero panic: the result is \<^const>\<open>None\<close>.
\<close>

unbundle bit_operations_syntax

section \<open>The filter\<close>

record bloom =
  b_bits :: "u64 list"
  b_m :: u64
  b_k :: u64
  b_n :: u64
  Queries :: u64
  Skipped :: u64
  Probes :: u64
  FalsePos :: u64

definition clampU64 :: "u64 \<Rightarrow> u64 \<Rightarrow> u64 \<Rightarrow> u64" where
  "clampU64 v lo hi = min (max v lo) hi"

definition NewBloom :: "u64 \<Rightarrow> (u64 \<Rightarrow> u64) \<Rightarrow> bloom" where
  "NewBloom mEst kEst =
     (let m = max mEst 64;
          k = clampU64 (kEst m) 1 16
      in \<lparr>b_bits = replicate (unat ((m + 63) div 64)) 0, b_m = m, b_k = k, b_n = 0,
          Queries = 0, Skipped = 0, Probes = 0, FalsePos = 0\<rparr>)"

text \<open>\<^verbatim>\<open>fnv.New64a\<close>; writing more bytes continues from the current sum.\<close>

definition fnv64a_write :: "u8 list \<Rightarrow> u64 \<Rightarrow> u64" where
  "fnv64a_write bs h = fold (\<lambda>c h. (h XOR ucast c) * 1099511628211) bs h"

definition positions :: "bloom \<Rightarrow> string \<Rightarrow> u64 list option" where
  "positions b s =
     (let h1 = fnv64a_write (map of_char s) 14695981039346656037;
          h2 = fnv64a_write [0x9e] h1 OR 1
      in if b_m b = 0 \<and> b_k b \<noteq> 0 then None
         else Some (map (\<lambda>i. (h1 + of_nat i * h2) mod b_m b) [0..<unat (b_k b)]))"

definition isSet :: "bloom \<Rightarrow> u64 \<Rightarrow> bool option" where
  "isSet b p =
     (let i = unat (p div 64)
      in if i < length (b_bits b) then Some (b_bits b ! i AND push_bit (unat (p mod 64)) 1 \<noteq> 0)
         else None)"

fun set_bits :: "bloom \<Rightarrow> u64 list \<Rightarrow> bloom option" where
  "set_bits b [] = Some b"
| "set_bits b (p # ps) =
     (let i = unat (p div 64)
      in if i < length (b_bits b)
         then set_bits (b\<lparr>b_bits := (b_bits b)[i := b_bits b ! i OR push_bit (unat (p mod 64)) 1]\<rparr>) ps
         else None)"

definition Add :: "bloom \<Rightarrow> string \<Rightarrow> bloom option" where
  "Add b s =
     (case positions b s of
        None \<Rightarrow> None
      | Some pos \<Rightarrow>
          (case set_bits b pos of
             None \<Rightarrow> None
           | Some b' \<Rightarrow> Some (b'\<lparr>b_n := b_n b' + 1\<rparr>)))"

fun check_bits :: "bloom \<Rightarrow> u64 list \<Rightarrow> bool option" where
  "check_bits b [] = Some True"
| "check_bits b (p # ps) =
     (case isSet b p of None \<Rightarrow> None | Some False \<Rightarrow> Some False | Some True \<Rightarrow> check_bits b ps)"

definition MayContain :: "bloom \<Rightarrow> string \<Rightarrow> bool option" where
  "MayContain b s = (case positions b s of None \<Rightarrow> None | Some pos \<Rightarrow> check_bits b pos)"

definition SetBits :: "bloom \<Rightarrow> string \<Rightarrow> u64 list option" where
  "SetBits b s = positions b s"

section \<open>Statistics and preview\<close>

record bloom_stats =
  M :: u64
  K :: u64
  N :: u64
  set_count :: nat
  queries :: u64
  db_skipped :: u64
  db_probes :: u64
  false_positives :: u64

definition ones_count :: "u64 \<Rightarrow> nat" where
  "ones_count w = length (filter (bit w) [0..<64])"

definition Stats :: "bloom \<Rightarrow> bloom_stats" where
  "Stats b =
     \<lparr>M = b_m b, K = b_k b, N = b_n b, set_count = sum_list (map ones_count (b_bits b)),
      queries = Queries b, db_skipped = Skipped b, db_probes = Probes b, false_positives = FalsePos b\<rparr>"

text \<open>The inner loop of \<^verbatim>\<open>Preview\<close>: the set bits at positions \<open>p\<close> to \<open>e - 1\<close>.\<close>

lemma unat_next:
  fixes p :: u64
  assumes "p < e"
  shows "unat (p + 1) = unat p + 1"
  using unat_mono [OF assms] unat64_less [of e] by (simp add: unat_word_ariths)

function count_range :: "bloom \<Rightarrow> u64 \<Rightarrow> u64 \<Rightarrow> nat \<Rightarrow> nat option" where
  "count_range b p e acc =
     (if p < e
      then (case isSet b p of
              None \<Rightarrow> None
            | Some s \<Rightarrow> count_range b (p + 1) e (if s then acc + 1 else acc))
      else Some acc)"
  by pat_completeness auto
termination
  by (relation "measure (\<lambda>(b, p, e, acc). unat e - unat p)") (auto simp: unat_next intro!: diff_less_mono2 dest: unat_mono)

declare count_range.simps [simp del]

definition preview_cell :: "bloom \<Rightarrow> u64 \<Rightarrow> nat \<Rightarrow> nat option" where
  "preview_cell b per i =
     (let start = of_nat i * per
      in count_range b start (min (start + per) (b_m b)) 0)"

definition Preview :: "bloom \<Rightarrow> nat \<Rightarrow> nat list option" where
  "Preview b cells =
     (if cells = 0 then None
      else let per = max (b_m b div of_nat cells) 1
           in those (map (preview_cell b per) [0..<cells]))"

section \<open>Specification\<close>

text \<open>A filter stands for the set of its set bits; a key for the set of its positions.\<close>

definition word_bit :: "u64 list \<Rightarrow> nat \<Rightarrow> bool" where
  "word_bit ws p \<longleftrightarrow> p div 64 < length ws \<and> bit (ws ! (p div 64)) (p mod 64)"

definition set_positions :: "bloom \<Rightarrow> nat set" where
  "set_positions b = {p. word_bit (b_bits b) p}"

definition key_positions :: "bloom \<Rightarrow> string \<Rightarrow> nat set" where
  "key_positions b s = (case positions b s of None \<Rightarrow> {} | Some ps \<Rightarrow> unat ` set ps)"

definition bloom_ok :: "bloom \<Rightarrow> bool" where
  "bloom_ok b \<longleftrightarrow> 0 < b_m b \<and> 1 \<le> b_k b \<and> b_k b \<le> 16 \<and> unat (b_m b) \<le> 64 * length (b_bits b)
     \<and> set_positions b \<subseteq> {..<unat (b_m b)}"

fun add_all :: "bloom \<Rightarrow> string list \<Rightarrow> bloom option" where
  "add_all b [] = Some b"
| "add_all b (s # ss) = (case Add b s of None \<Rightarrow> None | Some b' \<Rightarrow> add_all b' ss)"

section \<open>Lemmas\<close>

lemma word_index [word_val]:
  fixes p :: u64
  shows "unat (p div 64) = unat p div 64" "unat (p mod 64) = unat p mod 64"
  by (simp_all add: unat_div_distrib unat_mod_distrib)

lemma test_bit_mask:
  fixes w :: u64
  shows "w AND 2 ^ j \<noteq> 0 \<longleftrightarrow> bit w j"
  by (simp add: and_exp_eq_0_iff_not_bit)

lemma isSet_eq: "isSet b p = (if unat p div 64 < length (b_bits b) then Some (unat p \<in> set_positions b) else None)"
  by (simp add: isSet_def Let_def word_val test_bit_mask set_positions_def word_bit_def)

lemma word_bit_set:
  assumes "p div 64 < length ws"
  shows "word_bit (ws[p div 64 := ws ! (p div 64) OR 2 ^ (p mod 64)]) q \<longleftrightarrow> q = p \<or> word_bit ws q"
proof -
  have "q = p \<longleftrightarrow> q div 64 = p div 64 \<and> q mod 64 = p mod 64" by (metis div_mult_mod_eq)
  then show ?thesis using assms
    by (auto simp: word_bit_def nth_list_update bit_simps)
qed

lemma set_bits_ok:
  assumes "\<forall>p\<in>set ps. unat p div 64 < length (b_bits b)"
  shows "\<exists>b'. set_bits b ps = Some b' \<and> set_positions b' = set_positions b \<union> unat ` set ps
    \<and> b' = b\<lparr>b_bits := b_bits b'\<rparr> \<and> length (b_bits b') = length (b_bits b)"
  using assms
proof (induction ps arbitrary: b)
  case (Cons p ps)
  let ?b = "b\<lparr>b_bits := (b_bits b)[unat p div 64 := b_bits b ! (unat p div 64) OR push_bit (unat p mod 64) 1]\<rparr>"
  have p: "unat p div 64 < length (b_bits b)" using Cons.prems by simp
  then have s: "set_positions ?b = insert (unat p) (set_positions b)"
    by (auto simp: set_positions_def word_bit_set)
  from Cons.IH [of ?b] Cons.prems obtain b' where b':
    "set_bits ?b ps = Some b'" "set_positions b' = set_positions ?b \<union> unat ` set ps"
    "b' = ?b\<lparr>b_bits := b_bits b'\<rparr>" "length (b_bits b') = length (b_bits ?b)" by auto
  have "b' = b\<lparr>b_bits := b_bits b'\<rparr>" by (subst b'(3)) simp
  with b' p s show ?case by (simp add: word_val Let_def)
qed simp

lemma check_bits_ok:
  assumes "\<forall>p\<in>set ps. unat p div 64 < length (b_bits b)"
  shows "check_bits b ps = Some (unat ` set ps \<subseteq> set_positions b)"
  using assms by (induction ps) (auto simp: isSet_eq split: bool.splits)

lemma positions_ok:
  assumes "bloom_ok b"
  shows "\<exists>ps. positions b s = Some ps \<and> length ps = unat (b_k b) \<and> key_positions b s = unat ` set ps
    \<and> (\<forall>p\<in>set ps. unat p < unat (b_m b)) \<and> (\<forall>p\<in>set ps. unat p div 64 < length (b_bits b)) \<and> ps \<noteq> []"
proof -
  obtain ps where ps: "positions b s = Some ps" using assms
    by (cases "positions b s") (auto simp: positions_def bloom_ok_def Let_def split: if_splits)
  have len: "length ps = unat (b_k b)" using ps by (auto simp: positions_def Let_def split: if_splits)
  have m: "\<forall>p\<in>set ps. unat p < unat (b_m b)" using ps assms
    by (auto simp: positions_def Let_def bloom_ok_def unat_mod_distrib word_less_nat_alt split: if_splits)
  have "\<forall>p\<in>set ps. unat p div 64 < length (b_bits b)" using m assms by (fastforce simp: bloom_ok_def)
  moreover have "ps \<noteq> []" using len assms by (auto simp: bloom_ok_def word_le_nat_alt)
  ultimately show ?thesis using ps m len by (simp add: key_positions_def)
qed

lemma positions_bits [simp]:
  "positions (b\<lparr>b_bits := ws\<rparr>) s = positions b s" "positions (b\<lparr>b_n := c\<rparr>) s = positions b s"
  by (simp_all add: positions_def Let_def)

lemma Add_ok:
  assumes "bloom_ok b"
  shows "\<exists>b'. Add b s = Some b' \<and> bloom_ok b' \<and> set_positions b' = set_positions b \<union> key_positions b s
    \<and> b_m b' = b_m b \<and> b_k b' = b_k b \<and> b_n b' = b_n b + 1 \<and> (\<forall>t. positions b' t = positions b t)"
proof -
  from positions_ok [OF assms] obtain ps where ps:
    "positions b s = Some ps" "key_positions b s = unat ` set ps" "\<forall>p\<in>set ps. unat p < unat (b_m b)"
    "\<forall>p\<in>set ps. unat p div 64 < length (b_bits b)" by blast
  from set_bits_ok [OF ps(4)] obtain c where c:
    "set_bits b ps = Some c" "set_positions c = set_positions b \<union> unat ` set ps"
    "c = b\<lparr>b_bits := b_bits c\<rparr>" "length (b_bits c) = length (b_bits b)" by blast
  have eq: "b_m c = b_m b" "b_k c = b_k b" "b_n c = b_n b" "positions c t = positions b t" for t
    by (subst c(3), simp)+
  have n: "set_positions (c\<lparr>b_n := b_n c + 1\<rparr>) = set_positions c" by (simp add: set_positions_def)
  have "bloom_ok (c\<lparr>b_n := b_n c + 1\<rparr>)"
    using assms ps(3) c(2,4) eq n by (auto simp: bloom_ok_def)
  then show ?thesis using ps(1,2) c(1,2) eq n by (simp add: Add_def)
qed

lemma MayContain_ok:
  assumes "bloom_ok b"
  shows "MayContain b s = Some (key_positions b s \<subseteq> set_positions b)"
proof -
  from positions_ok [OF assms, of s] obtain ps where "positions b s = Some ps"
    "key_positions b s = unat ` set ps" "\<forall>p\<in>set ps. unat p div 64 < length (b_bits b)" by blast
  then show ?thesis by (simp add: MayContain_def check_bits_ok)
qed

lemma set_positions_empty: "set_positions b = {}" if "b_bits b = replicate j 0"
  using that by (auto simp: set_positions_def word_bit_def)

lemma unat_round_up:
  fixes m :: u64
  assumes "m \<le> 0x8000000000000000"
  shows "unat m \<le> 64 * unat ((m + 63) div 64)"
proof -
  have "unat m \<le> 9223372036854775808" using assms by (simp add: word_le_nat_alt)
  then have "unat (m + 63) = unat m + 63" by (simp add: unat_word_ariths)
  then show ?thesis by (simp add: word_val)
qed

lemma NewBloom_ok:
  assumes "mEst \<le> 0x8000000000000000"
  shows "bloom_ok (NewBloom mEst kEst)" "set_positions (NewBloom mEst kEst) = {}" "b_n (NewBloom mEst kEst) = 0"
proof -
  show e: "set_positions (NewBloom mEst kEst) = {}"
    by (rule set_positions_empty) (simp add: NewBloom_def Let_def)
  have "unat (max mEst 64) \<le> 64 * unat ((max mEst 64 + 63) div 64)"
    by (rule unat_round_up) (use assms in \<open>simp add: max_def\<close>)
  then show "bloom_ok (NewBloom mEst kEst)" unfolding bloom_ok_def e
    by (auto simp: NewBloom_def Let_def clampU64_def min_def max_def not_le word_le_nat_alt word_less_nat_alt)
  show "b_n (NewBloom mEst kEst) = 0" by (simp add: NewBloom_def Let_def)
qed


lemma key_positions_cong: "positions b' t = positions b t \<Longrightarrow> key_positions b' t = key_positions b t"
  by (simp add: key_positions_def)

interpretation filter: approx_set Add MayContain bloom_ok
proof
  fix b s assume ok: "bloom_ok b"
  from Add_ok [OF ok, of s] obtain b' where b': "Add b s = Some b'" "bloom_ok b'"
    "set_positions b' = set_positions b \<union> key_positions b s" "\<forall>t. positions b' t = positions b t" by blast
  have k: "key_positions b' t = key_positions b t" for t using b'(4) by (intro key_positions_cong) simp
  show "\<exists>b'. Add b s = Some b' \<and> bloom_ok b' \<and> MayContain b' s = Some True \<and>
      (\<forall>t. MayContain b t = Some True \<longrightarrow> MayContain b' t = Some True)"
    using b' k MayContain_ok [OF ok] MayContain_ok [OF b'(2)] by auto
next
  fix b s assume "bloom_ok b"
  then show "\<exists>r. MayContain b s = Some r" by (simp add: MayContain_ok)
qed

lemma add_all_run: "add_all b ss = run_inserts Add b ss"
  by (induction ss arbitrary: b) (auto split: option.splits)

lemma add_all_grow:
  assumes "bloom_ok b" "add_all b ss = Some b'"
  shows "bloom_ok b' \<and> b_k b' = b_k b \<and> b_m b' = b_m b \<and> b_n b' = b_n b + of_nat (length ss)
    \<and> set_positions b' = set_positions b \<union> (\<Union>s\<in>set ss. key_positions b s)"
  using assms
proof (induction ss arbitrary: b)
  case (Cons s ss)
  from Add_ok [OF Cons.prems(1), of s] obtain c where c: "Add b s = Some c" "bloom_ok c"
    "set_positions c = set_positions b \<union> key_positions b s" "b_m c = b_m b" "b_k c = b_k b" "b_n c = b_n b + 1"
    "\<forall>t. positions c t = positions b t" by blast
  have "key_positions c t = key_positions b t" for t using c(7) by (intro key_positions_cong) simp
  with Cons.IH [OF c(2)] Cons.prems(2) c show ?case by auto
qed simp

subsection \<open>Counting bits\<close>

lemma card_word_bit: "card {p. word_bit ws p} = sum_list (map ones_count ws) \<and> finite {p. word_bit ws p}"
proof (induction ws)
  case Nil
  then show ?case by (simp add: word_bit_def)
next
  case (Cons w ws)
  let ?A = "{p. p < 64 \<and> bit w p}" and ?B = "(\<lambda>p. p + 64) ` {p. word_bit ws p}"
  have "{p. word_bit (w # ws) p} = ?A \<union> ?B"
  proof (rule set_eqI)
    fix p
    show "p \<in> {p. word_bit (w # ws) p} \<longleftrightarrow> p \<in> ?A \<union> ?B"
    proof (cases "p < 64")
      case True
      then show ?thesis by (auto simp: word_bit_def)
    next
      case False
      then obtain q where "p = q + 64" by (metis add.commute le_Suc_ex not_less)
      moreover have "(q + 64) div 64 = Suc (q div 64)" by simp
      ultimately show ?thesis by (auto simp: word_bit_def simp del: div_add_self2)
    qed
  qed
  moreover have "card ?B = card {p. word_bit ws p}" by (rule card_image) simp
  moreover have "?A \<inter> ?B = {}" by auto
  moreover have "ones_count w = card ?A"
    unfolding ones_count_def by (subst distinct_length_filter) (auto intro: arg_cong [where f = card])
  ultimately show ?case using Cons by (simp add: card_Un_disjoint)
qed

lemma Stats_card: "set_count (Stats b) = card (set_positions b)"
  using card_word_bit [of "b_bits b"] by (simp add: Stats_def set_positions_def)

lemma finite_set_positions: "finite (set_positions b)"
  using card_word_bit [of "b_bits b"] by (simp add: set_positions_def)

lemma count_range_ok:
  assumes "unat e \<le> 64 * length (b_bits b)"
  shows "count_range b p e acc = Some (acc + card {q \<in> set_positions b. unat p \<le> q \<and> q < unat e})"
  using assms
proof (induction b p e acc rule: count_range.induct)
  case (1 b p e acc)
  let ?S = "\<lambda>j. {q \<in> set_positions b. j \<le> q \<and> q < unat e}"
  show ?case
  proof (cases "p < e")
    case False
    then have "?S (unat p) = {}" by (auto simp: word_less_nat_alt)
    then show ?thesis using False by (simp add: count_range.simps)
  next
    case True
    then have lt: "unat p < unat e" by (simp add: word_less_nat_alt)
    have s: "isSet b p = Some (unat p \<in> set_positions b)" using lt "1.prems" by (simp add: isSet_eq)
    have "?S (unat p) = (if unat p \<in> set_positions b then insert (unat p) (?S (unat p + 1)) else ?S (unat p + 1))"
      using lt by (auto simp: le_eq_less_or_eq)
    moreover have "finite (?S (unat p + 1))" by simp
    ultimately have "card (?S (unat p)) = (if unat p \<in> set_positions b then 1 else 0) + card (?S (unat p + 1))"
      by simp
    then show ?thesis using "1.IH" [OF True s "1.prems"] True s unat_next [OF True]
      by (simp add: count_range.simps [of b p])
  qed
qed

lemma those_map_Some: "(\<And>x. x \<in> set xs \<Longrightarrow> f x = Some (g x)) \<Longrightarrow> those (map f xs) = Some (map g xs)"
  by (induction xs) auto

lemma cell_bounds:
  fixes m per :: u64
  assumes "0 < cells" "cells < 9223372036854775808" "i < cells" "per = max (m div of_nat cells) 1"
  shows "unat (of_nat i * per) = i * unat per" "unat (of_nat i * per + per) = i * unat per + unat per"
proof -
  have c: "unat (of_nat cells :: u64) = cells" using assms(2) by (simp add: unat_of_nat64)
  have p: "unat per = max (unat m div cells) 1"
    using assms(4) c by (auto simp: max_def word_le_nat_alt unat_div_distrib)
  have "(i + 1) * unat per \<le> cells * unat per" using assms(3) by (intro mult_right_mono) auto
  also have "\<dots> < 18446744073709551616"
  proof (cases "unat m div cells = 0")
    case False
    then have "cells * unat per \<le> unat m" using p by simp
    then show ?thesis using unat64_less [of m] by simp
  qed (use p assms(2) in simp)
  finally have b: "i * unat per + unat per < 18446744073709551616" by (simp add: algebra_simps)
  show i: "unat (of_nat i * per) = i * unat per"
    using b assms(2,3) by (simp add: unat_word_ariths unat_of_nat64)
  show "unat (of_nat i * per + per) = i * unat per + unat per"
    using b i by (simp add: unat_word_ariths)
qed

section \<open>Properties\<close>

text \<open>C16: a Bloom filter has no false negatives: adding any keys to a new filter never indexes
  out of range, and every added key is then reported as possibly present.\<close>

theorem no_false_negatives:
  assumes "mEst \<le> 0x8000000000000000"
  shows "\<exists>b. add_all (NewBloom mEst kEst) ss = Some b \<and> (\<forall>s\<in>set ss. MayContain b s = Some True)"
  using filter.inserted_found [OF NewBloom_ok(1) [OF assms], of kEst ss] by (simp add: add_all_run) blast

theorem no_false_negatives_witness:
  "\<exists>b. add_all (NewBloom 64 (\<lambda>m. 3)) [''a'', ''b''] = Some b \<and> (\<forall>s\<in>set [''a'', ''b'']. MayContain b s = Some True)"
  by (rule no_false_negatives) simp

text \<open>A filter is the set of its set bits: after any sequence of additions these are exactly
  the positions of the added keys, all below \<open>m\<close>, and a key is reported as possibly
  present exactly when its positions are among them.\<close>

theorem Bloom_refines_bit_set:
  assumes "bloom_ok b" "add_all b ss = Some b'"
  shows "set_positions b' = set_positions b \<union> (\<Union>s\<in>set ss. key_positions b s)
    \<and> set_positions b' \<subseteq> {..<unat (b_m b)} \<and> b_n b' = b_n b + of_nat (length ss)
    \<and> MayContain b' t = Some (key_positions b' t \<subseteq> set_positions b')"
  using add_all_grow [OF assms] MayContain_ok [of b' t] unfolding bloom_ok_def by metis

theorem Bloom_refines_bit_set_witness:
  "\<exists>b'. add_all (NewBloom 64 (\<lambda>m. 3)) [''a''] = Some b' \<and> b_n b' = 1"
proof -
  have ok: "bloom_ok (NewBloom 64 (\<lambda>m. 3))" by (rule NewBloom_ok) simp
  then obtain b' where b': "add_all (NewBloom 64 (\<lambda>m. 3)) [''a''] = Some b'"
    using Add_ok [of "NewBloom 64 (\<lambda>m. 3)" "''a''"] by auto
  from Bloom_refines_bit_set [OF ok b', of "''a''"] b' NewBloom_ok(3) [of 64 "\<lambda>m. 3"]
  show ?thesis by simp
qed

text \<open>An empty filter rules out every key.\<close>

lemma new_filter_rules_out:
  assumes "mEst \<le> 0x8000000000000000"
  shows "MayContain (NewBloom mEst kEst) s = Some False"
proof -
  note ok = NewBloom_ok [OF assms, of kEst]
  from positions_ok [OF ok(1), of s] have "key_positions (NewBloom mEst kEst) s \<noteq> {}" by auto
  with MayContain_ok [OF ok(1), of s] ok(2) show ?thesis by simp
qed

text \<open>The fill count of the statistics is the number of distinct set positions: at most \<open>m\<close>,
  and at most \<open>k\<close> for each key added to a new filter.\<close>

theorem Stats_fill:
  assumes "mEst \<le> 0x8000000000000000" "add_all (NewBloom mEst kEst) ss = Some b"
  shows "set_count (Stats b) = card (set_positions b) \<and> set_count (Stats b) \<le> unat (b_m b)
    \<and> set_count (Stats b) \<le> unat (b_k b) * length ss"
proof -
  let ?e = "NewBloom mEst kEst"
  note ok = NewBloom_ok [OF assms(1), of kEst]
  note g = add_all_grow [OF ok(1) assms(2)]
  have "set_positions b \<subseteq> {..<unat (b_m b)}" using g unfolding bloom_ok_def by blast
  from card_mono [OF finite_lessThan this] have "card (set_positions b) \<le> card {..<unat (b_m b)}" .
  moreover have "card (key_positions ?e s) \<le> unat (b_k ?e)" for s
    using positions_ok [OF ok(1), of s] card_image_le [of "set _" unat] card_length order_trans by (metis List.finite_set)
  then have "card (\<Union>s\<in>set ss. key_positions ?e s) \<le> unat (b_k ?e) * length ss"
  proof (induction ss)
    case (Cons s ss)
    have "card (key_positions ?e s \<union> (\<Union>s\<in>set ss. key_positions ?e s))
        \<le> card (key_positions ?e s) + card (\<Union>s\<in>set ss. key_positions ?e s)" by (rule card_Un_le)
    also have "\<dots> \<le> unat (b_k ?e) + unat (b_k ?e) * length ss"
      using Cons.IH [OF Cons.prems] Cons.prems [of s] by (intro add_mono)
    finally show ?case by simp
  qed simp
  ultimately show ?thesis using g ok(2) by (simp add: Stats_card)
qed

theorem Stats_fill_witness:
  "\<exists>b. add_all (NewBloom 64 (\<lambda>m. 3)) [''a''] = Some b \<and> set_count (Stats b) \<le> unat (b_k b) * 1"
proof -
  obtain b where b: "add_all (NewBloom 64 (\<lambda>m. 3)) [''a''] = Some b"
    using Add_ok [OF NewBloom_ok(1), of 64 "\<lambda>m. 3" "''a''"] by auto
  from Stats_fill [OF _ b] b show ?thesis by simp
qed

text \<open>The preview never reads outside the array; cell \<open>i\<close> counts the set bits of its block of
  \<open>max (m div cells) 1\<close> positions, and the blocks leave out the last \<open>m mod cells\<close>
  positions.\<close>

theorem Preview_cells:
  assumes "bloom_ok b" "0 < cells" "cells < 0x8000000000000000"
  defines "per \<equiv> max (unat (b_m b) div cells) 1"
  shows "\<exists>out. Preview b cells = Some out \<and> length out = cells \<and>
    (\<forall>i<cells. out ! i = card {p \<in> set_positions b. i * per \<le> p \<and> p < (i + 1) * per})"
proof -
  let ?per = "max (b_m b div of_nat cells) 1"
  let ?g = "\<lambda>i. card {p \<in> set_positions b. i * per \<le> p \<and> p < (i + 1) * per}"
  have c: "unat (of_nat cells :: u64) = cells" using assms(3) by (simp add: unat_of_nat64)
  then have p: "unat ?per = per" by (auto simp: per_def max_def word_le_nat_alt unat_div_distrib)
  have "preview_cell b ?per i = Some (?g i)" if i: "i < cells" for i
  proof -
    note cb = cell_bounds [OF assms(2,3) [simplified] i refl, of "b_m b", unfolded p]
    let ?e = "min (of_nat i * ?per + ?per) (b_m b)"
    have e: "unat ?e = min (i * per + per) (unat (b_m b))"
      using cb(2) by (auto simp: min_def word_le_nat_alt)
    then have "unat ?e \<le> 64 * length (b_bits b)" using assms(1) min.cobounded2 [of "i * per + per" "unat (b_m b)"]
      by (simp only: bloom_ok_def) linarith
    from count_range_ok [OF this, of "of_nat i * ?per" 0] cb(1) e
    have "preview_cell b ?per i = Some (card {q \<in> set_positions b. i * per \<le> q \<and> q < min (i * per + per) (unat (b_m b))})"
      by (simp add: preview_cell_def Let_def)
    moreover have "{q \<in> set_positions b. i * per \<le> q \<and> q < min (i * per + per) (unat (b_m b))} =
        {q \<in> set_positions b. i * per \<le> q \<and> q < (i + 1) * per}"
      using assms(1) by (auto simp: bloom_ok_def)
    ultimately show ?thesis by simp
  qed
  then have "Preview b cells = Some (map ?g [0..<cells])"
    using assms(2) those_map_Some [of "[0..<cells]" "preview_cell b ?per" ?g] by (simp add: Preview_def Let_def)
  then show ?thesis by simp
qed

theorem Preview_cells_witness:
  "\<exists>out. Preview (NewBloom 64 (\<lambda>m. 3)) 8 = Some out \<and> length out = 8"
  using Preview_cells [OF NewBloom_ok(1), of 64 8 "\<lambda>m. 3"] by auto

end
