(* ===== verification/Dict.thy ===== *)
theory Dict
  imports Kortex_Prelude
begin

text \<open>
  The dictionary of \<^verbatim>\<open>backend/olap.go\<close>: strings to dense 32-bit ids and back.  The double
  check of \<^verbatim>\<open>ID\<close> under the write lock is the second lookup of the definition; between the
  two a concurrent \<^verbatim>\<open>ID\<close> may have run, which is the argument \<open>d2\<close> of \<open>ID_locked\<close>.
\<close>

record dict =
  ids :: "(string, u32) gomap"
  vals :: "string list"

definition NewDict :: dict where
  "NewDict = \<lparr>ids = [], vals = ['''']\<rparr>"

definition Lookup :: "dict \<Rightarrow> string \<Rightarrow> u32 option" where
  "Lookup d s = map_of (ids d) s"

definition ID_locked :: "dict \<Rightarrow> string \<Rightarrow> u32 \<times> dict" where
  "ID_locked d2 s =
     (case map_of (ids d2) s of
        Some v \<Rightarrow> (v, d2)
      | None \<Rightarrow> let i = of_nat (length (vals d2))
                in (i, d2\<lparr>vals := vals d2 @ [s], ids := mput s i (ids d2)\<rparr>))"

definition ID :: "dict \<Rightarrow> string \<Rightarrow> u32 \<times> dict" where
  "ID d s = (case Lookup d s of Some v \<Rightarrow> (v, d) | None \<Rightarrow> ID_locked d s)"

definition Val :: "dict \<Rightarrow> u32 \<Rightarrow> string" where
  "Val d i = (if unat i < length (vals d) then vals d ! unat i else '''')"

definition Size :: "dict \<Rightarrow> nat" where
  "Size d = length (vals d)"

section \<open>Specification\<close>

text \<open>Position 0 is reserved, every other position is the id of its string.\<close>

definition dict_ok :: "dict \<Rightarrow> bool" where
  "dict_ok d \<longleftrightarrow> vals d \<noteq> [] \<and> length (vals d) \<le> 4294967296 \<and>
     (\<forall>s i. map_of (ids d) s = Some i \<longleftrightarrow> i \<noteq> 0 \<and> unat i < length (vals d) \<and> vals d ! unat i = s)"

section \<open>Lemmas\<close>

lemma dict_ok_New: "dict_ok NewDict"
  by (auto simp: dict_ok_def NewDict_def unat_gt_0)

lemma ID_cases:
  "ID d s = (case Lookup d s of Some v \<Rightarrow> (v, d)
     | None \<Rightarrow> (of_nat (length (vals d)), \<lparr>ids = mput s (of_nat (length (vals d))) (ids d), vals = vals d @ [s]\<rparr>))"
  by (auto simp: ID_def ID_locked_def Lookup_def Let_def split: option.splits)

lemma ID_extends:
  assumes "dict_ok d" "length (vals d) < 4294967296" "ID d s = (i, d')"
  shows "dict_ok d' \<and> Lookup d' s = Some i \<and> Val d' i = s \<and> i \<noteq> 0
    \<and> (\<forall>t j. Lookup d t = Some j \<longrightarrow> Lookup d' t = Some j) \<and> Size d' \<le> Size d + 1"
proof (cases "Lookup d s")
  case (Some v)
  then show ?thesis using assms by (auto simp: ID_cases Lookup_def dict_ok_def Val_def Size_def)
next
  case None
  let ?n = "of_nat (length (vals d)) :: u32"
  have n: "unat ?n = length (vals d)" using assms(2) by (simp add: unat_of_nat32)
  have z: "?n \<noteq> 0" using n assms(1) by (auto simp: dict_ok_def unat_eq_zero)
  have d': "i = ?n" "d' = \<lparr>ids = mput s ?n (ids d), vals = vals d @ [s]\<rparr>"
    using assms(3) None by (auto simp: ID_cases)
  have u: "unat j = length (vals d) \<longleftrightarrow> j = ?n" for j :: u32
    using n by (simp add: word_unat_eq_iff)
  have map: "map_of (ids d) t = Some j \<longleftrightarrow> j \<noteq> 0 \<and> unat j < length (vals d) \<and> vals d ! unat j = t" for t j
    using assms(1) by (simp add: dict_ok_def)
  have "map_of (ids d') t = Some j \<longleftrightarrow> j \<noteq> 0 \<and> unat j < length (vals d') \<and> vals d' ! unat j = t" for t j
  proof (cases "t = s")
    case True
    have "\<not> (j \<noteq> 0 \<and> unat j < length (vals d) \<and> vals d ! unat j = s)" using map [of s j] None by (simp add: Lookup_def)
    then show ?thesis using True d' z n u [of j] by (auto simp: nth_append less_Suc_eq)
  next
    case False
    then show ?thesis using d' map [of t j] u [of j] by (auto simp: nth_append less_Suc_eq)
  qed
  then have "dict_ok d'" using assms d'(2) by (auto simp: dict_ok_def)
  moreover have "Lookup d s = None" by (rule None)
  ultimately show ?thesis using d' n z by (auto simp: Lookup_def Val_def Size_def)
qed

lemma ID_stable: "dict_ok d \<Longrightarrow> ID d s = (i, d') \<Longrightarrow> Lookup d s = Some j \<Longrightarrow> i = j \<and> d' = d"
  by (simp add: ID_cases)

lemma Lookup_inj: "dict_ok d \<Longrightarrow> Lookup d s = Some i \<Longrightarrow> Lookup d t = Some i \<Longrightarrow> s = t"
  by (auto simp: dict_ok_def Lookup_def)

section \<open>Properties\<close>

text \<open>As long as the dictionary has fewer than \<open>2 ^ 32\<close> entries, the id of a string decodes to
  that string, stays its id from then on, leaves the ids of all other strings alone, and
  is never 0, not even for the empty string.\<close>

theorem ID_Val_roundtrip:
  assumes "dict_ok d" "Size d < 4294967296" "ID d s = (i, d')"
  shows "dict_ok d' \<and> Val d' i = s \<and> ID d' s = (i, d') \<and> i \<noteq> 0
    \<and> (\<forall>t j. Lookup d t = Some j \<longrightarrow> Lookup d' t = Some j)
    \<and> (\<forall>t. t \<noteq> s \<longrightarrow> Lookup d' t \<noteq> Some i)"
proof -
  from ID_extends [OF assms(1) _ assms(3)] assms(2)
  have e: "dict_ok d'" "Lookup d' s = Some i" "Val d' i = s" "i \<noteq> 0"
    "\<forall>t j. Lookup d t = Some j \<longrightarrow> Lookup d' t = Some j" by (simp_all add: Size_def)
  have "\<forall>t. t \<noteq> s \<longrightarrow> Lookup d' t \<noteq> Some i" using Lookup_inj [OF e(1) _ e(2)] by blast
  then show ?thesis using e by (simp add: ID_def)
qed

theorem ID_Val_roundtrip_witness: "\<exists>d'. ID NewDict '''' = (1, d') \<and> Val d' 1 = '''' \<and> ID d' '''' = (1, d')"
proof -
  obtain d' where d': "ID NewDict '''' = (1, d')" by (simp add: ID_cases Lookup_def NewDict_def)
  from ID_Val_roundtrip [OF dict_ok_New _ d'] show ?thesis using d' by (simp add: Size_def NewDict_def)
qed

end
