(* ===== verification/Bus.thy ===== *)
theory Bus
  imports Shard "HOL-Library.Sublist"
begin

text \<open>
  \<^verbatim>\<open>backend/bus.go\<close>: the in-process event bus.  The operations of a partition and of the
  broker are functions on their records; the goroutines (producers, the dispatcher and one
  consumer per partition) interleave in the step relation \<open>step\<close>, whose rules are the
  critical sections of the code.  Offsets and counters are unbounded: they count events and
  stay far below 63 bits.  A slice or index out of range panics and is \<^const>\<open>None\<close>.
\<close>

section \<open>Partitions\<close>

record click_event =
  ev_TS :: int
  ev_Code :: string
  ev_UserID :: int
  ev_Country :: string
  ev_City :: string
  ev_Ref :: string
  ev_Device :: string
  ev_Browser :: string
  ev_OS :: string
  ev_Bot :: bool
  ev_Status :: int
  ev_Hit :: bool

definition ingressBuffer :: nat where "ingressBuffer = 200000"
definition recentSize :: nat where "recentSize = 256"
definition batchSize :: int where "batchSize = 4000"
definition maxBatchesPerTick :: nat where "maxBatchesPerTick = 4"

record partition =
  p_log :: "click_event list"
  baseOff :: int
  committed :: int
  retention :: nat
  polled :: int
  lost :: nat

definition p_end :: "partition \<Rightarrow> int" where
  "p_end p = baseOff p + int (length (p_log p))"

definition highWatermark :: "partition \<Rightarrow> int" where
  "highWatermark p = p_end p"

definition p_append :: "click_event \<Rightarrow> partition \<Rightarrow> partition" where
  "p_append e p =
     (let lg = p_log p @ [e]
      in if length lg \<le> 2 * retention p then p\<lparr>p_log := lg\<rparr>
         else let drp = length lg - retention p;
                  base = baseOff p + int drp;
                  seen = max (committed p) (polled p)
              in p\<lparr>p_log := drop drp lg,
                   baseOff := base,
                   lost := lost p + (if seen < base then nat (base - seen) else 0),
                   committed := max (committed p) base\<rparr>)"

definition poll :: "int \<Rightarrow> partition \<Rightarrow> ((click_event list \<times> int) \<times> partition) option" where
  "poll limit p =
     (if p_end p \<le> committed p then Some (([], committed p), p)
      else let start = committed p - baseOff p;
               stop = min (start + limit) (int (length (p_log p)))
           in if start < 0 \<or> stop < start then None
              else let batch = drop (nat start) (take (nat stop) (p_log p));
                       p' = p\<lparr>polled := baseOff p + stop\<rparr>
                   in Some ((batch, polled p'), p'))"

definition commit :: "int \<Rightarrow> partition \<Rightarrow> partition" where
  "commit off p = p\<lparr>committed := max (committed p) off\<rparr>"

section \<open>The broker\<close>

record broker =
  Topic :: string
  parts :: "partition list"
  ingress :: "click_event list"
  Produced :: nat
  Dropped :: nat
  Consumed :: nat
  Batches :: nat
  recent :: "click_event list"
  recentN :: nat
  stop :: bool

definition zero_event :: click_event where
  "zero_event = \<lparr>ev_TS = 0, ev_Code = [], ev_UserID = 0, ev_Country = [], ev_City = [], ev_Ref = [],
     ev_Device = [], ev_Browser = [], ev_OS = [], ev_Bot = False, ev_Status = 0, ev_Hit = False\<rparr>"

definition NewBroker :: "string \<Rightarrow> nat \<Rightarrow> nat \<Rightarrow> broker" where
  "NewBroker topic partitions ret =
     \<lparr>Topic = topic,
      parts = replicate partitions \<lparr>p_log = [], baseOff = 0, committed = 0, retention = ret, polled = 0, lost = 0\<rparr>,
      ingress = [], Produced = 0, Dropped = 0, Consumed = 0, Batches = 0,
      recent = replicate recentSize zero_event, recentN = 0, stop = False\<rparr>"

definition Produce :: "click_event \<Rightarrow> broker \<Rightarrow> broker" where
  "Produce e b =
     (if length (ingress b) < ingressBuffer
      then b\<lparr>ingress := ingress b @ [e], Produced := Produced b + 1\<rparr>
      else b\<lparr>Dropped := Dropped b + 1\<rparr>)"

definition Stop :: "broker \<Rightarrow> broker" where
  "Stop b = b\<lparr>stop := True\<rparr>"

definition stopped :: "broker \<Rightarrow> bool" where
  "stopped b = stop b"

text \<open>The partition of a code; a broker without partitions panics.\<close>

definition part_of :: "nat \<Rightarrow> string \<Rightarrow> int" where
  "part_of n c = uint (hash32 c) mod int n"

definition route_event :: "click_event \<Rightarrow> broker \<Rightarrow> broker option" where
  "route_event e b =
     (if parts b = [] then None
      else let i = nat (part_of (length (parts b)) (ev_Code e))
           in Some (b\<lparr>parts := (parts b)[i := p_append e (parts b ! i)]\<rparr>))"

definition pushRecent :: "click_event \<Rightarrow> broker \<Rightarrow> broker" where
  "pushRecent e b =
     b\<lparr>recent := (recent b)[recentN b mod recentSize := e], recentN := recentN b + 1\<rparr>"

text \<open>The loop of \<^verbatim>\<open>Recent\<close> from index \<open>i\<close>; a missing filter keeps everything.\<close>

function recent_loop :: "broker \<Rightarrow> int \<Rightarrow> (click_event \<Rightarrow> bool) option \<Rightarrow> nat \<Rightarrow> click_event list \<Rightarrow> click_event list" where
  "recent_loop b n keep i out =
     (if i < min (recentN b) recentSize \<and> int (length out) < n
      then let e = recent b ! ((recentN b - 1 - i) mod recentSize)
           in recent_loop b n keep (i + 1)
                (if (case keep of None \<Rightarrow> True | Some f \<Rightarrow> f e) then out @ [e] else out)
      else out)"
  by pat_completeness auto
termination
  by (relation "measure (\<lambda>(b, n, keep, i, out). min (recentN b) recentSize - i)") auto

declare recent_loop.simps [simp del]

definition Recent :: "int \<Rightarrow> (click_event \<Rightarrow> bool) option \<Rightarrow> broker \<Rightarrow> click_event list" where
  "Recent n keep b = recent_loop b n keep 0 []"

record partition_stat =
  ps_ID :: nat
  HighWater :: int
  Committed :: int
  Lag :: int
  Retained :: nat
  Lost :: nat

record broker_stats =
  s_Topic :: string
  s_Partitions :: "partition_stat list"
  s_Produced :: nat
  s_Consumed :: nat
  s_Dropped :: nat
  s_Batches :: nat
  s_Lost :: nat
  TotalLag :: int
  QueueDepth :: nat

definition part_stat :: "nat \<Rightarrow> partition \<Rightarrow> partition_stat" where
  "part_stat i p = \<lparr>ps_ID = i, HighWater = p_end p, Committed = committed p, Lag = p_end p - committed p,
     Retained = length (p_log p), Lost = lost p\<rparr>"

definition add_stat :: "nat \<times> partition \<Rightarrow> broker_stats \<Rightarrow> broker_stats" where
  "add_stat = (\<lambda>(i, p) s. let st = part_stat i p
     in s\<lparr>s_Partitions := s_Partitions s @ [st], TotalLag := TotalLag s + Lag st, s_Lost := s_Lost s + Lost st\<rparr>)"

definition Stats :: "broker \<Rightarrow> broker_stats" where
  "Stats b = fold add_stat (List.enumerate 0 (parts b))
     \<lparr>s_Topic = Topic b, s_Partitions = [], s_Produced = Produced b, s_Consumed = Consumed b, s_Dropped = Dropped b,
      s_Batches = Batches b, s_Lost = 0, TotalLag = 0, QueueDepth = length (ingress b)\<rparr>"

text \<open>\<^verbatim>\<open>Flush\<close> over the broker states it looks at before the deadline.\<close>

fun Flush :: "broker list \<Rightarrow> bool" where
  "Flush [] = False"
| "Flush (b # bs) = (if ingress b = [] \<and> TotalLag (Stats b) = 0 then True else Flush bs)"

section \<open>The running bus\<close>

text \<open>Where the dispatcher and a consumer are.  A consumer that finds the bus stopped gives up
  the batch in its hand.\<close>

datatype dispatch_pc = DIdle | DHave click_event | DRouted click_event | DDone

datatype consume_pc =
  CWait
| CLoop nat
| CPolled nat "click_event list" int
| CChecked nat "click_event list" int
| CSunk nat nat int
| CCommitted nat nat
| CDone nat

text \<open>The last four components record what happened: the events accepted by \<^verbatim>\<open>Produce\<close>, the
  events appended to each partition, the events pushed to the recent buffer, and the
  calls of the sink with the partition they come from.\<close>

record bus =
  broker :: broker
  disp :: dispatch_pc
  cons :: "consume_pc list"
  sent :: "click_event list"
  hist :: "click_event list list"
  pushed :: "click_event list"
  sunk :: "(nat \<times> click_event list) list"

definition Start :: "broker \<Rightarrow> bus" where
  "Start b = \<lparr>broker = b, disp = DIdle, cons = replicate (length (parts b)) CWait,
     sent = [], hist = replicate (length (parts b)) [], pushed = [], sunk = []\<rparr>"

definition with_part :: "nat \<Rightarrow> partition \<Rightarrow> broker \<Rightarrow> broker" where
  "with_part i p b = b\<lparr>parts := (parts b)[i := p]\<rparr>"

inductive step :: "bus \<Rightarrow> bus \<Rightarrow> bool" where
  produce: "step s (s\<lparr>broker := Produce e (broker s),
      sent := if length (ingress (broker s)) < ingressBuffer then sent s @ [e] else sent s\<rparr>)"
| stop: "step s (s\<lparr>broker := Stop (broker s)\<rparr>)"
| receive: "disp s = DIdle \<Longrightarrow> ingress (broker s) = e # q \<Longrightarrow>
    step s (s\<lparr>broker := broker s\<lparr>ingress := q\<rparr>, disp := DHave e\<rparr>)"
| route: "disp s = DHave e \<Longrightarrow> route_event e (broker s) = Some b \<Longrightarrow>
    i = nat (part_of (length (parts (broker s))) (ev_Code e)) \<Longrightarrow>
    step s (s\<lparr>broker := b, disp := DRouted e, hist := (hist s)[i := hist s ! i @ [e]]\<rparr>)"
| recent: "disp s = DRouted e \<Longrightarrow>
    step s (s\<lparr>broker := pushRecent e (broker s), disp := DIdle, pushed := pushed s @ [e]\<rparr>)"
| dispatch_stop: "disp s = DIdle \<Longrightarrow> stopped (broker s) \<Longrightarrow> step s (s\<lparr>disp := DDone\<rparr>)"
| tick: "i < length (cons s) \<Longrightarrow> cons s ! i = CWait \<Longrightarrow> step s (s\<lparr>cons := (cons s)[i := CLoop 0]\<rparr>)"
| consume_stop: "i < length (cons s) \<Longrightarrow> cons s ! i = CWait \<Longrightarrow> stopped (broker s) \<Longrightarrow>
    step s (s\<lparr>cons := (cons s)[i := CDone 0]\<rparr>)"
| loop_end: "i < length (cons s) \<Longrightarrow> cons s ! i = CLoop k \<Longrightarrow> maxBatchesPerTick \<le> k \<Longrightarrow>
    step s (s\<lparr>cons := (cons s)[i := CWait]\<rparr>)"
| poll_empty: "i < length (cons s) \<Longrightarrow> cons s ! i = CLoop k \<Longrightarrow> k < maxBatchesPerTick \<Longrightarrow>
    poll batchSize (parts (broker s) ! i) = Some (([], nxt), p) \<Longrightarrow>
    step s (s\<lparr>cons := (cons s)[i := CWait]\<rparr>)"
| poll: "i < length (cons s) \<Longrightarrow> cons s ! i = CLoop k \<Longrightarrow> k < maxBatchesPerTick \<Longrightarrow>
    poll batchSize (parts (broker s) ! i) = Some ((batch, nxt), p) \<Longrightarrow> batch \<noteq> [] \<Longrightarrow>
    step s (s\<lparr>broker := with_part i p (broker s), cons := (cons s)[i := CPolled k batch nxt]\<rparr>)"
| abandon: "i < length (cons s) \<Longrightarrow> cons s ! i = CPolled k batch nxt \<Longrightarrow> stopped (broker s) \<Longrightarrow>
    step s (s\<lparr>cons := (cons s)[i := CDone (length batch)]\<rparr>)"
| go_on: "i < length (cons s) \<Longrightarrow> cons s ! i = CPolled k batch nxt \<Longrightarrow> \<not> stopped (broker s) \<Longrightarrow>
    step s (s\<lparr>cons := (cons s)[i := CChecked k batch nxt]\<rparr>)"
| sink: "i < length (cons s) \<Longrightarrow> cons s ! i = CChecked k batch nxt \<Longrightarrow>
    step s (s\<lparr>cons := (cons s)[i := CSunk k (length batch) nxt], sunk := sunk s @ [(i, batch)]\<rparr>)"
| commit: "i < length (cons s) \<Longrightarrow> cons s ! i = CSunk k l nxt \<Longrightarrow>
    step s (s\<lparr>broker := with_part i (commit nxt (parts (broker s) ! i)) (broker s),
      cons := (cons s)[i := CCommitted k l]\<rparr>)"
| count: "i < length (cons s) \<Longrightarrow> cons s ! i = CCommitted k l \<Longrightarrow>
    step s (s\<lparr>broker := broker s\<lparr>Consumed := Consumed (broker s) + l, Batches := Batches (broker s) + 1\<rparr>,
      cons := (cons s)[i := CLoop (k + 1)]\<rparr>)"

inductive reachable :: "broker \<Rightarrow> bus \<Rightarrow> bool" for b where
  start: "reachable b (Start b)"
| run: "reachable b s \<Longrightarrow> step s t \<Longrightarrow> reachable b t"

section \<open>Specification\<close>

text \<open>The log of a partition is the retained end of its history; committed lies in it.\<close>

definition part_ok :: "partition \<Rightarrow> click_event list \<Rightarrow> bool" where
  "part_ok p h \<longleftrightarrow> 0 \<le> baseOff p \<and> p_log p = drop (nat (baseOff p)) h \<and> p_end p = int (length h)
     \<and> baseOff p \<le> committed p \<and> committed p \<le> p_end p \<and> polled p \<le> p_end p
     \<and> length (p_log p) \<le> 2 * retention p"

text \<open>Everything before this offset has been handed out or is lost.\<close>

definition seen_off :: "partition \<Rightarrow> int" where
  "seen_off p = max (committed p) (polled p)"

text \<open>The events a consumer has taken and not yet given to the sink.\<close>

fun in_hand :: "consume_pc \<Rightarrow> nat" where
  "in_hand (CPolled k batch nxt) = length batch"
| "in_hand (CChecked k batch nxt) = length batch"
| "in_hand (CDone l) = l"
| "in_hand _ = 0"

fun taken :: "consume_pc \<Rightarrow> (click_event list \<times> int) option" where
  "taken (CPolled k batch nxt) = Some (batch, nxt)"
| "taken (CChecked k batch nxt) = Some (batch, nxt)"
| "taken _ = None"

text \<open>Where a consumer is agrees with the offset last polled; while it has a batch in hand its
  partition shows a lag.\<close>

definition pc_ok :: "partition \<Rightarrow> consume_pc \<Rightarrow> bool" where
  "pc_ok p c \<longleftrightarrow> (case c of
      CPolled k batch nxt \<Rightarrow> nxt = polled p
    | CChecked k batch nxt \<Rightarrow> nxt = polled p
    | CSunk k l nxt \<Rightarrow> nxt = polled p
    | CDone l \<Rightarrow> True
    | _ \<Rightarrow> polled p \<le> committed p)
    \<and> (0 < in_hand c \<and> 0 < retention p \<longrightarrow> committed p < p_end p)"

text \<open>The offsets \<open>os\<close> whose events went to the sink, with the batch in hand after them.\<close>

definition offsets_ok :: "partition \<Rightarrow> click_event list \<Rightarrow> consume_pc \<Rightarrow> nat list \<Rightarrow> bool" where
  "offsets_ok p h c os \<longleftrightarrow> sorted_wrt (<) os
     \<and> int (length os) + int (lost p) + int (in_hand c) = seen_off p
     \<and> (case taken c of
          None \<Rightarrow> \<forall>j\<in>set os. int j < seen_off p
        | Some (batch, nxt) \<Rightarrow> int (length batch) \<le> nxt \<and> nxt \<le> int (length h)
            \<and> batch = take (length batch) (drop (nat nxt - length batch) h)
            \<and> (\<forall>j\<in>set os. j < nat nxt - length batch))"

definition delivery_ok :: "partition \<Rightarrow> click_event list \<Rightarrow> click_event list \<Rightarrow> consume_pc \<Rightarrow> bool" where
  "delivery_ok p h d c \<longleftrightarrow> part_ok p h \<and> pc_ok p c \<and>
     (\<exists>os. offsets_ok p h c os \<and> d = map ((!) h) os)"

section \<open>Lemmas on partitions\<close>

lemma part_ok_append:
  assumes "part_ok p h"
  shows "part_ok (p_append e p) (h @ [e])"
proof (cases "length (p_log p @ [e]) \<le> 2 * retention p")
  case True
  then show ?thesis using assms
    by (auto simp: part_ok_def p_append_def Let_def p_end_def)
next
  case False
  have l: "int (length (p_log p)) = int (length h) - baseOff p" "baseOff p \<le> int (length h)"
    using assms by (auto simp: part_ok_def p_end_def)
  have d: "nat (baseOff p + int (Suc (length (p_log p)) - retention p))
      = (Suc (length (p_log p)) - retention p) + nat (baseOff p)"
    using assms by (simp add: part_ok_def nat_add_distrib)
  have "drop (Suc (length (p_log p)) - retention p) (p_log p @ [e]) =
      drop (nat (baseOff p + int (Suc (length (p_log p)) - retention p))) (h @ [e])"
  proof -
    have "nat (baseOff p) - length h = 0" using l(2) by linarith
    then have "p_log p @ [e] = drop (nat (baseOff p)) (h @ [e])" using assms by (simp add: part_ok_def)
    then show ?thesis unfolding d drop_drop [symmetric] by simp
  qed
  then show ?thesis using False assms l
    by (auto simp: part_ok_def p_append_def Let_def p_end_def)
qed

lemma p_append_simps [simp]:
  "polled (p_append e p) = polled p" "retention (p_append e p) = retention p"
  "committed p \<le> committed (p_append e p)"
  by (auto simp: p_append_def Let_def)

text \<open>A trim counts as lost what nobody had seen.\<close>

lemma seen_append: "seen_off (p_append e p) - int (lost (p_append e p)) = seen_off p - int (lost p)"
  and seen_append_mono: "seen_off p \<le> seen_off (p_append e p)"
  by (auto simp: p_append_def Let_def seen_off_def)

lemma offsets_append:
  assumes "offsets_ok p h c os"
  shows "offsets_ok (p_append e p) (h @ [e]) c os"
  using assms seen_append [of e p] seen_append_mono [of p e]
  by (cases "taken c") (auto simp: offsets_ok_def)

lemma lag_append: "committed p < p_end p \<Longrightarrow> 0 < retention p \<Longrightarrow> committed (p_append e p) < p_end (p_append e p)"
  by (auto simp: p_append_def Let_def p_end_def)

lemma pc_ok_append: "pc_ok p c \<Longrightarrow> pc_ok (p_append e p) c"
  using lag_append [of p e] by (auto simp: pc_ok_def split: consume_pc.splits intro: order_trans)

lemma offsets_in_history:
  assumes "part_ok p h" "offsets_ok p h c os" "j \<in> set os"
  shows "j < length h"
  using assms by (cases "taken c") (auto simp: part_ok_def offsets_ok_def seen_off_def max_def split: if_splits)

lemma delivery_append:
  assumes "delivery_ok p h d c"
  shows "delivery_ok (p_append e p) (h @ [e]) d c"
proof -
  from assms obtain os where os: "part_ok p h" "pc_ok p c" "offsets_ok p h c os" "d = map ((!) h) os"
    by (auto simp: delivery_ok_def)
  have "map ((!) h) os = map ((!) (h @ [e])) os"
    using offsets_in_history [OF os(1,3)] by (auto simp: nth_append)
  with os show ?thesis unfolding delivery_ok_def
    using part_ok_append pc_ok_append offsets_append by metis
qed

lemma poll_ok:
  assumes "part_ok p h" "0 \<le> limit"
  shows "\<exists>batch nxt p'. poll limit p = Some ((batch, nxt), p') \<and> part_ok p' h \<and>
    (if committed p < p_end p \<and> 0 < limit
     then p' = p\<lparr>polled := nxt\<rparr> \<and> nxt = committed p + int (length batch) \<and> 0 < length batch \<and> nxt \<le> int (length h)
       \<and> batch = take (length batch) (drop (nat (committed p)) h) \<and> int (length batch) = min limit (p_end p - committed p)
     else batch = [])"
proof (cases "p_end p \<le> committed p")
  case True
  then show ?thesis using assms by (simp add: poll_def)
next
  case False
  define start where "start = committed p - baseOff p"
  define stp where "stp = min (start + limit) (int (length (p_log p)))"
  define b where "b = drop (nat start) (take (nat stp) (p_log p))"
  have s: "0 \<le> start" "start \<le> stp" using assms False by (auto simp: part_ok_def p_end_def start_def stp_def)
  then have poll: "poll limit p = Some ((b, baseOff p + stp), p\<lparr>polled := baseOff p + stp\<rparr>)"
    using False unfolding poll_def Let_def start_def [symmetric] stp_def [symmetric] b_def [symmetric] by simp
  have "stp \<le> int (length (p_log p))" by (simp add: stp_def)
  then have "int (length b) = stp - start" using s unfolding b_def length_drop length_take by linarith
  then have nxt: "baseOff p + stp = committed p + int (length b)" by (simp add: start_def)
  have "p_log p = drop (nat (baseOff p)) h" "0 \<le> baseOff p" using assms by (auto simp: part_ok_def)
  moreover have "nat start + nat (baseOff p) = nat (committed p)" using s assms by (auto simp: part_ok_def start_def)
  ultimately have b: "b = take (length b) (drop (nat (committed p)) h)"
    using s unfolding b_def by (simp add: drop_take) (simp add: min_def)
  have stp: "stp \<le> int (length h) - baseOff p" using assms by (auto simp: part_ok_def p_end_def stp_def)
  then have ok: "part_ok (p\<lparr>polled := baseOff p + stp\<rparr>) h" using assms by (auto simp: part_ok_def p_end_def)
  have "int (length b) = min limit (p_end p - committed p)"
    using nxt by (simp only: stp_def start_def p_end_def)
  moreover from this have "b = []" if "\<not> 0 < limit" using that assms(2) False by simp
  ultimately show ?thesis using poll nxt b stp ok False by auto
qed

lemma delivery_poll:
  assumes "delivery_ok p h d (CLoop k)" "poll batchSize p = Some ((batch, nxt), p')" "batch \<noteq> []"
  shows "delivery_ok p' h d (CPolled k batch nxt)"
proof -
  from assms(1) obtain os where os: "part_ok p h" "polled p \<le> committed p" "offsets_ok p h (CLoop k) os" "d = map ((!) h) os"
    by (auto simp: delivery_ok_def pc_ok_def)
  from poll_ok [OF os(1), of batchSize] assms(2,3) have r: "part_ok p' h" "p' = p\<lparr>polled := nxt\<rparr>"
    "nxt = committed p + int (length batch)" "nxt \<le> int (length h)" "committed p < p_end p"
    "batch = take (length batch) (drop (nat (committed p)) h)"
    by (auto simp: batchSize_def split: if_splits)
  have c: "0 \<le> committed p" using os(1) by (simp add: part_ok_def)
  then have n: "nat nxt - length batch = nat (committed p)" using r(3) by simp
  have "offsets_ok p' h (CPolled k batch nxt) os"
    using os(2,3) r c n by (auto simp: offsets_ok_def seen_off_def)
  moreover have "committed p' < p_end p'" using r(2,5) by (simp add: p_end_def)
  ultimately show ?thesis using os(4) r(1,2) by (auto simp: delivery_ok_def pc_ok_def)
qed

lemma delivery_sink:
  assumes "delivery_ok p h d (CChecked k batch nxt)"
  shows "delivery_ok p h (d @ batch) (CSunk k (length batch) nxt)"
proof -
  from assms obtain os where os: "part_ok p h" "nxt = polled p" "offsets_ok p h (CChecked k batch nxt) os" "d = map ((!) h) os"
    by (auto simp: delivery_ok_def pc_ok_def)
  let ?s = "nat nxt - length batch" let ?new = "[?s..<nat nxt]"
  from os(3) have b: "int (length batch) \<le> nxt" "nxt \<le> int (length h)" "batch = take (length batch) (drop ?s h)"
    "\<forall>j\<in>set os. j < ?s" by (simp_all add: offsets_ok_def)
  then have bn: "?s + length batch = nat nxt" "nat nxt \<le> length h" by linarith+
  have "length batch = length ?new" using bn by simp
  moreover have "batch ! j = map ((!) h) ?new ! j" if "j < length batch" for j
  proof -
    have "batch ! j = take (length batch) (drop ?s h) ! j" using b(3) by (rule arg_cong)
    then show ?thesis using that bn by simp
  qed
  ultimately have m: "batch = map ((!) h) ?new" by (intro nth_equalityI) auto
  have "offsets_ok p h (CSunk k (length batch) nxt) (os @ ?new)"
    using os(2,3) b bn by (fastforce simp: offsets_ok_def seen_off_def sorted_wrt_append less_max_iff_disj)
  moreover have "d @ batch = map ((!) h) (os @ ?new)" using os(4) m by (metis map_append)
  ultimately show ?thesis using os(1,2) by (auto simp: delivery_ok_def pc_ok_def)
qed

lemma delivery_commit:
  assumes "delivery_ok p h d (CSunk k l nxt)"
  shows "delivery_ok (commit nxt p) h d (CCommitted k l)"
  using assms by (auto simp: delivery_ok_def pc_ok_def part_ok_def p_end_def commit_def offsets_ok_def seen_off_def)

lemma delivery_moves:
  "delivery_ok p h d CWait \<Longrightarrow> delivery_ok p h d (CLoop j)"
  "delivery_ok p h d CWait \<Longrightarrow> delivery_ok p h d (CDone 0)"
  "delivery_ok p h d (CLoop k) \<Longrightarrow> delivery_ok p h d CWait"
  "delivery_ok p h d (CPolled k batch nxt) \<Longrightarrow> delivery_ok p h d (CChecked k batch nxt)"
  "delivery_ok p h d (CCommitted k l) \<Longrightarrow> delivery_ok p h d (CLoop j)"
  by (auto simp: delivery_ok_def pc_ok_def offsets_ok_def)

lemma delivery_abandon:
  assumes "delivery_ok p h d (CPolled k batch nxt)"
  shows "delivery_ok p h d (CDone (length batch))"
  using assms by (fastforce simp: delivery_ok_def pc_ok_def offsets_ok_def seen_off_def)

section \<open>Lemmas on the running bus\<close>

definition delivered :: "nat \<Rightarrow> bus \<Rightarrow> click_event list" where
  "delivered i s = concat (map snd (filter (\<lambda>c. fst c = i) (sunk s)))"

definition shape_ok :: "bus \<Rightarrow> bool" where
  "shape_ok s \<longleftrightarrow> length (cons s) = length (parts (broker s)) \<and> length (hist s) = length (parts (broker s))
     \<and> (\<forall>c\<in>set (sunk s). fst c < length (parts (broker s)))"

definition partitions_ok :: "bus \<Rightarrow> bool" where
  "partitions_ok s \<longleftrightarrow> (\<forall>i<length (parts (broker s)).
     delivery_ok (parts (broker s) ! i) (hist s ! i) (delivered i s) (cons s ! i))"

fun held :: "dispatch_pc \<Rightarrow> click_event list" where
  "held (DHave e) = [e]"
| "held _ = []"

fun routed :: "dispatch_pc \<Rightarrow> click_event list" where
  "routed (DRouted e) = [e]"
| "routed _ = []"

definition ring_ok :: "broker \<Rightarrow> click_event list \<Rightarrow> bool" where
  "ring_ok b es \<longleftrightarrow> recentN b = length es \<and> length (recent b) = recentSize
     \<and> (\<forall>j<length es. length es \<le> j + recentSize \<longrightarrow> recent b ! (j mod recentSize) = es ! j)"

definition flow_ok :: "bus \<Rightarrow> bool" where
  "flow_ok s \<longleftrightarrow> sent s = pushed s @ routed (disp s) @ held (disp s) @ ingress (broker s)
     \<and> Produced (broker s) = length (sent s) \<and> length (ingress (broker s)) \<le> ingressBuffer
     \<and> ring_ok (broker s) (pushed s)
     \<and> (\<forall>i<length (parts (broker s)). hist s ! i =
          filter (\<lambda>e. nat (part_of (length (parts (broker s))) (ev_Code e)) = i) (pushed s @ routed (disp s)))"

interpretation topic: router part_of int "\<lambda>n. 0 < n"
  by unfold_locales (simp add: part_of_def)

lemma length_with_part [simp]: "length (parts (with_part i p b)) = length (parts b)"
  by (simp add: with_part_def)

lemma with_part_simps [simp]:
  "parts (with_part i p b) = (parts b)[i := p]" "ingress (with_part i p b) = ingress b"
  "Produced (with_part i p b) = Produced b" "recent (with_part i p b) = recent b"
  "recentN (with_part i p b) = recentN b"
  by (simp_all add: with_part_def)

lemma Produce_simps [simp]:
  "parts (Produce e b) = parts b" "recent (Produce e b) = recent b" "recentN (Produce e b) = recentN b"
  by (simp_all add: Produce_def)

lemma pushRecent_simps [simp]:
  "parts (pushRecent e b) = parts b" "ingress (pushRecent e b) = ingress b" "Produced (pushRecent e b) = Produced b"
  by (simp_all add: pushRecent_def)

lemma Stop_simps [simp]:
  "parts (Stop b) = parts b" "ingress (Stop b) = ingress b" "Produced (Stop b) = Produced b"
  "recent (Stop b) = recent b" "recentN (Stop b) = recentN b"
  by (simp_all add: Stop_def)

lemma route_event_eq:
  assumes "route_event e b = Some b'"
  shows "b' = with_part (nat (part_of (length (parts b)) (ev_Code e)))
      (p_append e (parts b ! nat (part_of (length (parts b)) (ev_Code e)))) b \<and>
    nat (part_of (length (parts b)) (ev_Code e)) < length (parts b)"
  using assms topic.slot_exists [of "length (parts b)" "parts b" "ev_Code e"]
  by (auto simp: route_event_def with_part_def Let_def split: if_splits)

lemma shape_step: "step s t \<Longrightarrow> shape_ok s \<Longrightarrow> shape_ok t"
  by (induction rule: step.induct) (auto simp: shape_ok_def dest!: route_event_eq)

lemma ring_push:
  assumes "ring_ok b es"
  shows "ring_ok (pushRecent e b) (es @ [e])"
  unfolding ring_ok_def
proof (intro conjI allI impI)
  fix j assume j: "j < length (es @ [e])" "length (es @ [e]) \<le> j + recentSize"
  show "recent (pushRecent e b) ! (j mod recentSize) = (es @ [e]) ! j"
  proof (cases "j = length es")
    case True
    then show ?thesis using assms by (simp add: ring_ok_def pushRecent_def recentSize_def)
  next
    case False
    then have "j < length es" "length es - j < recentSize" "0 < length es - j" using j by auto
    then have "length es mod recentSize \<noteq> j mod recentSize"
      by (metis less_imp_le_nat mod_eq_dvd_iff_nat nat_dvd_not_less)
    then show ?thesis using assms False j by (simp add: ring_ok_def pushRecent_def nth_append)
  qed
qed (use assms in \<open>simp_all add: ring_ok_def pushRecent_def\<close>)

lemma ring_ok_cong: "recentN b' = recentN b \<Longrightarrow> recent b' = recent b \<Longrightarrow> ring_ok b' es = ring_ok b es"
  by (simp add: ring_ok_def)


lemma flow_cong:
  assumes "flow_ok s" "disp t = disp s" "sent t = sent s" "hist t = hist s" "pushed t = pushed s"
    "length (parts (broker t)) = length (parts (broker s))" "ingress (broker t) = ingress (broker s)"
    "Produced (broker t) = Produced (broker s)" "recent (broker t) = recent (broker s)"
    "recentN (broker t) = recentN (broker s)"
  shows "flow_ok t"
  using assms by (simp add: flow_ok_def ring_ok_def)

lemma flow_step: "step s t \<Longrightarrow> shape_ok s \<Longrightarrow> flow_ok s \<Longrightarrow> flow_ok t"
proof (induction rule: step.induct)
  case (produce s e)
  then show ?case by (simp add: flow_ok_def Produce_def ring_ok_def)
next
  case (receive s e q)
  then show ?case by (simp add: flow_ok_def ring_ok_def)
next
  case (route s e b i)
  from route_event_eq [OF route(2)] route(1,3-5) show ?case
    by (auto simp: flow_ok_def ring_ok_def shape_ok_def nth_list_update)
next
  case (recent s e)
  then show ?case using ring_push [of "broker s" "pushed s" e] by (simp add: flow_ok_def)
next
  case (dispatch_stop s)
  then show ?case by (simp add: flow_ok_def)
qed (erule flow_cong, simp_all)+

lemma delivered_append:
  "delivered i (s\<lparr>cons := cs, sunk := sunk s @ [(j, batch)]\<rparr>) = delivered i s @ (if j = i then batch else [])"
  by (simp add: delivered_def)

lemma delivered_cong: "sunk t = sunk s \<Longrightarrow> delivered i t = delivered i s"
  by (simp add: delivered_def)

text \<open>A step of consumer \<open>i\<close> touches its own partition only.\<close>

lemma partitions_consumer:
  assumes "partitions_ok s" "shape_ok s" "i < length (parts (broker s))"
    and "parts (broker t) = (parts (broker s))[i := p]" "cons t = (cons s)[i := c]" "hist t = hist s"
    and "\<And>j. j \<noteq> i \<Longrightarrow> delivered j t = delivered j s"
    and "delivery_ok p (hist s ! i) (delivered i t) c"
  shows "partitions_ok t"
  using assms by (auto simp: partitions_ok_def shape_ok_def nth_list_update)

lemma partitions_pc:
  assumes "partitions_ok s" "shape_ok s" "i < length (cons s)"
    and "delivery_ok (parts (broker s) ! i) (hist s ! i) (delivered i s) (cons s ! i)
      \<Longrightarrow> delivery_ok (parts (broker s) ! i) (hist s ! i) (delivered i s) c"
  shows "partitions_ok (s\<lparr>cons := (cons s)[i := c]\<rparr>)"
  using assms
  by (auto simp: partitions_ok_def shape_ok_def nth_list_update delivered_cong [of "s\<lparr>cons := (cons s)[i := c]\<rparr>" s])

lemma partitions_at:
  "partitions_ok s \<Longrightarrow> shape_ok s \<Longrightarrow> i < length (cons s) \<Longrightarrow>
     delivery_ok (parts (broker s) ! i) (hist s ! i) (delivered i s) (cons s ! i)"
  by (simp add: partitions_ok_def shape_ok_def)

lemma partitions_cong:
  assumes "partitions_ok s" "parts (broker t) = parts (broker s)" "cons t = cons s" "hist t = hist s" "sunk t = sunk s"
  shows "partitions_ok t"
  using assms delivered_cong [OF assms(5)] by (simp add: partitions_ok_def)

lemma partitions_route:
  assumes "disp s = DHave e" "route_event e (broker s) = Some b"
    "i = nat (part_of (length (parts (broker s))) (ev_Code e))" "shape_ok s" "partitions_ok s"
  shows "partitions_ok (s\<lparr>broker := b, disp := DRouted e, hist := (hist s)[i := hist s ! i @ [e]]\<rparr>)"
    (is "partitions_ok ?t")
  unfolding partitions_ok_def
proof (intro allI impI)
  from route_event_eq [OF assms(2)] assms(3) have
    b: "parts b = (parts (broker s))[i := p_append e (parts (broker s) ! i)]" and i: "i < length (parts (broker s))"
    by simp_all
  fix j assume "j < length (parts (broker ?t))"
  then have j: "j < length (parts (broker s))" using b by simp
  have "delivery_ok (parts (broker s) ! j) (hist s ! j) (delivered j s) (cons s ! j)"
    using assms(5) j by (simp add: partitions_ok_def)
  moreover have "delivered j ?t = delivered j s" by (simp add: delivered_def)
  moreover have "length (hist s) = length (parts (broker s))" using assms(4) by (simp add: shape_ok_def)
  ultimately show "delivery_ok (parts (broker ?t) ! j) (hist ?t ! j) (delivered j ?t) (cons ?t ! j)"
    using i j b delivery_append by (cases "j = i") simp_all
qed

lemma partitions_step: "step s t \<Longrightarrow> shape_ok s \<Longrightarrow> partitions_ok s \<Longrightarrow> partitions_ok t"
proof (induction rule: step.induct)
  case (route s e b i)
  then show ?case by (intro partitions_route)
next
  case (tick i s)
  then show ?case by (intro partitions_pc) (simp_all only: delivery_moves(1))
next
  case (consume_stop i s)
  then show ?case by (intro partitions_pc) (simp_all only: delivery_moves(2))
next
  case (loop_end i s k)
  then show ?case by (intro partitions_pc) (simp_all only: delivery_moves(3))
next
  case (poll_empty i s k nxt p)
  then show ?case by (intro partitions_pc) (simp_all only: delivery_moves(3))
next
  case (poll i s k batch nxt p)
  have "delivery_ok (parts (broker s) ! i) (hist s ! i) (delivered i s) (CLoop k)"
    using partitions_at [OF poll(7,6,1)] poll(2) by simp
  from delivery_poll [OF this poll(4,5)] poll(1,6) show ?case
    by (intro partitions_consumer [OF poll(7,6)]) (simp_all add: shape_ok_def delivered_def)
next
  case (abandon i s k batch nxt)
  then show ?case by (intro partitions_pc) (simp_all only: delivery_abandon)
next
  case (go_on i s k batch nxt)
  then show ?case by (intro partitions_pc) (simp_all only: delivery_moves(4))
next
  case (sink i s k batch nxt)
  have "delivery_ok (parts (broker s) ! i) (hist s ! i) (delivered i s) (CChecked k batch nxt)"
    using partitions_at [OF sink(4,3,1)] sink(2) by simp
  from delivery_sink [OF this] sink(1,3) show ?case
    by (intro partitions_consumer [OF sink(4,3), where i = i and p = "parts (broker s) ! i" and c = "CSunk k (length batch) nxt"])
      (simp_all add: shape_ok_def delivered_append)
next
  case (commit i s k l nxt)
  have "delivery_ok (parts (broker s) ! i) (hist s ! i) (delivered i s) (CSunk k l nxt)"
    using partitions_at [OF commit(4,3,1)] commit(2) by simp
  from delivery_commit [OF this] commit(1,3) show ?case
    by (intro partitions_consumer [OF commit(4,3)]) (simp_all add: shape_ok_def delivered_def)
next
  case (count i s k l)
  have "delivery_ok (parts (broker s) ! i) (hist s ! i) (delivered i s) (CCommitted k l)"
    using partitions_at [OF count(4,3,1)] count(2) by simp
  from delivery_moves(5) [OF this] count(1,3) show ?case
    by (intro partitions_consumer [OF count(4,3), where i = i and p = "parts (broker s) ! i" and c = "CLoop (k + 1)"])
      (simp_all add: shape_ok_def delivered_def)
next
  case (produce s e)
  from partitions_cong [OF produce(2)] show ?case by simp
next
  case (stop s)
  from partitions_cong [OF stop(2)] show ?case by simp
next
  case (receive s e q)
  from partitions_cong [OF receive(4)] show ?case by simp
next
  case (recent s e)
  from partitions_cong [OF recent(3)] show ?case by simp
next
  case (dispatch_stop s)
  from partitions_cong [OF dispatch_stop(4)] show ?case by simp
qed

lemma Start_ok: "shape_ok (Start (NewBroker tp n ret)) \<and> flow_ok (Start (NewBroker tp n ret))
    \<and> partitions_ok (Start (NewBroker tp n ret))"
  by (auto simp: shape_ok_def flow_ok_def partitions_ok_def Start_def NewBroker_def ring_ok_def delivered_def
      delivery_ok_def part_ok_def pc_ok_def offsets_ok_def seen_off_def p_end_def)

lemma reachable_ok:
  "reachable (NewBroker tp n ret) s \<Longrightarrow> shape_ok s \<and> flow_ok s \<and> partitions_ok s"
proof (induction rule: reachable.induct)
  case start
  then show ?case by (rule Start_ok)
next
  case (run s t)
  then show ?case using shape_step flow_step partitions_step by blast
qed

lemma parts_step: "step s t \<Longrightarrow> length (parts (broker t)) = length (parts (broker s))"
  by (induction rule: step.induct) (auto dest!: route_event_eq)

lemma parts_reachable: "reachable (NewBroker tp n ret) s \<Longrightarrow> length (parts (broker s)) = n"
  by (induction rule: reachable.induct) (simp_all add: parts_step, simp add: Start_def NewBroker_def)

lemma retention_step:
  "step s t \<Longrightarrow> shape_ok s \<Longrightarrow> \<forall>p\<in>set (parts (broker s)). retention p = ret \<Longrightarrow> \<forall>p\<in>set (parts (broker t)). retention p = ret"
proof (induction rule: step.induct)
  case (route s e b i)
  from route_event_eq [OF route(2)] route(5) show ?case
    using nth_mem by (auto dest!: set_update_subset_insert [THEN subsetD])
next
  case (poll i s k batch nxt p)
  have "retention p = retention (parts (broker s) ! i)" using poll(4) by (auto simp: poll_def Let_def split: if_splits)
  moreover have "i < length (parts (broker s))" using poll(1,6) by (simp add: shape_ok_def)
  ultimately show ?case using poll(7) nth_mem by (auto dest!: set_update_subset_insert [THEN subsetD])
next
  case (commit i s k l nxt)
  then show ?case using nth_mem by (auto simp: shape_ok_def commit_def dest!: set_update_subset_insert [THEN subsetD])
qed simp_all

lemma retention_reachable:
  "reachable (NewBroker tp n ret) s \<Longrightarrow> \<forall>p\<in>set (parts (broker s)). retention p = ret"
proof (induction rule: reachable.induct)
  case start
  then show ?case by (simp add: Start_def NewBroker_def)
next
  case (run s t)
  then show ?case using retention_step reachable_ok by blast
qed

subsection \<open>Statistics\<close>

lemma Stats_fold:
  "TotalLag (fold add_stat (List.enumerate j ps) s) = TotalLag s + (\<Sum>p\<leftarrow>ps. p_end p - committed p)
   \<and> s_Lost (fold add_stat (List.enumerate j ps) s) = s_Lost s + (\<Sum>p\<leftarrow>ps. lost p)"
  by (induction ps arbitrary: j s) (simp_all add: add_stat_def part_stat_def Let_def)

lemma Stats_sums:
  "TotalLag (Stats b) = (\<Sum>p\<leftarrow>parts b. p_end p - committed p)" "s_Lost (Stats b) = (\<Sum>p\<leftarrow>parts b. lost p)"
  using Stats_fold by (simp_all add: Stats_def)

lemma sum_list_zero_iff:
  "\<forall>x\<in>set xs. (0::int) \<le> f x \<Longrightarrow> (\<Sum>x\<leftarrow>xs. f x) = 0 \<longleftrightarrow> (\<forall>x\<in>set xs. f x = 0)"
  using sum_list_nonneg_eq_0_iff [of "map f xs"] by auto

subsection \<open>Order\<close>

lemma subseq_offsets:
  "sorted_wrt (<) os \<Longrightarrow> \<forall>j\<in>set os. j < length h \<Longrightarrow> subseq (map ((!) h) os) h"
proof (induction h arbitrary: os rule: rev_induct)
  case (snoc x h)
  show ?case
  proof (cases os rule: rev_cases)
    case (snoc os' j)
    show ?thesis
    proof (cases "j = length h")
      case True
      have l: "\<forall>k\<in>set os'. k < length h" using snoc True snoc.prems(1) by (auto simp: sorted_wrt_append)
      then have "map ((!) (h @ [x])) os' = map ((!) h) os'" by (auto simp: nth_append)
      moreover have "subseq (map ((!) h) os') h" using snoc.IH [of os'] snoc.prems(1) snoc l by (simp add: sorted_wrt_append)
      ultimately have "subseq (map ((!) (h @ [x])) os') h" by (simp only:)
      then show ?thesis using snoc True by (simp add: list_emb_append_mono)
    next
      case False
      have l: "\<forall>k\<in>set os. k < length h"
      proof
        fix k assume "k \<in> set os"
        then have "k \<le> j" using snoc snoc.prems(1) by (auto simp: sorted_wrt_append)
        moreover have "j < length h" using snoc snoc.prems(2) False by auto
        ultimately show "k < length h" by simp
      qed
      then have "map ((!) (h @ [x])) os = map ((!) h) os" by (auto simp: nth_append)
      with snoc.IH [OF snoc.prems(1) l] have "subseq (map ((!) (h @ [x])) os) h" by (simp only:)
      then show ?thesis by (metis append_Nil2 list_emb_append_mono list_emb_Nil)
    qed
  qed simp
qed simp

lemma all_offsets:
  assumes "sorted_wrt (<) os" "\<forall>j\<in>set os. j < n" "length os = n"
  shows "os = [0..<n]"
proof -
  have d: "distinct os" using assms(1) by (simp add: strict_sorted_iff)
  have "set os = {..<n}" using assms d by (intro card_subset_eq) (auto simp: distinct_card)
  then show ?thesis using assms(1) by (intro sorted_distinct_set_unique) (auto simp: strict_sorted_iff lessThan_atLeast0)
qed

lemma delivery_offsets:
  assumes "delivery_ok p h d c"
  shows "\<exists>os. sorted_wrt (<) os \<and> (\<forall>j\<in>set os. j < length h) \<and> d = map ((!) h) os
    \<and> int (length os) + int (lost p) + int (in_hand c) = seen_off p \<and> seen_off p \<le> int (length h)"
proof -
  from assms obtain os where os: "part_ok p h" "offsets_ok p h c os" "d = map ((!) h) os"
    by (auto simp: delivery_ok_def)
  moreover have "seen_off p \<le> int (length h)" using os(1) by (auto simp: part_ok_def seen_off_def)
  ultimately show ?thesis using offsets_in_history [OF os(1,2)] by (auto simp: offsets_ok_def)
qed

lemma delivery_subseq: "delivery_ok p h d c \<Longrightarrow> subseq d h"
  using delivery_offsets [of p h d c] subseq_offsets by blast

lemma delivery_complete:
  assumes "delivery_ok p h d c" "lost p = 0" "0 < retention p" "committed p = p_end p"
  shows "d = h"
proof -
  from delivery_offsets [OF assms(1)] obtain os where os: "sorted_wrt (<) os" "\<forall>j\<in>set os. j < length h"
    "d = map ((!) h) os" "int (length os) + int (lost p) + int (in_hand c) = seen_off p" "seen_off p \<le> int (length h)"
    by blast
  have "in_hand c = 0" using assms by (auto simp: delivery_ok_def pc_ok_def)
  moreover have "int (length h) \<le> seen_off p" using assms(1,4) by (auto simp: delivery_ok_def part_ok_def seen_off_def)
  ultimately have "length os = length h" using os(4,5) assms(2) by simp
  from all_offsets [OF os(1,2) this] os(3) show ?thesis by (simp add: map_nth)
qed

lemma filter_concat_calls:
  "\<forall>c\<in>set cs. fst c \<noteq> i \<longrightarrow> (\<forall>e\<in>set (snd c). \<not> P e) \<Longrightarrow>
    filter P (concat (map snd cs)) = filter P (concat (map snd (filter (\<lambda>c. fst c = i) cs)))"
  by (induction cs) (auto simp: filter_empty_conv)

lemma subseq_set: "subseq xs ys \<Longrightarrow> x \<in> set xs \<Longrightarrow> x \<in> set ys"
  by (induction rule: list_emb.induct) auto

lemma flow_hist:
  "flow_ok s \<Longrightarrow> i < length (parts (broker s)) \<Longrightarrow> hist s ! i =
    filter (\<lambda>e. nat (part_of (length (parts (broker s))) (ev_Code e)) = i) (pushed s @ routed (disp s))"
  unfolding flow_ok_def by blast

lemma flow_sent: "flow_ok s \<Longrightarrow> sent s = (pushed s @ routed (disp s)) @ held (disp s) @ ingress (broker s)"
  by (simp add: flow_ok_def)

lemma sunk_routed:
  assumes "shape_ok s" "flow_ok s" "partitions_ok s" "(i, batch) \<in> set (sunk s)" "e \<in> set batch"
  shows "nat (part_of (length (parts (broker s))) (ev_Code e)) = i"
proof -
  have i: "i < length (parts (broker s))" using assms(1,4) by (auto simp: shape_ok_def)
  have "e \<in> set (delivered i s)" unfolding delivered_def set_concat set_map set_filter
    using assms(4,5) by (metis (mono_tags, lifting) UN_I fst_conv image_eqI mem_Collect_eq snd_conv)
  moreover have "subseq (delivered i s) (hist s ! i)"
    using assms(3) i delivery_subseq unfolding partitions_ok_def by blast
  ultimately have "e \<in> set (hist s ! i)" by (auto dest: subseq_set)
  then show ?thesis unfolding flow_hist [OF assms(2) i] by auto
qed

lemma code_order:
  assumes "shape_ok s" "flow_ok s" "partitions_ok s" "parts (broker s) \<noteq> []"
  shows "subseq (filter (\<lambda>e. ev_Code e = c) (concat (map snd (sunk s)))) (filter (\<lambda>e. ev_Code e = c) (sent s))"
proof -
  let ?n = "length (parts (broker s))" let ?i = "nat (part_of ?n c)" let ?f = "filter (\<lambda>e. ev_Code e = c)"
  have i: "?i < ?n" using topic.slot_exists [of ?n "parts (broker s)" c] assms(4) by simp
  have "?f (concat (map snd (sunk s))) = ?f (delivered ?i s)"
    unfolding delivered_def using sunk_routed [OF assms(1-3)] by (intro filter_concat_calls) fastforce
  moreover have "subseq (delivered ?i s) (hist s ! ?i)"
    using assms(3) i delivery_subseq unfolding partitions_ok_def by blast
  moreover have "?f (hist s ! ?i) = ?f (pushed s @ routed (disp s))"
  proof -
    have "(\<lambda>e. nat (part_of ?n (ev_Code e)) = ?i \<and> ev_Code e = c) = (\<lambda>e. ev_Code e = c)" by auto
    then show ?thesis unfolding flow_hist [OF assms(2) i] filter_filter by (rule arg_cong)
  qed
  moreover have "subseq (?f (pushed s @ routed (disp s))) (?f (sent s))"
    unfolding flow_sent [OF assms(2)] filter_append [of _ "pushed s @ routed (disp s)"]
    by (rule list_emb_append_mono [of _ _ _ "[]", simplified]) simp_all
  ultimately show ?thesis by (metis subseq_filter subseq_order.order_trans)
qed

lemma calls_mset:
  "\<forall>c\<in>set cs. fst c < (n::nat) \<Longrightarrow>
    mset (concat (map snd cs)) = (\<Sum>i<n. mset (concat (map snd (filter (\<lambda>c. fst c = i) cs))))"
proof (induction cs)
  case (Cons c cs)
  have "(\<Sum>i<n. mset (concat (map snd (filter (\<lambda>c. fst c = i) (c # cs)))))
    = (\<Sum>i<n. (if i = fst c then mset (snd c) else {#}) + mset (concat (map snd (filter (\<lambda>c. fst c = i) cs))))"
    by (intro sum.cong) auto
  moreover have "(\<Sum>i<n. if i = fst c then mset (snd c) else {#}) = mset (snd c)"
    using Cons.prems by (subst sum.delta) auto
  ultimately show ?case using Cons by (simp add: sum.distrib)
qed simp

lemma parts_mset:
  assumes "\<forall>e\<in>set xs. f e < (n::nat)"
  shows "mset xs = (\<Sum>i<n. mset (filter (\<lambda>e. f e = i) xs))"
  using assms
proof (induction xs)
  case (Cons x xs)
  have "(\<Sum>i<n. mset (filter (\<lambda>e. f e = i) (x # xs)))
    = (\<Sum>i<n. (if i = f x then {#x#} else {#}) + mset (filter (\<lambda>e. f e = i) xs))"
    by (intro sum.cong) auto
  then show ?case using Cons by (simp add: sum.distrib sum.delta)
qed simp

subsection \<open>The recent buffer\<close>

lemma recent_entry:
  assumes "ring_ok b es" "i < min (recentN b) recentSize"
  shows "recent b ! ((recentN b - 1 - i) mod recentSize) = rev es ! i" "i < length es"
  using assms by (auto simp: ring_ok_def rev_nth)

lemma recent_loop_eq:
  assumes "ring_ok b es"
  shows "recent_loop b n keep i out = out @ take (nat n - length out)
    (filter (\<lambda>e. case keep of None \<Rightarrow> True | Some f \<Rightarrow> f e) (drop i (take recentSize (rev es))))"
  using assms
proof (induction b n keep i out rule: recent_loop.induct)
  case (1 b n keep i out)
  let ?k = "\<lambda>e. case keep of None \<Rightarrow> True | Some f \<Rightarrow> f e" let ?l = "take recentSize (rev es)"
  have N: "recentN b = length es" using "1.prems" by (simp add: ring_ok_def)
  show ?case
  proof (cases "i < min (recentN b) recentSize \<and> int (length out) < n")
    case False
    have "drop i ?l = [] \<or> nat n - length out = 0"
    proof (cases "i < min (recentN b) recentSize")
      case True
      then have "nat n \<le> length out" using False by linarith
      then show ?thesis by simp
    qed (simp add: N min_def split: if_splits)
    moreover have "recent_loop b n keep i out = out" using False by (subst recent_loop.simps) (rule if_not_P)
    ultimately show ?thesis by auto
  next
    case True
    define e where "e = rev es ! i"
    note en = recent_entry [OF "1.prems" conjunct1 [OF True]]
    have d: "drop i ?l = e # drop (i + 1) ?l" using True en(2) Cons_nth_drop_Suc [of i ?l, symmetric] by (simp add: e_def)
    have "recent_loop b n keep i out = recent_loop b n keep (i + 1) (if ?k e then out @ [e] else out)"
      using True en(1) unfolding e_def by (subst recent_loop.simps) (simp add: Let_def)
    also have "\<dots> = (if ?k e then out @ [e] else out) @ take (nat n - length (if ?k e then out @ [e] else out))
        (filter ?k (drop (i + 1) ?l))"
      using "1.IH" [OF True refl "1.prems", unfolded en(1), folded e_def] .
    also have "\<dots> = out @ take (nat n - length out) (filter ?k (drop i ?l))"
    proof (cases "?k e")
      case k: True
      have "nat n - length out = Suc (nat n - Suc (length out))" using True by linarith
      then show ?thesis unfolding d using k by simp
    qed (simp add: d)
    finally show ?thesis .
  qed
qed

lemma Recent_eq:
  "ring_ok b es \<Longrightarrow> Recent n keep b =
     take (nat n) (filter (\<lambda>e. case keep of None \<Rightarrow> True | Some f \<Rightarrow> f e) (take recentSize (rev es)))"
  by (simp add: Recent_def recent_loop_eq)

subsection \<open>One tick of a consumer\<close>

text \<open>The inner loop of \<^verbatim>\<open>consume\<close> run without interruption, with the batches given to the
  sink; the first argument is the number of rounds left.\<close>

fun consume_batches :: "nat \<Rightarrow> partition \<Rightarrow> click_event list list \<Rightarrow> (partition \<times> click_event list list) option" where
  "consume_batches 0 p out = Some (p, out)"
| "consume_batches (Suc k) p out =
     (case poll batchSize p of
        None \<Rightarrow> None
      | Some ((batch, nxt), p') \<Rightarrow>
          if batch = [] then Some (p', out) else consume_batches k (commit nxt p') (out @ [batch]))"

definition consume_tick :: "partition \<Rightarrow> (partition \<times> click_event list list) option" where
  "consume_tick p = consume_batches maxBatchesPerTick p []"

lemma commit_poll_ok: "part_ok p h \<Longrightarrow> polled p = nxt \<Longrightarrow> part_ok (commit nxt p) h"
  by (auto simp: part_ok_def commit_def p_end_def)

lemma consume_batches_ok:
  assumes "part_ok p h"
  shows "\<exists>p' out'. consume_batches k p out = Some (p', out') \<and> part_ok p' h \<and>
    committed p' = committed p + min (4000 * int k) (int (length h) - committed p) \<and>
    concat out' = concat out @ take (4000 * k) (drop (nat (committed p)) h)"
  using assms
proof (induction k arbitrary: p out)
  case 0
  then have "committed p \<le> int (length h)" by (simp add: part_ok_def)
  with 0 show ?case by simp
next
  case (Suc k)
  have e: "p_end p = int (length h)" "0 \<le> committed p" "committed p \<le> int (length h)" using Suc.prems by (auto simp: part_ok_def)
  from poll_ok [OF Suc.prems, of batchSize] obtain batch nxt p1 where
    b: "poll batchSize p = Some ((batch, nxt), p1)" "part_ok p1 h" and
    c: "if committed p < p_end p \<and> 0 < batchSize
     then p1 = p\<lparr>polled := nxt\<rparr> \<and> nxt = committed p + int (length batch) \<and> 0 < length batch \<and> nxt \<le> int (length h)
       \<and> batch = take (length batch) (drop (nat (committed p)) h) \<and> int (length batch) = min batchSize (p_end p - committed p)
     else batch = []" by (auto simp: batchSize_def)
  show ?case
  proof (cases "committed p < p_end p")
    case False
    have "poll batchSize p = Some (([], committed p), p)" using False by (simp add: poll_def)
    then show ?thesis using False e Suc.prems by simp
  next
    case True
    with c have d: "p1 = p\<lparr>polled := nxt\<rparr>" "nxt = committed p + int (length batch)" "batch \<noteq> []"
      "batch = take (length batch) (drop (nat (committed p)) h)"
      "int (length batch) = min 4000 (int (length h) - committed p)"
      by (auto simp: batchSize_def e)
    have cm: "committed (commit nxt p1) = committed p + int (length batch)" using d(1,2) by (simp add: commit_def)
    have ok: "part_ok (commit nxt p1) h" using b(2) d(1) by (intro commit_poll_ok) auto
    have n: "nat (committed p + int (length batch)) = length batch + nat (committed p)" using e(2) by (simp add: nat_add_distrib)
    have "batch @ take (4000 * k) (drop (length batch + nat (committed p)) h) = take (4000 * Suc k) (drop (nat (committed p)) h)"
    proof (cases "length batch = 4000")
      case True
      then show ?thesis using d(4) by (simp add: take_add [of 4000] add.commute)
    next
      case False
      then have "int (length batch) = int (length h) - committed p" using d(5) by (auto simp: min_def split: if_splits)
      then have "length h - nat (committed p) = length batch" "length batch \<le> 4000" using d(5) e by auto
      then show ?thesis using d(4) by simp
    qed
    moreover have "int (length batch) + min (4000 * int k) (int (length h) - (committed p + int (length batch)))
        = min (4000 * int (Suc k)) (int (length h) - committed p)"
      using d(5) by (auto simp: min_def)
    ultimately show ?thesis using Suc.IH [OF ok, of "out @ [batch]"] b(1) d(3) cm n by (simp add: add.assoc)
  qed
qed

section \<open>Properties\<close>

text \<open>C3: at-most-once delivery in order: whatever the interleaving, the events that reached the
  sink from a partition are the events at strictly increasing offsets of its log, and
  every offset handed out so far was delivered, is in the consumer's hand, or is counted
  as lost.\<close>

theorem bus_delivery:
  assumes "reachable (NewBroker tp n ret) s" "i < n"
  shows "\<exists>os. sorted_wrt (<) os \<and> (\<forall>j\<in>set os. j < length (hist s ! i))
    \<and> delivered i s = map ((!) (hist s ! i)) os
    \<and> int (length os) + int (lost (parts (broker s) ! i)) + int (in_hand (cons s ! i))
        = max (committed (parts (broker s) ! i)) (polled (parts (broker s) ! i))
    \<and> max (committed (parts (broker s) ! i)) (polled (parts (broker s) ! i)) \<le> int (length (hist s ! i))"
  using delivery_offsets [of "parts (broker s) ! i" "hist s ! i" "delivered i s" "cons s ! i"]
    reachable_ok [OF assms(1)] parts_reachable [OF assms(1)] assms(2)
  unfolding partitions_ok_def seen_off_def by blast

theorem bus_delivery_witness:
  "\<exists>os. sorted_wrt (<) os \<and> delivered 0 (Start (NewBroker ''clicks'' 1 10)) = map ((!) (hist (Start (NewBroker ''clicks'' 1 10)) ! 0)) os"
  using bus_delivery [OF reachable.start, of 0 1 "''clicks''" 10] by auto

text \<open>C21: the events of one short code reach the sink in the order in which they were produced,
  across all partitions and consumers.\<close>

theorem bus_code_order:
  assumes "reachable (NewBroker tp n ret) s" "0 < n"
  shows "subseq (filter (\<lambda>e. ev_Code e = c) (concat (map snd (sunk s)))) (filter (\<lambda>e. ev_Code e = c) (sent s))"
  using reachable_ok [OF assms(1)] parts_reachable [OF assms(1)] assms(2) by (intro code_order) auto

theorem bus_code_order_witness:
  "subseq (filter (\<lambda>e. ev_Code e = ''a'') (concat (map snd (sunk (Start (NewBroker ''clicks'' 8 10))))))
     (filter (\<lambda>e. ev_Code e = ''a'') (sent (Start (NewBroker ''clicks'' 8 10))))"
  by (rule bus_code_order [OF reachable.start]) simp



text \<open>\<^verbatim>\<open>Flush\<close> can report success too early: an event that the dispatcher has taken from the
  queue and not yet appended is visible neither in the queue nor as lag.\<close>

theorem Flush_misses_event_in_flight:
  "\<exists>s. reachable (NewBroker ''clicks'' 1 5) s \<and> Flush [broker s] \<and> sent s = [zero_event] \<and> sunk s = [] \<and> hist s = [[]]"
proof -
  let ?s0 = "Start (NewBroker ''clicks'' 1 5)"
  let ?s1 = "?s0\<lparr>broker := Produce zero_event (broker ?s0),
      sent := if length (ingress (broker ?s0)) < ingressBuffer then sent ?s0 @ [zero_event] else sent ?s0\<rparr>"
  let ?s2 = "?s1\<lparr>broker := broker ?s1\<lparr>ingress := []\<rparr>, disp := DHave zero_event\<rparr>"
  have e: "ingress (broker ?s0) = []" "disp ?s1 = DIdle" "0 < ingressBuffer"
    by (simp_all add: Start_def NewBroker_def ingressBuffer_def)
  have "reachable (NewBroker ''clicks'' 1 5) ?s1" by (rule run [OF start produce])
  moreover have "step ?s1 ?s2" by (rule receive) (use e in \<open>simp_all add: Produce_def\<close>)
  ultimately have "reachable (NewBroker ''clicks'' 1 5) ?s2" by (rule run)
  moreover have "Flush [broker ?s2]" "sent ?s2 = [zero_event]" "sunk ?s2 = []" "hist ?s2 = [[]]"
    using e(3) by (simp_all add: Start_def NewBroker_def Produce_def Stats_def add_stat_def part_stat_def p_end_def)
  ultimately show ?thesis by blast
qed

text \<open>The live stream shows the latest events: up to \<open>n\<close> of the last 256 pushed, newest
  first, that pass the filter.\<close>

theorem Recent_latest:
  assumes "reachable (NewBroker tp parts_n ret) s"
  shows "Recent n keep (broker s) =
    take (nat n) (filter (\<lambda>e. case keep of None \<Rightarrow> True | Some f \<Rightarrow> f e) (take 256 (rev (pushed s))))
    \<and> (\<exists>rest. sent s = pushed s @ rest)"
  using reachable_ok [OF assms] Recent_eq [of "broker s" "pushed s" n keep]
  by (auto simp: flow_ok_def recentSize_def)

theorem Recent_latest_witness:
  "Recent 3 None (broker (Start (NewBroker ''clicks'' 2 5))) = []"
  using Recent_latest [OF reachable.start, of 3 None "''clicks''" 2 5] by (simp add: Start_def)

text \<open>C35: the bus stays within its bounds and its goroutines never panic: the queue holds at
  most 200000 events and a partition at most twice its retention, polling and routing
  always succeed, and the committed offset lies within the retained log.\<close>

theorem bus_bounded:
  assumes "reachable (NewBroker tp n ret) s"
  shows "length (ingress (broker s)) \<le> 200000
    \<and> (\<forall>p\<in>set (parts (broker s)). length (p_log p) \<le> 2 * ret \<and> baseOff p \<le> committed p \<and> committed p \<le> p_end p
        \<and> poll batchSize p \<noteq> None)
    \<and> (0 < n \<longrightarrow> route_event e (broker s) \<noteq> None)"
proof -
  note ok = reachable_ok [OF assms] and len = parts_reachable [OF assms]
  have "length (p_log p) \<le> 2 * ret \<and> baseOff p \<le> committed p \<and> committed p \<le> p_end p \<and> poll batchSize p \<noteq> None"
    if p: "p \<in> set (parts (broker s))" for p
  proof -
    obtain h where "part_ok p h" using p ok by (auto simp: partitions_ok_def delivery_ok_def in_set_conv_nth)
    with poll_ok [OF this, of batchSize] retention_reachable [OF assms] p show ?thesis
      by (auto simp: part_ok_def batchSize_def)
  qed
  moreover have "0 < n \<longrightarrow> route_event e (broker s) \<noteq> None" using len by (auto simp: route_event_def Let_def)
  ultimately show ?thesis using ok by (simp add: flow_ok_def ingressBuffer_def)
qed

theorem bus_bounded_witness:
  "length (ingress (broker (Start (NewBroker ''clicks'' 2 5)))) \<le> 200000"
  using bus_bounded [OF reachable.start] by blast

text \<open>C36: a consumer makes progress: one undisturbed tick hands the next \<open>min lag 16000\<close> events of
  the log to the sink, in order, and commits them.\<close>

theorem consume_tick_progress:
  assumes "part_ok p h"
  shows "\<exists>p' out. consume_tick p = Some (p', out) \<and> part_ok p' h
    \<and> committed p' = committed p + min 16000 (int (length h) - committed p)
    \<and> concat out = take 16000 (drop (nat (committed p)) h)"
  using consume_batches_ok [OF assms, of 4 "[]"] by (simp add: consume_tick_def maxBatchesPerTick_def)

theorem consume_tick_progress_witness:
  "\<exists>p' out. consume_tick \<lparr>p_log = [zero_event], baseOff = 7, committed = 7, retention = 5, polled = 7, lost = 0\<rparr> = Some (p', out)
    \<and> committed p' = 8 \<and> concat out = [zero_event]"
  using consume_tick_progress [of "\<lparr>p_log = [zero_event], baseOff = 7, committed = 7, retention = 5, polled = 7, lost = 0\<rparr>"
    "replicate 7 zero_event @ [zero_event]"] by (auto simp: part_ok_def p_end_def)

end
