(* ===== verification/Gotime.thy ===== *)
theory Gotime
  imports Kortex_Prelude
begin

text \<open>
  The part of Go's \<^verbatim>\<open>time\<close> package the program uses on Unix milliseconds: the
  proleptic Gregorian calendar in UTC and the layouts it prints with
  (\<^verbatim>\<open>2006-01-02\<close>, the three chart labels, RFC 3339).  The calendar is the day-by-day
  successor (and predecessor) iterated from 1970-01-01; the lemmas show that
  later days have larger dates and that, up to year 9999, the printed day sorts
  as a string like the date does, which the retention code relies on.
\<close>

section \<open>The calendar\<close>

type_synonym date = "int \<times> int \<times> int" \<comment> \<open>year, month, day\<close>

definition leap :: "int \<Rightarrow> bool" where
  "leap y \<longleftrightarrow> y mod 4 = 0 \<and> (y mod 100 \<noteq> 0 \<or> y mod 400 = 0)"

definition days_in :: "int \<Rightarrow> int \<Rightarrow> int" where
  "days_in y m =
     (if m = 2 then (if leap y then 29 else 28)
      else if m = 4 \<or> m = 6 \<or> m = 9 \<or> m = 11 then 30 else 31)"

fun next_day :: "date \<Rightarrow> date" where
  "next_day (y, m, d) =
     (if d < days_in y m then (y, m, d + 1)
      else if m < 12 then (y, m + 1, 1) else (y + 1, 1, 1))"

fun prev_day :: "date \<Rightarrow> date" where
  "prev_day (y, m, d) =
     (if 1 < d then (y, m, d - 1)
      else if 1 < m then (y, m - 1, days_in y (m - 1)) else (y - 1, 12, 31))"

definition civil_of_day :: "int \<Rightarrow> date" where
  "civil_of_day n =
     (if 0 \<le> n then (next_day ^^ nat n) (1970, 1, 1)
      else (prev_day ^^ nat (- n)) (1970, 1, 1))"

text \<open>\<^verbatim>\<open>time.UnixMilli(ms).UTC()\<close>: the date and the millisecond of the day.\<close>

definition ms_per_day :: int where
  "ms_per_day = 86400000"

definition utc_date :: "int \<Rightarrow> date" where
  "utc_date ms = civil_of_day (ms div ms_per_day)"

definition utc_ms :: "int \<Rightarrow> int" where
  "utc_ms ms = ms mod ms_per_day"

section \<open>Layouts\<close>

definition show_date :: "date \<Rightarrow> string" where
  "show_date dt = (case dt of (y, m, d) \<Rightarrow> pad_int 4 y @ ''-'' @ pad_int 2 m @ ''-'' @ pad_int 2 d)"

text \<open>The layout \<^verbatim>\<open>2006-01-02\<close>.\<close>

definition format_date :: "int \<Rightarrow> string" where
  "format_date ms = show_date (utc_date ms)"

definition hour_of :: "int \<Rightarrow> int" where
  "hour_of ms = utc_ms ms div 3600000"

definition minute_of :: "int \<Rightarrow> int" where
  "minute_of ms = utc_ms ms div 60000 mod 60"

definition second_of :: "int \<Rightarrow> int" where
  "second_of ms = utc_ms ms div 1000 mod 60"

definition month_names :: "string list" where
  "month_names = [''Jan'', ''Feb'', ''Mar'', ''Apr'', ''May'', ''Jun'',
     ''Jul'', ''Aug'', ''Sep'', ''Oct'', ''Nov'', ''Dec'']"

text \<open>The layouts \<^verbatim>\<open>15:04\<close>, \<^verbatim>\<open>02 15:00\<close> (the \<^verbatim>\<open>00\<close> is literal) and \<^verbatim>\<open>Jan 02\<close>.\<close>

definition format_minute :: "int \<Rightarrow> string" where
  "format_minute ms = pad_int 2 (hour_of ms) @ '':'' @ pad_int 2 (minute_of ms)"

definition format_hour :: "int \<Rightarrow> string" where
  "format_hour ms = pad_int 2 (snd (snd (utc_date ms))) @ '' '' @ pad_int 2 (hour_of ms) @ '':00''"

definition format_day :: "int \<Rightarrow> string" where
  "format_day ms =
     month_names ! nat (fst (snd (utc_date ms)) - 1) @ '' '' @ pad_int 2 (snd (snd (utc_date ms)))"

text \<open>\<^verbatim>\<open>time.RFC3339Nano\<close>: the fraction without its trailing zeros, then \<^verbatim>\<open>Z\<close>.\<close>

definition trim_zeros :: "string \<Rightarrow> string" where
  "trim_zeros s = rev (dropWhile (\<lambda>c. c = CHR ''0'') (rev s))"

definition format_rfc3339nano :: "int \<Rightarrow> string" where
  "format_rfc3339nano ms =
     (let frac = trim_zeros (pad_int 3 (utc_ms ms mod 1000))
      in format_date ms @ ''T'' @ pad_int 2 (hour_of ms) @ '':'' @ pad_int 2 (minute_of ms) @ '':''
         @ pad_int 2 (second_of ms) @ (if frac = '''' then '''' else ''.'' @ frac) @ ''Z'')"

section \<open>Later days have larger dates\<close>

definition valid_date :: "date \<Rightarrow> bool" where
  "valid_date dt = (case dt of (y, m, d) \<Rightarrow> 1 \<le> m \<and> m \<le> 12 \<and> 1 \<le> d \<and> d \<le> days_in y m)"

definition date_less :: "date \<Rightarrow> date \<Rightarrow> bool" where
  "date_less a b = (case a of (y, m, d) \<Rightarrow> case b of (y', m', d') \<Rightarrow>
     y < y' \<or> (y = y' \<and> (m < m' \<or> (m = m' \<and> d < d'))))"

lemma days_in_bounds: "28 \<le> days_in y m" "days_in y m \<le> 31"
  by (auto simp: days_in_def)

lemma valid_next_day: "valid_date dt \<Longrightarrow> valid_date (next_day dt)"
  using days_in_bounds by (cases dt rule: next_day.cases) (auto simp: valid_date_def intro: order_trans [of 1 28])

lemma valid_prev_day: "valid_date dt \<Longrightarrow> valid_date (prev_day dt)"
  using days_in_bounds by (cases dt rule: prev_day.cases) (auto simp: valid_date_def days_in_def)

lemma next_day_later: "valid_date dt \<Longrightarrow> date_less dt (next_day dt)"
  by (cases dt rule: next_day.cases) (auto simp: valid_date_def date_less_def)

lemma prev_day_earlier: "valid_date dt \<Longrightarrow> date_less (prev_day dt) dt"
  by (cases dt rule: prev_day.cases) (auto simp: valid_date_def date_less_def)

lemma date_less_trans: "date_less a b \<Longrightarrow> date_less b c \<Longrightarrow> date_less a c"
  by (auto simp: date_less_def split: prod.splits)

lemma valid_iter_next: "valid_date ((next_day ^^ n) (1970, 1, 1))"
  by (induction n) (auto simp: valid_next_day, simp add: valid_date_def days_in_def)

lemma valid_iter_prev: "valid_date ((prev_day ^^ n) (1970, 1, 1))"
  by (induction n) (auto simp: valid_prev_day, simp add: valid_date_def days_in_def)

lemma valid_civil: "valid_date (civil_of_day n)"
  by (simp add: civil_of_day_def valid_iter_next valid_iter_prev)

lemma civil_step: "date_less (civil_of_day n) (civil_of_day (n + 1))"
proof (cases "0 \<le> n")
  case True
  then have "nat (n + 1) = Suc (nat n)" by simp
  with True show ?thesis
    by (simp add: civil_of_day_def next_day_later valid_iter_next)
next
  case False
  then have "nat (- n) = Suc (nat (- (n + 1)))" by simp
  then have "civil_of_day n = prev_day (civil_of_day (n + 1))"
    using False by (cases "n = -1") (auto simp: civil_of_day_def)
  then show ?thesis by (simp add: prev_day_earlier valid_civil)
qed

lemma civil_later: "date_less (civil_of_day n) (civil_of_day (n + 1 + int k))"
proof (induction k)
  case 0
  show ?case using civil_step [of n] by simp
next
  case (Suc k)
  have "date_less (civil_of_day (n + 1 + int k)) (civil_of_day (n + 1 + int k + 1))"
    by (rule civil_step)
  with Suc.IH have "date_less (civil_of_day n) (civil_of_day (n + 1 + int k + 1))"
    by (rule date_less_trans)
  then show ?case by (simp add: algebra_simps)
qed

lemma civil_mono: "n < n' \<Longrightarrow> date_less (civil_of_day n) (civil_of_day n')"
  using civil_later [of n "nat (n' - n - 1)"] by simp

section \<open>Printed days sort like dates\<close>

lemma show_date_fixed:
  assumes "valid_date (y, m, d)" "0 \<le> y" "y \<le> 9999"
  shows "show_date (y, m, d) =
    fixed_digits 4 (nat y) @ ''-'' @ fixed_digits 2 (nat m) @ ''-'' @ fixed_digits 2 (nat d)"
  using assms days_in_bounds(2) [of y m]
  by (simp add: show_date_def valid_date_def pad_int_fixed)

lemma show_date_less:
  assumes "valid_date a" "0 \<le> fst a" "fst a \<le> 9999"
    and "valid_date b" "0 \<le> fst b" "fst b \<le> 9999"
  shows "show_date a < show_date b \<longleftrightarrow> date_less a b"
proof -
  obtain y m d where a: "a = (y, m, d)" by (cases a)
  obtain y' m' d' where b: "b = (y', m', d')" by (cases b)
  note r = assms [unfolded a b valid_date_def, simplified]
  have m: "0 \<le> m" "m < 100" "0 \<le> m'" "m' < 100" using r by auto
  have d: "0 \<le> d" "d < 100" "0 \<le> d'" "d' < 100"
    using r days_in_bounds(2) [of y m] days_in_bounds(2) [of y' m'] by auto
  have y: "nat y < 10 ^ 4" "nat y' < 10 ^ 4" "nat m < 10 ^ 2" "nat m' < 10 ^ 2"
    "nat d < 10 ^ 2" "nat d' < 10 ^ 2"
    using r m d by auto
  show ?thesis using assms r m d
    unfolding a b date_less_def
    by (auto simp: show_date_fixed append_less_iff fixed_digits_less [OF y(1,2)]
        fixed_digits_inj [OF y(1,2)] fixed_digits_less [OF y(3,4)] fixed_digits_inj [OF y(3,4)]
        fixed_digits_less [OF y(5,6)] nat_less_eq_zless eq_nat_nat_iff simp del: fixed_digits.simps)
qed

text \<open>From 1970 every year takes at least 365 days, so the first \<open>2930000\<close> days end before
  year 10000.\<close>

lemma valid_month: "valid_date (y, m, d) \<Longrightarrow> m \<in> {1, 2, 3, 4, 5, 6, 7, 8, 9, 10, 11, 12}"
  unfolding valid_date_def by simp presburger

definition day_of_year :: "int \<Rightarrow> int \<Rightarrow> int" where
  "day_of_year m d = [0, 31, 59, 90, 120, 151, 181, 212, 243, 273, 304, 334] ! nat (m - 1) + d - 1"

lemma day_of_year_month_end:
  assumes "m \<in> {1, 2, 3, 4, 5, 6, 7, 8, 9, 10, 11 :: int}"
  shows "day_of_year (m + 1) 1 \<le> day_of_year m (days_in y m) + 1"
  using assms by (elim insertE emptyE) (simp_all add: day_of_year_def days_in_def)

lemma day_of_year_step:
  assumes v: "valid_date (y, m, d)" and n: "next_day (y, m, d) = (y', m', d')"
  shows "365 * y' + day_of_year m' d' \<le> 365 * y + day_of_year m d + 1"
proof (cases "d < days_in y m")
  case True
  with n show ?thesis by (auto simp: day_of_year_def)
next
  case False
  with v have d: "d = days_in y m" by (simp add: valid_date_def)
  show ?thesis
  proof (cases "m < 12")
    case True
    with n False d v valid_month [OF v] day_of_year_month_end [of m y] show ?thesis by auto
  next
    case m: False
    with v have "m = 12" by (simp add: valid_date_def)
    with n False m d show ?thesis by (auto simp: day_of_year_def days_in_def)
  qed
qed

lemma civil_year_bound:
  "case (next_day ^^ n) (1970, 1, 1) of (y, m, d) \<Rightarrow> 1970 \<le> y \<and> 365 * y + day_of_year m d \<le> 365 * 1970 + int n"
proof (induction n)
  case 0
  show ?case by (simp add: day_of_year_def)
next
  case (Suc n)
  obtain y m d where e: "(next_day ^^ n) (1970, 1, 1) = (y, m, d)" by (metis prod_cases3)
  obtain y' m' d' where e': "next_day (y, m, d) = (y', m', d')" by (metis prod_cases3)
  have "y \<le> y'" using e' by (auto split: if_splits)
  moreover have "365 * y' + day_of_year m' d' \<le> 365 * y + day_of_year m d + 1"
    using day_of_year_step [OF _ e'] valid_iter_next [of n] e by simp
  ultimately show ?case using Suc.IH e e' by simp
qed

lemma civil_year_range:
  assumes "0 \<le> n" "n \<le> 2930000"
  shows "1970 \<le> fst (civil_of_day n) \<and> fst (civil_of_day n) \<le> 9999"
proof -
  obtain y m d where e: "(next_day ^^ nat n) (1970, 1, 1) = (y, m, d)" by (metis prod_cases3)
  have v: "valid_date (y, m, d)" using valid_iter_next [of "nat n"] e by simp
  from valid_month [OF v] have "0 \<le> day_of_year m d" using v by (auto simp: valid_date_def day_of_year_def)
  with civil_year_bound [of "nat n"] e assms show ?thesis by (simp add: civil_of_day_def)
qed

lemma format_date_less:
  assumes "0 \<le> a" "a div ms_per_day \<le> 2930000" "0 \<le> b" "b div ms_per_day \<le> 2930000"
  shows "format_date a < format_date b \<longleftrightarrow> a div ms_per_day < b div ms_per_day"
proof -
  let ?A = "a div ms_per_day" and ?B = "b div ms_per_day"
  have "0 \<le> ?A" "0 \<le> ?B" using assms by (auto simp: ms_per_day_def)
  with assms civil_year_range [of ?A] civil_year_range [of ?B]
  have e: "format_date a < format_date b \<longleftrightarrow> date_less (civil_of_day ?A) (civil_of_day ?B)"
    by (simp add: format_date_def utc_date_def show_date_less valid_civil)
  have "\<not> date_less (civil_of_day ?A) (civil_of_day ?B)" if "?B \<le> ?A"
    using that civil_mono [of ?B ?A] by (cases "?A = ?B") (auto simp: date_less_def split: prod.splits)
  with e civil_mono [of ?A ?B] show ?thesis by (meson not_le)
qed

end
