(* ===== verification/Olap.thy ===== *)
theory Olap
  imports Dict Bus Gotime
begin

text \<open>
  \<^verbatim>\<open>backend/olap.go\<close>, the store: columnar parts per UTC day, materialised views per code,
  and the operations that change them (\<^verbatim>\<open>Insert\<close>, \<^verbatim>\<open>mergeOnce\<close>, \<^verbatim>\<open>Retain\<close>, \<^verbatim>\<open>Purge\<close>).  All of
  them run under the store's lock, so they are functions on the store.  Timestamps are
  \<^typ>\<open>int\<close>; ids are 32-bit words; the atomic counters are 64-bit words, because
  \<^verbatim>\<open>atomicSub\<close> relies on their wrap-around; the view counters, which count stored rows,
  are natural numbers.
\<close>

section \<open>Constants and helpers\<close>

definition minuteMS :: int where "minuteMS = 60000"
definition hourMS :: int where "hourMS = 60 * minuteMS"
definition dayMS :: int where "dayMS = 24 * hourMS"
definition minuteRetentionMS :: int where "minuteRetentionMS = 48 * hourMS"
definition maxDictEntries :: nat where "maxDictEntries = 1048576"
definition mergeMinParts :: nat where "mergeMinParts = 4"
definition mergeMaxPartRow :: nat where "mergeMaxPartRow = 400000"

definition floorTo :: "int \<Rightarrow> int \<Rightarrow> int" where
  "floorTo ts bucket = ts - go_rem ts bucket"

definition dayKey :: "int \<Rightarrow> string" where
  "dayKey ms = format_date ms"

definition atomicSub :: "u64 \<Rightarrow> nat \<Rightarrow> u64" where
  "atomicSub c n = (if 0 < n then c + NOT (of_nat n - 1) else c)"

definition numDims :: nat where "numDims = 6"

text \<open>The dimensions in the order of the constants \<^verbatim>\<open>dimCountry\<close> to \<^verbatim>\<open>dimOS\<close>.\<close>

definition dimIndex :: "string \<Rightarrow> nat option" where
  "dimIndex = map_of [(''country'', 0), (''city'', 1), (''referrer'', 2), (''device'', 3), (''browser'', 4), (''os'', 5)]"

definition eventDims :: "click_event \<Rightarrow> string list" where
  "eventDims e = [ev_Country e, ev_City e, ev_Ref e, ev_Device e, ev_Browser e, ev_OS e]"

section \<open>Parts\<close>

record part =
  Day :: string
  Level :: int
  MinTS :: int
  MaxTS :: int
  TS :: "int list"
  Code :: "u32 list"
  Dims :: "u32 list list"
  Bot :: "bool list"

definition new_part :: "string \<Rightarrow> int \<Rightarrow> part" where
  "new_part day level = \<lparr>Day = day, Level = level, MinTS = 0, MaxTS = 0, TS = [], Code = [],
     Dims = replicate numDims [], Bot = []\<rparr>"

definition Rows :: "part \<Rightarrow> nat" where
  "Rows p = length (TS p)"

definition addRow :: "int \<Rightarrow> u32 \<Rightarrow> u32 list \<Rightarrow> bool \<Rightarrow> part \<Rightarrow> part" where
  "addRow ts code dims isbot p =
     (let lo = (if TS p = [] then ts else MinTS p);
          hi = (if TS p = [] then ts else MaxTS p)
      in p\<lparr>MinTS := min lo ts, MaxTS := max hi ts, TS := TS p @ [ts], Code := Code p @ [code],
           Dims := map2 (\<lambda>col v. col @ [v]) (Dims p) dims, Bot := Bot p @ [isbot]\<rparr>)"

definition copyRow :: "part \<Rightarrow> nat \<Rightarrow> part \<Rightarrow> part" where
  "copyRow src i p = addRow (TS src ! i) (Code src ! i) (map (\<lambda>col. col ! i) (Dims src)) (Bot src ! i) p"

section \<open>Materialised views\<close>

record code_mv =
  minute :: "(int, nat) gomap"
  hour :: "(int, nat) gomap"
  day :: "(int, nat) gomap"
  bots :: "(int, nat) gomap"
  dims :: "(int, (u32, nat) gomap) gomap list"
  first :: int
  last_ts :: int

definition newCodeMV :: "int \<Rightarrow> code_mv" where
  "newCodeMV ts = \<lparr>minute = [], hour = [], day = [], bots = [], dims = replicate numDims [], first = ts, last_ts = ts\<rparr>"

definition dim_rows :: "(int, (u32, nat) gomap) gomap \<Rightarrow> int" where
  "dim_rows m = (\<Sum>(h, values)\<leftarrow>m. int (length values))"

definition mv_rows :: "code_mv \<Rightarrow> int" where
  "mv_rows cm = int (length (minute cm)) + int (length (hour cm)) + int (length (day cm)) + int (length (bots cm))
     + (\<Sum>m\<leftarrow>dims cm. dim_rows m)"

definition series :: "string \<Rightarrow> code_mv \<Rightarrow> (int, nat) gomap" where
  "series gran cm = (if gran = ''minute'' then minute cm else if gran = ''hour'' then hour cm else day cm)"

section \<open>The store\<close>

record olap =
  o_parts :: "(string, part list) gomap"
  o_dict :: dict
  o_mv :: "(u32, code_mv) gomap"
  mvRows :: int
  o_retention :: int
  TotalRows :: u64
  Inserts :: u64
  Merges :: u64
  MVWrites :: u64
  TTLDropped :: u64

definition NewOLAP :: "int \<Rightarrow> olap" where
  "NewOLAP retentionDays = \<lparr>o_parts = [], o_dict = NewDict, o_mv = [], mvRows = 0,
     o_retention = max retentionDays 0 * dayMS, TotalRows = 0, Inserts = 0, Merges = 0, MVWrites = 0, TTLDropped = 0\<rparr>"

definition CodeID :: "string \<Rightarrow> olap \<Rightarrow> u32 \<times> olap" where
  "CodeID code o' = (let (i, d) = ID (o_dict o') code in (i, o'\<lparr>o_dict := d\<rparr>))"

definition dimID :: "dict \<Rightarrow> string \<Rightarrow> u32 \<times> dict" where
  "dimID d s =
     (case Lookup d s of
        Some i \<Rightarrow> (i, d)
      | None \<Rightarrow> if maxDictEntries \<le> Size d then ID d ''other'' else ID d s)"

fun dimIDs :: "dict \<Rightarrow> string list \<Rightarrow> u32 list \<times> dict" where
  "dimIDs d [] = ([], d)"
| "dimIDs d (s # ss) = (let (i, d1) = dimID d s; (is, d2) = dimIDs d1 ss in (i # is, d2))"

text \<open>\<^verbatim>\<open>m[k]++\<close>, and \<^verbatim>\<open>incr\<close>, which also counts new entries.\<close>

definition bump :: "'k \<Rightarrow> ('k, nat) gomap \<Rightarrow> ('k, nat) gomap" where
  "bump k m = mput k (mget 0 m k + 1) m"

definition incr :: "'k \<Rightarrow> ('k, nat) gomap \<Rightarrow> int \<Rightarrow> ('k, nat) gomap \<times> int" where
  "incr k m rows = (bump k m, if map_of m k = None then rows + 1 else rows)"

fun bump_dims :: "int \<Rightarrow> (int, (u32, nat) gomap) gomap list \<Rightarrow> u32 list \<Rightarrow> int \<Rightarrow>
    (int, (u32, nat) gomap) gomap list \<times> int" where
  "bump_dims h (m # ms) (v # vs) rows =
     (let (values, rows1) = incr v (mget [] m h) rows;
          (ms', rows2) = bump_dims h ms vs rows1
      in (mput h values m # ms', rows2))"
| "bump_dims h ms vs rows = (ms, rows)"

definition update_code :: "int \<Rightarrow> u32 list \<Rightarrow> bool \<Rightarrow> code_mv \<Rightarrow> int \<Rightarrow> code_mv \<times> int" where
  "update_code ts ds isbot cm rows0 =
     (let h = floorTo ts hourMS;
          d = floorTo ts dayMS;
          (mi, rows1) = incr (floorTo ts minuteMS) (minute cm) rows0;
          (ho, rows2) = incr h (hour cm) rows1;
          (da, rows3) = incr d (day cm) rows2;
          (bo, rows4) = (if isbot then incr d (bots cm) rows3 else (bots cm, rows3));
          (di, rows5) = bump_dims h (dims cm) ds rows4
      in (\<lparr>minute = mi, hour = ho, day = da, bots = bo, dims = di,
           first = min (first cm) ts, last_ts = max (last_ts cm) ts\<rparr>, rows5))"

definition updateMV :: "u32 \<Rightarrow> int \<Rightarrow> u32 list \<Rightarrow> bool \<Rightarrow> olap \<Rightarrow> olap" where
  "updateMV code ts ds isbot o' =
     (let (cm, rows) = update_code ts ds isbot (mget (newCodeMV ts) (o_mv o') code) (mvRows o')
      in o'\<lparr>o_mv := mput code cm (o_mv o'), mvRows := rows, MVWrites := MVWrites o' + 3 + of_nat numDims\<rparr>)"

section \<open>Insert\<close>

definition byDay :: "click_event list \<Rightarrow> (string, click_event list) gomap" where
  "byDay batch = fold (\<lambda>e m. mput (dayKey (ev_TS e)) (mget [] m (dayKey (ev_TS e)) @ [e]) m) batch []"

definition insert_event :: "click_event \<Rightarrow> olap \<times> part \<Rightarrow> olap \<times> part" where
  "insert_event e = (\<lambda>(o', p).
     let (code, d1) = ID (o_dict o') (ev_Code e);
         (ds, d2) = dimIDs d1 (eventDims e)
     in (updateMV code (ev_TS e) ds (ev_Bot e) (o'\<lparr>o_dict := d2\<rparr>), addRow (ev_TS e) code ds (ev_Bot e) p))"

definition insert_day :: "string \<Rightarrow> click_event list \<Rightarrow> olap \<Rightarrow> olap" where
  "insert_day dk events o' =
     (let (o1, p) = fold insert_event events (o', new_part dk 0)
      in o1\<lparr>o_parts := mput dk (mget [] (o_parts o1) dk @ [p]) (o_parts o1), TotalRows := TotalRows o1 + of_nat (Rows p)\<rparr>)"

text \<open>\<open>order\<close> is the order in which \<^verbatim>\<open>range byDay\<close> visits the days, which Go leaves open.\<close>

definition Insert :: "string list \<Rightarrow> click_event list \<Rightarrow> olap \<Rightarrow> olap" where
  "Insert order batch o' =
     (if batch = [] then o'
      else let o1 = fold (\<lambda>dk. insert_day dk (mget [] (byDay batch) dk)) order o'
           in o1\<lparr>Inserts := Inserts o1 + 1\<rparr>)"

section \<open>Merging\<close>

text \<open>The row references of the merge and the stable sort by timestamp.\<close>

definition row_refs :: "part list \<Rightarrow> (nat \<times> nat) list" where
  "row_refs ps = concat (map (\<lambda>(pi, p). map (\<lambda>i. (pi, i)) [0..<length (TS p)]) (List.enumerate 0 ps))"

definition mergeParts :: "string \<Rightarrow> part list \<Rightarrow> part" where
  "mergeParts dk ps =
     fold (\<lambda>(pi, i). copyRow (ps ! pi) i) (sort_key (\<lambda>(pi, i). TS (ps ! pi) ! i) (row_refs ps)) (new_part dk 1)"

definition merge_day :: "string \<Rightarrow> part list \<Rightarrow> part list option" where
  "merge_day dk ps =
     (if length ps < mergeMinParts then None
      else let keep = filter (\<lambda>p. mergeMaxPartRow < Rows p) ps;
               small = filter (\<lambda>p. \<not> mergeMaxPartRow < Rows p) ps
           in if length small < 2 then None else Some (keep @ [mergeParts dk small]))"

definition mergeOnce :: "olap \<Rightarrow> olap" where
  "mergeOnce o' =
     o'\<lparr>o_parts := map (\<lambda>(dk, ps). (dk, case merge_day dk ps of None \<Rightarrow> ps | Some ps' \<Rightarrow> ps')) (o_parts o'),
        Merges := Merges o' + of_nat (length (filter (\<lambda>(dk, ps). merge_day dk ps \<noteq> None) (o_parts o')))\<rparr>"

section \<open>Retention\<close>

definition dropBefore :: "(int, 'v) gomap \<Rightarrow> int \<Rightarrow> (int, 'v) gomap \<times> int" where
  "dropBefore m cutoff =
     (filter (\<lambda>(k, v). \<not> k < cutoff) m, int (length (filter (\<lambda>(k, v). k < cutoff) m)))"

definition drop_dim :: "int \<Rightarrow> (int, (u32, nat) gomap) gomap \<Rightarrow> (int, (u32, nat) gomap) gomap \<times> int" where
  "drop_dim cutoff m =
     (filter (\<lambda>(h, values). \<not> h < cutoff) m, dim_rows (filter (\<lambda>(h, values). h < cutoff) m))"

definition retain_code :: "int \<Rightarrow> int \<Rightarrow> code_mv \<Rightarrow> int \<Rightarrow> code_mv option \<times> int" where
  "retain_code now cutoff cm rows =
     (let (mi, n1) = dropBefore (minute cm) (now - minuteRetentionMS);
          (ho, n2) = dropBefore (hour cm) cutoff;
          (da, n3) = dropBefore (day cm) cutoff;
          (bo, n4) = dropBefore (bots cm) cutoff;
          cm' = cm\<lparr>minute := mi, hour := ho, day := da, bots := bo, dims := map (fst \<circ> drop_dim cutoff) (dims cm)\<rparr>;
          rows' = rows - n1 - (n2 + n3 + n4) - (\<Sum>m\<leftarrow>dims cm. snd (drop_dim cutoff m))
      in if day cm' = [] \<and> minute cm' = [] then (None, rows' - mv_rows cm') else (Some cm', rows'))"

fun retain_codes :: "int \<Rightarrow> int \<Rightarrow> (u32, code_mv) gomap \<Rightarrow> int \<Rightarrow> (u32, code_mv) gomap \<times> int" where
  "retain_codes now cutoff [] rows = ([], rows)"
| "retain_codes now cutoff ((c, cm) # m) rows =
     (let (cm', rows1) = retain_code now cutoff cm rows;
          (m', rows2) = retain_codes now cutoff m rows1
      in (case cm' of None \<Rightarrow> m' | Some cm'' \<Rightarrow> (c, cm'') # m', rows2))"

definition drop_part :: "part \<Rightarrow> olap \<Rightarrow> olap" where
  "drop_part p o' = o'\<lparr>TotalRows := atomicSub (TotalRows o') (Rows p), TTLDropped := TTLDropped o' + of_nat (Rows p)\<rparr>"

definition Retain :: "int \<Rightarrow> olap \<Rightarrow> olap" where
  "Retain now o' =
     (if o_retention o' \<le> 0 then o'
      else let cutoff = floorTo (now - o_retention o') dayMS;
               cutDay = dayKey cutoff;
               old = filter (\<lambda>(dk, ps). \<not> cutDay \<le> dk) (o_parts o');
               o1 = fold drop_part (concat (map snd old)) o';
               (mv', rows) = retain_codes now cutoff (o_mv o1) (mvRows o1)
           in o1\<lparr>o_parts := filter (\<lambda>(dk, ps). cutDay \<le> dk) (o_parts o1), o_mv := mv', mvRows := rows\<rparr>)"

section \<open>Purge\<close>

definition withoutCode :: "part \<Rightarrow> u32 \<Rightarrow> part option \<times> nat" where
  "withoutCode p code =
     (let hits = length (filter (\<lambda>c. c = code) (Code p))
      in if hits = 0 then (Some p, 0)
         else if hits = Rows p then (None, hits)
         else (Some (fold (\<lambda>(i, c) np. if c \<noteq> code then copyRow p i np else np)
                 (List.enumerate 0 (Code p)) (new_part (Day p) (Level p))), hits))"

definition purge_parts :: "u32 \<Rightarrow> part list \<Rightarrow> part list" where
  "purge_parts code ps = List.map_filter (\<lambda>p. fst (withoutCode p code)) ps"

definition drop_code_mv :: "u32 \<Rightarrow> olap \<Rightarrow> olap" where
  "drop_code_mv i o' =
     (case map_of (o_mv o') i of
        None \<Rightarrow> o'
      | Some cm \<Rightarrow> o'\<lparr>mvRows := mvRows o' - mv_rows cm, o_mv := mdel i (o_mv o')\<rparr>)"

definition Purge :: "string \<Rightarrow> olap \<Rightarrow> nat \<times> olap" where
  "Purge code o' =
     (case Lookup (o_dict o') code of
        None \<Rightarrow> (0, o')
      | Some i \<Rightarrow>
          let o1 = drop_code_mv i o';
              removed = (\<Sum>(dk, ps)\<leftarrow>o_parts o1. \<Sum>p\<leftarrow>ps. snd (withoutCode p i));
              kept = filter (\<lambda>(dk, ps). ps \<noteq> []) (map (\<lambda>(dk, ps). (dk, purge_parts i ps)) (o_parts o1))
          in (removed, o1\<lparr>o_parts := kept, TotalRows := atomicSub (TotalRows o1) removed\<rparr>))"

end
