(* ===== verification/Olap_Inv.thy ===== *)
theory Olap_Inv
  imports Olap
begin

text \<open>
  The invariants of the analytics store.  A part stands for the list of its rows; the
  store for the rows of all its parts.  The materialised views are exact: every counter
  is the number of stored rows that fall into its bucket.  Each operation is shown to
  preserve this, and what it does to the rows.
\<close>

section \<open>Specification\<close>

record row =
  r_ts :: int
  r_code :: u32
  r_dims :: "u32 list"
  r_bot :: bool

definition part_row :: "part \<Rightarrow> nat \<Rightarrow> row" where
  "part_row p i = \<lparr>r_ts = TS p ! i, r_code = Code p ! i, r_dims = map (\<lambda>col. col ! i) (Dims p), r_bot = Bot p ! i\<rparr>"

definition part_rows :: "part \<Rightarrow> row list" where
  "part_rows p = map (part_row p) [0..<Rows p]"

definition part_ok :: "part \<Rightarrow> bool" where
  "part_ok p \<longleftrightarrow> length (Code p) = Rows p \<and> length (Bot p) = Rows p \<and> length (Dims p) = numDims
     \<and> (\<forall>col\<in>set (Dims p). length col = Rows p) \<and> (\<forall>ts\<in>set (TS p). MinTS p \<le> ts \<and> ts \<le> MaxTS p)"

definition count_rows :: "(row \<Rightarrow> bool) \<Rightarrow> part list \<Rightarrow> nat" where
  "count_rows P ps = (\<Sum>p\<leftarrow>ps. length (filter P (part_rows p)))"

definition row_count :: "(row \<Rightarrow> bool) \<Rightarrow> olap \<Rightarrow> nat" where
  "row_count P s = (\<Sum>(dk, ps)\<leftarrow>o_parts s. count_rows P ps)"

definition store_rows :: "olap \<Rightarrow> row set" where
  "store_rows s = {r. \<exists>dk ps p. (dk, ps) \<in> set (o_parts s) \<and> p \<in> set ps \<and> r \<in> set (part_rows p)}"

text \<open>The counters of a code, and the rows each of them counts.\<close>

datatype view_key = Minute int | Hour int | Daily int | Bots int | Dim nat int u32

fun read_view :: "view_key \<Rightarrow> code_mv \<Rightarrow> nat" where
  "read_view (Minute b) cm = mget 0 (minute cm) b"
| "read_view (Hour b) cm = mget 0 (hour cm) b"
| "read_view (Daily b) cm = mget 0 (day cm) b"
| "read_view (Bots b) cm = mget 0 (bots cm) b"
| "read_view (Dim d h v) cm = (if d < length (dims cm) then mget 0 (mget [] (dims cm ! d) h) v else 0)"

fun view_hit :: "view_key \<Rightarrow> row \<Rightarrow> bool" where
  "view_hit (Minute b) r = (floorTo (r_ts r) minuteMS = b)"
| "view_hit (Hour b) r = (floorTo (r_ts r) hourMS = b)"
| "view_hit (Daily b) r = (floorTo (r_ts r) dayMS = b)"
| "view_hit (Bots b) r = (r_bot r \<and> floorTo (r_ts r) dayMS = b)"
| "view_hit (Dim d h v) r = (d < length (r_dims r) \<and> r_dims r ! d = v \<and> floorTo (r_ts r) hourMS = h)"

definition view :: "view_key \<Rightarrow> u32 \<Rightarrow> olap \<Rightarrow> nat" where
  "view k c s = (case map_of (o_mv s) c of None \<Rightarrow> 0 | Some cm \<Rightarrow> read_view k cm)"

text \<open>Minute buckets before \<open>mcut\<close> may have been trimmed.\<close>

fun live_key :: "int \<Rightarrow> view_key \<Rightarrow> bool" where
  "live_key mcut (Minute b) = (mcut \<le> b)"
| "live_key mcut _ = True"

definition mv_exact :: "int \<Rightarrow> olap \<Rightarrow> bool" where
  "mv_exact mcut s \<longleftrightarrow> (\<forall>c k. live_key mcut k \<longrightarrow> view k c s = row_count (\<lambda>r. r_code r = c \<and> view_hit k r) s)"

definition dim_ok :: "(int, (u32, nat) gomap) gomap \<Rightarrow> bool" where
  "dim_ok m \<longleftrightarrow> wf_map m \<and> (\<forall>(h, values)\<in>set m. wf_map values \<and> (\<forall>(v, n)\<in>set values. 0 < n))"

definition mv_ok :: "code_mv \<Rightarrow> bool" where
  "mv_ok cm \<longleftrightarrow> wf_map (minute cm) \<and> wf_map (hour cm) \<and> wf_map (day cm) \<and> wf_map (bots cm)
     \<and> length (dims cm) = numDims \<and> (\<forall>m\<in>set (dims cm). dim_ok m)"

definition mvs_ok :: "olap \<Rightarrow> bool" where
  "mvs_ok s \<longleftrightarrow> wf_map (o_mv s) \<and> (\<forall>(c, cm)\<in>set (o_mv s). mv_ok cm)
     \<and> mvRows s = (\<Sum>(c, cm)\<leftarrow>o_mv s. mv_rows cm)"

text \<open>Years 1970 to 9991, where day strings sort like days.\<close>

definition ts_ok :: "int \<Rightarrow> bool" where
  "ts_ok ts \<longleftrightarrow> 0 \<le> ts \<and> ts div ms_per_day \<le> 2930000"

definition parts_ok :: "olap \<Rightarrow> bool" where
  "parts_ok s \<longleftrightarrow> wf_map (o_parts s) \<and> (\<forall>(dk, ps)\<in>set (o_parts s). \<forall>p\<in>set ps. part_ok p
       \<and> (\<forall>ts\<in>set (TS p). dayKey ts = dk \<and> ts_ok ts))
     \<and> TotalRows s = of_nat (row_count (\<lambda>r. True) s)"

definition olap_ok :: "int \<Rightarrow> olap \<Rightarrow> bool" where
  "olap_ok mcut s \<longleftrightarrow> parts_ok s \<and> mvs_ok s \<and> mv_exact mcut s"

section \<open>Parts\<close>

lemma length_part_rows [simp]: "length (part_rows p) = Rows p"
  by (simp add: part_rows_def)

lemma nth_part_rows [simp]: "i < Rows p \<Longrightarrow> part_rows p ! i = part_row p i"
  by (simp add: part_rows_def)

lemma part_rows_ts: "map r_ts (part_rows p) = TS p"
  by (rule nth_equalityI) (auto simp: part_rows_def part_row_def Rows_def)

lemma part_rows_code: "part_ok p \<Longrightarrow> map r_code (part_rows p) = Code p"
  by (rule nth_equalityI) (auto simp: part_rows_def part_row_def part_ok_def)

lemma new_part_ok: "part_ok (new_part dk l) \<and> part_rows (new_part dk l) = []"
  by (simp add: part_ok_def new_part_def Rows_def part_rows_def)

lemma map2_snoc_col:
  "length ds = length cols \<Longrightarrow> \<forall>col\<in>set cols. length col = n \<Longrightarrow> i < n \<Longrightarrow>
    map (\<lambda>col. col ! i) (map2 (\<lambda>col v. col @ [v]) cols ds) = map (\<lambda>col. col ! i) cols"
  by (rule nth_equalityI) (auto simp: nth_append)

lemma map2_snoc_last:
  "length ds = length cols \<Longrightarrow> \<forall>col\<in>set cols. length col = n \<Longrightarrow>
    map (\<lambda>col. col ! n) (map2 (\<lambda>col v. col @ [v]) cols ds) = ds"
  by (rule nth_equalityI) (auto simp: nth_append)

lemma addRow_ok:
  assumes "part_ok p" "length ds = numDims"
  shows "part_ok (addRow ts c ds b p)"
    "part_rows (addRow ts c ds b p) = part_rows p @ [\<lparr>r_ts = ts, r_code = c, r_dims = ds, r_bot = b\<rparr>]"
proof -
  let ?q = "addRow ts c ds b p" let ?r = "\<lparr>r_ts = ts, r_code = c, r_dims = ds, r_bot = b\<rparr>"
  have f: "TS ?q = TS p @ [ts]" "Code ?q = Code p @ [c]" "Bot ?q = Bot p @ [b]"
    "Dims ?q = map2 (\<lambda>col v. col @ [v]) (Dims p) ds" "Rows ?q = Rows p + 1"
    by (simp_all add: addRow_def Let_def Rows_def)
  have cols: "\<forall>col\<in>set (Dims ?q). length col = Rows ?q" "length (Dims ?q) = numDims"
    using assms unfolding f by (auto simp: part_ok_def set_zip)
  have "\<forall>t\<in>set (TS ?q). MinTS ?q \<le> t \<and> t \<le> MaxTS ?q"
    using assms by (auto simp: addRow_def Let_def part_ok_def)
  then show "part_ok ?q" using assms cols f unfolding part_ok_def by simp
  show "part_rows ?q = part_rows p @ [?r]"
  proof (rule nth_equalityI)
    fix i assume "i < length (part_rows ?q)"
    then have i: "i < Rows p \<or> i = Rows p" using f(5) by auto
    show "part_rows ?q ! i = (part_rows p @ [?r]) ! i"
    proof (cases "i < Rows p")
      case True
      then show ?thesis using assms f map2_snoc_col [of ds "Dims p" "Rows p" i]
        by (simp add: part_row_def nth_append part_ok_def Rows_def)
    next
      case False
      then have "i = Rows p" using i by simp
      then show ?thesis using assms f map2_snoc_last [of ds "Dims p" "Rows p"]
        by (simp add: part_row_def nth_append part_ok_def Rows_def)
    qed
  qed (simp add: f)
qed

lemma copyRow_ok:
  assumes "part_ok p" "part_ok src" "i < Rows src"
  shows "part_ok (copyRow src i p)" "part_rows (copyRow src i p) = part_rows p @ [part_rows src ! i]"
  using addRow_ok [OF assms(1), of "map (\<lambda>col. col ! i) (Dims src)"] assms(2,3)
  by (simp_all add: copyRow_def part_ok_def part_row_def)

lemma addRow_Day [simp]: "Day (addRow ts c ds b p) = Day p" "Level (addRow ts c ds b p) = Level p"
  by (simp_all add: addRow_def Let_def)

lemma fold_copyRow:
  assumes "part_ok p" "\<forall>(pi, i)\<in>set refs. part_ok (src pi) \<and> i < Rows (src pi)"
  shows "part_ok (fold (\<lambda>(pi, i). copyRow (src pi) i) refs p) \<and>
    part_rows (fold (\<lambda>(pi, i). copyRow (src pi) i) refs p) = part_rows p @ map (\<lambda>(pi, i). part_rows (src pi) ! i) refs"
  using assms
proof (induction refs arbitrary: p)
  case (Cons r refs)
  obtain pi i where r: "r = (pi, i)" by fastforce
  from Cons.prems have c: "part_ok (copyRow (src pi) i p)"
    "part_rows (copyRow (src pi) i p) = part_rows p @ [part_rows (src pi) ! i]"
    using copyRow_ok [of p "src pi" i] by (auto simp: r)
  from Cons.IH [OF c(1)] Cons.prems(2) c(2) show ?case by (auto simp: r)
qed simp

lemma row_refs_rows:
  "map (\<lambda>(pi, i). part_rows (ps ! pi) ! i) (row_refs ps) = concat (map part_rows ps)"
proof -
  have "map (\<lambda>(pi, i). part_rows (src pi) ! i) (concat (map (\<lambda>(pi, p). map (\<lambda>i. (pi, i)) [0..<length (TS p)]) (List.enumerate n qs)))
      = concat (map part_rows qs)" if "\<forall>j<length qs. src (n + j) = qs ! j" for src qs n
    using that
  proof (induction qs arbitrary: n)
    case (Cons q qs)
    have "src n = q" using Cons.prems [rule_format, of 0] by simp
    then have "map (\<lambda>i. part_rows (src n) ! i) [0..<length (TS q)] = part_rows q"
      by (intro nth_equalityI) (auto simp: Rows_def)
    moreover have "\<forall>j<length qs. src (Suc n + j) = qs ! j" using Cons.prems by fastforce
    ultimately show ?case using Cons.IH [of "Suc n"] by (simp add: comp_def)
  qed simp
  from this [of ps "(!) ps" 0] show ?thesis by (simp add: row_refs_def)
qed

lemma row_refs_range: "(pi, i) \<in> set (row_refs ps) \<Longrightarrow> pi < length ps \<and> i < Rows (ps ! pi)"
  by (auto simp: row_refs_def Rows_def in_set_enumerate_eq)

lemma mergeParts_rows:
  assumes "\<forall>p\<in>set ps. part_ok p"
  shows "part_ok (mergeParts dk ps) \<and> part_rows (mergeParts dk ps) = sort_key r_ts (concat (map part_rows ps))"
proof -
  let ?key = "\<lambda>(pi, i). TS (ps ! pi) ! i" let ?row = "\<lambda>(pi, i). part_rows (ps ! pi) ! i"
  let ?refs = "sort_key ?key (row_refs ps)"
  have "\<forall>(pi, i)\<in>set ?refs. part_ok (ps ! pi) \<and> i < Rows (ps ! pi)"
    using assms row_refs_range [of _ _ ps] by auto
  from fold_copyRow [OF conjunct1 [OF new_part_ok [of dk 1]] this] new_part_ok [of dk 1]
  have m: "part_ok (mergeParts dk ps)" "part_rows (mergeParts dk ps) = map ?row ?refs"
    by (simp_all add: mergeParts_def)
  have "\<forall>r\<in>set (row_refs ps). ?key r = r_ts (?row r)"
    using row_refs_range [of _ _ ps] by (auto simp: part_row_def)
  then have "?refs = sort_key (\<lambda>r. r_ts (?row r)) (row_refs ps)" by (rule sort_key_cong)
  then have "map ?row ?refs = sort_key r_ts (map ?row (row_refs ps))" by (simp only: map_sort_key)
  with m row_refs_rows [of ps] show ?thesis by simp
qed

lemma withoutCode_rows:
  assumes "part_ok p"
  shows "snd (withoutCode p c) = length (filter (\<lambda>r. r_code r = c) (part_rows p))"
    "case fst (withoutCode p c) of None \<Rightarrow> filter (\<lambda>r. r_code r \<noteq> c) (part_rows p) = []
      | Some q \<Rightarrow> part_ok q \<and> part_rows q = filter (\<lambda>r. r_code r \<noteq> c) (part_rows p)"
proof -
  have codes: "Code p = map r_code (part_rows p)" using part_rows_code [OF assms] by simp
  let ?h = "length (filter (\<lambda>r. r_code r = c) (part_rows p))"
  have h: "length (filter (\<lambda>x. x = c) (Code p)) = ?h" unfolding codes by (simp add: filter_map comp_def)
  have "fold (\<lambda>(i, x) np. if x \<noteq> c then copyRow p i np else np) xs q
      = fold (\<lambda>(u, i). copyRow p i) (map (\<lambda>(i, x). ((), i)) (filter (\<lambda>(i, x). x \<noteq> c) xs)) q" for xs q
    by (induction xs arbitrary: q) auto
  note f = this
  let ?xs = "filter (\<lambda>(i, x). x \<noteq> c) (List.enumerate 0 (Code p))"
  let ?q = "fold (\<lambda>(i, x) np. if x \<noteq> c then copyRow p i np else np) (List.enumerate 0 (Code p)) (new_part (Day p) (Level p))"
  have rng: "\<forall>(u, i)\<in>set (map (\<lambda>(i, x). ((), i)) ?xs). part_ok p \<and> i < Rows p"
    using assms by (auto simp: in_set_enumerate_eq part_ok_def)
  have q: "part_ok ?q" "part_rows ?q = map (\<lambda>(i, x). part_rows p ! i) ?xs"
    unfolding f using fold_copyRow [OF conjunct1 [OF new_part_ok [of "Day p" "Level p"]], of _ "\<lambda>_. p", OF rng] new_part_ok [of "Day p" "Level p"]
    by (simp_all add: case_prod_beta')
  have "map (\<lambda>(i, x). rows ! (i - n)) (filter (\<lambda>(i, x). x \<noteq> c) (List.enumerate n (map r_code rows))) = filter (\<lambda>r. r_code r \<noteq> c) rows"
    for rows n
  proof (induction rows arbitrary: n)
    case (Cons r rows)
    have "map (\<lambda>(i, x). (r # rows) ! (i - n)) (filter (\<lambda>(i, x). x \<noteq> c) (List.enumerate (Suc n) (map r_code rows)))
      = map (\<lambda>(i, x). rows ! (i - Suc n)) (filter (\<lambda>(i, x). x \<noteq> c) (List.enumerate (Suc n) (map r_code rows)))"
      by (rule map_cong) (auto simp: in_set_enumerate_eq nth_Cons' )
    then show ?case using Cons.IH [of "Suc n"] by simp
  qed simp
  from this [of "part_rows p" 0] have rows: "part_rows ?q = filter (\<lambda>r. r_code r \<noteq> c) (part_rows p)"
    using q(2) codes by simp
  have all: "filter (\<lambda>r. r_code r \<noteq> c) (part_rows p) = part_rows p" if "?h = 0"
    using that by (auto simp: filter_empty_conv intro: filter_True)
  have none: "filter (\<lambda>r. r_code r \<noteq> c) (part_rows p) = []" if "?h = Rows p"
    using that sum_length_filter_compl [of "\<lambda>r. r_code r = c" "part_rows p"] by simp
  show "snd (withoutCode p c) = ?h" by (simp add: withoutCode_def Let_def h)
  show "case fst (withoutCode p c) of None \<Rightarrow> filter (\<lambda>r. r_code r \<noteq> c) (part_rows p) = []
      | Some q \<Rightarrow> part_ok q \<and> part_rows q = filter (\<lambda>r. r_code r \<noteq> c) (part_rows p)"
    using q(1) rows all none assms unfolding withoutCode_def Let_def h by simp
qed

section \<open>Views\<close>

text \<open>A counter that each update raises by one when the row counts for it.\<close>

locale counter_view =
  fixes upd :: "'r \<Rightarrow> 's \<Rightarrow> 's" and rd :: "'s \<Rightarrow> nat" and hit :: "'r \<Rightarrow> bool"
    and ok :: "'s \<Rightarrow> bool" and rok :: "'r \<Rightarrow> bool"
  assumes upd_ok: "ok s \<Longrightarrow> rok r \<Longrightarrow> ok (upd r s)"
    and upd_rd: "ok s \<Longrightarrow> rok r \<Longrightarrow> rd (upd r s) = rd s + (if hit r then 1 else 0)"
begin

lemma fold_counts:
  "ok s \<Longrightarrow> \<forall>r\<in>set rs. rok r \<Longrightarrow> ok (fold upd rs s) \<and> rd (fold upd rs s) = rd s + length (filter hit rs)"
  by (induction rs arbitrary: s) (auto simp: upd_ok upd_rd)

end

lemma mget_bump: "mget 0 (bump k m) j = mget 0 m j + (if j = k then 1 else 0)"
  by (simp add: bump_def)

lemma wf_bump [simp]: "wf_map m \<Longrightarrow> wf_map (bump k m)"
  by (simp add: bump_def)

lemma bump_pos: "wf_map m \<Longrightarrow> \<forall>(v, n)\<in>set m. 0 < n \<Longrightarrow> \<forall>(v, n)\<in>set (bump k m). 0 < n"
  unfolding bump_def using put_entries [of m _ _ k] by fastforce

lemma incr_eq: "incr k m rows = (bump k m, rows + int (length (bump k m)) - int (length m))"
  by (simp add: incr_def bump_def length_put)

interpretation bumped: counter_view bump "\<lambda>m. mget 0 m k" "\<lambda>j. j = k" wf_map "\<lambda>_. True" for k
  by unfold_locales (auto simp: mget_bump)

lemma dim_rows_put:
  "dim_rows (mput h vs m) = dim_rows m + int (length vs) - int (length (mget [] m h))"
  using sum_put [of "\<lambda>h vs. int (length vs)" h vs m] by (simp add: dim_rows_def mget_def split: option.splits)

lemma dim_ok_get: "dim_ok m \<Longrightarrow> wf_map (mget [] m h) \<and> (\<forall>(v, n)\<in>set (mget [] m h). 0 < n)"
  unfolding dim_ok_def using mget_all [of m "\<lambda>h vs. wf_map vs \<and> (\<forall>(v, n)\<in>set vs. 0 < n)" h "[]"] by simp

lemma dim_ok_put:
  assumes "dim_ok m"
  shows "dim_ok (mput h (bump v (mget [] m h)) m)"
proof -
  note g = dim_ok_get [OF assms, of h]
  have "wf_map (bump v (mget [] m h)) \<and> (\<forall>(v, n)\<in>set (bump v (mget [] m h)). 0 < n)"
    using g bump_pos [OF g [THEN conjunct1] g [THEN conjunct2]] by simp
  with assms show ?thesis unfolding dim_ok_def
    using put_all [of m "\<lambda>h vs. wf_map vs \<and> (\<forall>(v, n)\<in>set vs. 0 < n)"] by simp
qed

lemma bump_dims_eq:
  "length ms = length vs \<Longrightarrow> bump_dims h ms vs rows =
    (map2 (\<lambda>m v. mput h (bump v (mget [] m h)) m) ms vs,
     rows + (\<Sum>m\<leftarrow>map2 (\<lambda>m v. mput h (bump v (mget [] m h)) m) ms vs. dim_rows m) - (\<Sum>m\<leftarrow>ms. dim_rows m))"
  by (induction h ms vs rows rule: bump_dims.induct) (simp_all add: incr_eq dim_rows_put)

definition bumped_code :: "int \<Rightarrow> u32 list \<Rightarrow> bool \<Rightarrow> code_mv \<Rightarrow> code_mv" where
  "bumped_code ts ds b cm =
     \<lparr>minute = bump (floorTo ts minuteMS) (minute cm), hour = bump (floorTo ts hourMS) (hour cm),
      day = bump (floorTo ts dayMS) (day cm),
      bots = if b then bump (floorTo ts dayMS) (bots cm) else bots cm,
      dims = map2 (\<lambda>m v. mput (floorTo ts hourMS) (bump v (mget [] m (floorTo ts hourMS))) m) (dims cm) ds,
      first = min (first cm) ts, last_ts = max (last_ts cm) ts\<rparr>"

lemma update_code_eq:
  "length (dims cm) = length ds \<Longrightarrow>
    update_code ts ds b cm rows = (bumped_code ts ds b cm, rows + mv_rows (bumped_code ts ds b cm) - mv_rows cm)"
  by (simp add: bumped_code_def update_code_def Let_def incr_eq bump_dims_eq mv_rows_def)

text \<open>One row added to the views.\<close>

definition add_view :: "row \<Rightarrow> olap \<Rightarrow> olap" where
  "add_view r s = updateMV (r_code r) (r_ts r) (r_dims r) (r_bot r) s"

lemma mv_ok_new: "mv_ok (newCodeMV ts)" "mv_rows (newCodeMV ts) = 0" "read_view k (newCodeMV ts) = 0"
proof -
  show "mv_ok (newCodeMV ts)" by (simp add: mv_ok_def newCodeMV_def dim_ok_def)
  show "mv_rows (newCodeMV ts) = 0" by (simp add: mv_rows_def newCodeMV_def dim_rows_def sum_list_replicate)
  show "read_view k (newCodeMV ts) = 0" by (cases k) (simp_all add: newCodeMV_def)
qed

lemma update_code_ok:
  assumes "mv_ok cm" "length (r_dims r) = numDims"
  shows "mv_ok (fst (update_code (r_ts r) (r_dims r) (r_bot r) cm rows))"
    "read_view k (fst (update_code (r_ts r) (r_dims r) (r_bot r) cm rows)) = read_view k cm + (if view_hit k r then 1 else 0)"
    "snd (update_code (r_ts r) (r_dims r) (r_bot r) cm rows)
       = rows + mv_rows (fst (update_code (r_ts r) (r_dims r) (r_bot r) cm rows)) - mv_rows cm"
proof -
  have l: "length (dims cm) = length (r_dims r)" using assms by (simp add: mv_ok_def)
  show "mv_ok (fst (update_code (r_ts r) (r_dims r) (r_bot r) cm rows))"
    using assms by (auto simp: update_code_eq [OF l] bumped_code_def mv_ok_def set_zip intro!: dim_ok_put)
  show "read_view k (fst (update_code (r_ts r) (r_dims r) (r_bot r) cm rows)) = read_view k cm + (if view_hit k r then 1 else 0)"
    using l by (cases k) (auto simp: update_code_eq [OF l] bumped_code_def mget_bump)
  show "snd (update_code (r_ts r) (r_dims r) (r_bot r) cm rows)
       = rows + mv_rows (fst (update_code (r_ts r) (r_dims r) (r_bot r) cm rows)) - mv_rows cm"
    by (simp add: update_code_eq [OF l])
qed

lemma mvs_ok_get: "mvs_ok s \<Longrightarrow> mv_ok (mget (newCodeMV ts) (o_mv s) c)"
  using mv_ok_new by (auto simp: mvs_ok_def mget_def split: option.splits dest!: map_of_SomeD)

lemma view_get: "view k c s = read_view k (mget (newCodeMV ts) (o_mv s) c)"
  by (simp add: view_def mget_def mv_ok_new split: option.splits)

lemma add_view_ok:
  assumes "mvs_ok s" "length (r_dims r) = numDims"
  shows "mvs_ok (add_view r s)"
    "view k c (add_view r s) = view k c s + (if r_code r = c \<and> view_hit k r then 1 else 0)"
proof -
  define cm where "cm = mget (newCodeMV (r_ts r)) (o_mv s) (r_code r)"
  define cm' where "cm' = fst (update_code (r_ts r) (r_dims r) (r_bot r) cm (mvRows s))"
  have ok: "mv_ok cm" unfolding cm_def using assms(1) by (rule mvs_ok_get)
  note u = update_code_ok [OF ok assms(2), where rows = "mvRows s", folded cm'_def]
  have e: "o_mv (add_view r s) = mput (r_code r) cm' (o_mv s)" "mvRows (add_view r s) = mvRows s + mv_rows cm' - mv_rows cm"
    using u(3) by (simp_all add: add_view_def updateMV_def Let_def case_prod_beta' cm'_def cm_def)
  have w: "wf_map (o_mv s)" using assms(1) by (simp add: mvs_ok_def)
  have "(\<Sum>(c, cm)\<leftarrow>o_mv (add_view r s). mv_rows cm) + mv_rows cm = (\<Sum>(c, cm)\<leftarrow>o_mv s. mv_rows cm) + mv_rows cm'"
    using sum_put [of "\<lambda>c cm. mv_rows cm" "r_code r" cm' "o_mv s"]
    by (simp add: e cm_def mget_def mv_ok_new split: option.splits)
  moreover have "\<forall>(c, cm)\<in>set (o_mv (add_view r s)). mv_ok cm"
    using put_entries [OF w, of _ _ "r_code r" cm'] u(1) assms(1) unfolding e mvs_ok_def by blast
  ultimately show "mvs_ok (add_view r s)" using assms(1) w e by (simp add: mvs_ok_def)
  show "view k c (add_view r s) = view k c s + (if r_code r = c \<and> view_hit k r then 1 else 0)"
    using u(2) view_get [of k "r_code r" s "r_ts r"] e by (auto simp: view_def cm_def [symmetric] split: if_splits)
qed

interpretation stored: counter_view add_view "view k c" "\<lambda>r. r_code r = c \<and> view_hit k r" mvs_ok "\<lambda>r. length (r_dims r) = numDims" for k c
  by unfold_locales (simp_all add: add_view_ok)

section \<open>Insert\<close>

text \<open>The rows that a list of events is stored as, with the dictionary after them.\<close>

definition event_row :: "dict \<Rightarrow> click_event \<Rightarrow> row \<times> dict" where
  "event_row d e =
     (let (c, d1) = ID d (ev_Code e);
          (ds, d2) = dimIDs d1 (eventDims e)
      in (\<lparr>r_ts = ev_TS e, r_code = c, r_dims = ds, r_bot = ev_Bot e\<rparr>, d2))"

fun event_rows :: "dict \<Rightarrow> click_event list \<Rightarrow> row list \<times> dict" where
  "event_rows d [] = ([], d)"
| "event_rows d (e # es) = (let (r, d1) = event_row d e; (rs, d2) = event_rows d1 es in (r # rs, d2))"

definition add_part_row :: "row \<Rightarrow> part \<Rightarrow> part" where
  "add_part_row r p = addRow (r_ts r) (r_code r) (r_dims r) (r_bot r) p"

lemma length_dimIDs: "length (fst (dimIDs d ss)) = length ss"
  by (induction ss arbitrary: d) (auto simp: Let_def case_prod_beta')

lemma event_row_fields:
  "r_ts (fst (event_row d e)) = ev_TS e" "r_bot (fst (event_row d e)) = ev_Bot e"
  "length (r_dims (fst (event_row d e))) = numDims"
  using length_dimIDs [of _ "eventDims e"]
  by (simp_all add: event_row_def Let_def case_prod_beta' eventDims_def numDims_def)

lemma event_rows_fields:
  "map r_ts (fst (event_rows d es)) = map ev_TS es" "map r_bot (fst (event_rows d es)) = map ev_Bot es"
  "\<forall>r\<in>set (fst (event_rows d es)). length (r_dims r) = numDims"
  by (induction es arbitrary: d) (simp_all add: Let_def case_prod_beta' event_row_fields)

lemma add_view_dict: "add_view r (s\<lparr>o_dict := d\<rparr>) = (add_view r s)\<lparr>o_dict := d\<rparr>"
  by (simp add: add_view_def updateMV_def Let_def case_prod_beta')

lemma fold_add_view_dict: "fold add_view rs (s\<lparr>o_dict := d\<rparr>) = (fold add_view rs s)\<lparr>o_dict := d\<rparr>"
  by (induction rs arbitrary: s) (simp_all add: add_view_dict)

lemma insert_event_eq:
  "insert_event e (s, p) =
    ((add_view (fst (event_row (o_dict s) e)) s)\<lparr>o_dict := snd (event_row (o_dict s) e)\<rparr>,
     add_part_row (fst (event_row (o_dict s) e)) p)"
  by (simp add: insert_event_def event_row_def Let_def case_prod_beta' add_view_dict add_part_row_def flip: add_view_dict)
    (simp add: add_view_def)

lemma fold_insert_event:
  "fold insert_event es (s, p) =
    ((fold add_view (fst (event_rows (o_dict s) es)) s)\<lparr>o_dict := snd (event_rows (o_dict s) es)\<rparr>,
     fold add_part_row (fst (event_rows (o_dict s) es)) p)"
  by (induction es arbitrary: s p)
    (simp_all add: insert_event_eq Let_def case_prod_beta' fold_add_view_dict)

lemma fold_add_part_row:
  "part_ok p \<Longrightarrow> \<forall>r\<in>set rs. length (r_dims r) = numDims \<Longrightarrow>
    part_ok (fold add_part_row rs p) \<and> part_rows (fold add_part_row rs p) = part_rows p @ rs"
proof (induction rs arbitrary: p)
  case (Cons r rs)
  have a: "part_ok (add_part_row r p)" "part_rows (add_part_row r p) = part_rows p @ [r]"
    using addRow_ok [of p "r_dims r" "r_ts r" "r_code r" "r_bot r"] Cons.prems by (simp_all add: add_part_row_def)
  with Cons.IH [OF a(1)] Cons.prems show ?case by simp
qed simp

lemma view_cong: "o_mv t = o_mv s \<Longrightarrow> view k c t = view k c s"
  by (simp add: view_def)

lemma mvs_ok_cong: "o_mv t = o_mv s \<Longrightarrow> mvRows t = mvRows s \<Longrightarrow> mvs_ok t = mvs_ok s"
  by (simp add: mvs_ok_def)

lemma fold_add_view_frame:
  "o_parts (fold add_view rs s) = o_parts s \<and> TotalRows (fold add_view rs s) = TotalRows s
   \<and> o_retention (fold add_view rs s) = o_retention s"
  by (induction rs arbitrary: s) (simp_all add: add_view_def updateMV_def Let_def case_prod_beta')

lemma count_rows_append: "count_rows P (ps @ qs) = count_rows P ps + count_rows P qs"
  by (simp add: count_rows_def)

lemma row_count_put:
  "o_parts t = mput dk (mget [] (o_parts s) dk @ [p]) (o_parts s) \<Longrightarrow>
    row_count P t = row_count P s + length (filter P (part_rows p))"
  using sum_put [of "\<lambda>dk. count_rows P" dk "mget [] (o_parts s) dk @ [p]" "o_parts s"]
  by (auto simp: row_count_def count_rows_append mget_def count_rows_def split: option.splits)

lemma insert_day_frame:
  fixes s es dk
  defines "t \<equiv> insert_day dk es s"
  defines "rs \<equiv> fst (event_rows (o_dict s) es)"
  defines "p \<equiv> fold add_part_row rs (new_part dk 0)"
  shows "o_parts t = mput dk (mget [] (o_parts s) dk @ [p]) (o_parts s)" "TotalRows t = TotalRows s + of_nat (length rs)"
    "o_retention t = o_retention s" "o_mv t = o_mv (fold add_view rs s)" "mvRows t = mvRows (fold add_view rs s)"
    "part_ok p" "part_rows p = rs" "o_dict t = snd (event_rows (o_dict s) es)"
proof -
  have p: "part_ok p" "part_rows p = rs"
    using fold_add_part_row [of "new_part dk 0" rs] new_part_ok [of dk 0] event_rows_fields(3) [of "o_dict s" es]
    by (simp_all add: p_def rs_def)
  have "Rows p = length rs" using p(2) length_part_rows [of p] by simp
  then show "TotalRows t = TotalRows s + of_nat (length rs)"
    unfolding t_def insert_day_def fold_insert_event rs_def p_def by (simp add: fold_add_view_frame)
  show "o_parts t = mput dk (mget [] (o_parts s) dk @ [p]) (o_parts s)" "o_retention t = o_retention s"
    "o_mv t = o_mv (fold add_view rs s)" "mvRows t = mvRows (fold add_view rs s)" "o_dict t = snd (event_rows (o_dict s) es)"
    unfolding t_def insert_day_def fold_insert_event rs_def p_def by (simp_all add: fold_add_view_frame)
  show "part_ok p" "part_rows p = rs" by (fact p)+
qed

lemma insert_day_ok:
  assumes "olap_ok mcut s" "\<forall>e\<in>set es. dayKey (ev_TS e) = dk \<and> ts_ok (ev_TS e)"
  shows "olap_ok mcut (insert_day dk es s)"
    "row_count P (insert_day dk es s) = row_count P s + length (filter P (fst (event_rows (o_dict s) es)))"
proof -
  define rs where "rs = fst (event_rows (o_dict s) es)"
  define p where "p = fold add_part_row rs (new_part dk 0)"
  note f = insert_day_frame [where dk = dk and es = es and s = s, folded rs_def, folded p_def]
  have rc: "row_count P (insert_day dk es s) = row_count P s + length (filter P rs)" for P
    using row_count_put [OF f(1)] f(7) by simp
  then show "row_count P (insert_day dk es s) = row_count P s + length (filter P (fst (event_rows (o_dict s) es)))"
    by (simp add: rs_def)
  have ok: "parts_ok s" "mvs_ok s" "mv_exact mcut s" using assms(1) by (simp_all add: olap_ok_def)
  have v: "mvs_ok (fold add_view rs s) \<and> view k c (fold add_view rs s) = view k c s + length (filter (\<lambda>r. r_code r = c \<and> view_hit k r) rs)" for k c
    using stored.fold_counts [OF ok(2), of rs k c] event_rows_fields(3) [of "o_dict s" es] by (simp add: rs_def)
  have "TS p = map ev_TS es" using part_rows_ts [of p] f(7) event_rows_fields(1) [of "o_dict s" es] by (simp add: rs_def)
  then have new: "part_ok p \<and> (\<forall>ts\<in>set (TS p). dayKey ts = dk \<and> ts_ok ts)" using assms(2) f(6) by simp
  have w: "wf_map (o_parts s)" using ok(1) by (simp add: parts_ok_def)
  have old: "\<forall>q\<in>set (mget [] (o_parts s) dk). part_ok q \<and> (\<forall>ts\<in>set (TS q). dayKey ts = dk \<and> ts_ok ts)"
    using ok(1) mget_all [of "o_parts s" "\<lambda>dk ps. \<forall>q\<in>set ps. part_ok q \<and> (\<forall>ts\<in>set (TS q). dayKey ts = dk \<and> ts_ok ts)" dk "[]"]
    by (simp add: parts_ok_def)
  have "\<forall>(dk', ps)\<in>set (o_parts (insert_day dk es s)). \<forall>q\<in>set ps. part_ok q \<and> (\<forall>ts\<in>set (TS q). dayKey ts = dk' \<and> ts_ok ts)"
    unfolding f(1) by (rule put_all [OF w]) (use ok(1) old new in \<open>auto simp: parts_ok_def\<close>)
  moreover have "TotalRows (insert_day dk es s) = of_nat (row_count (\<lambda>r. True) (insert_day dk es s))"
    using f(2) rc ok(1) by (simp add: parts_ok_def)
  ultimately have "parts_ok (insert_day dk es s)" using w f(1) by (simp add: parts_ok_def)
  moreover have "mvs_ok (insert_day dk es s)" using v mvs_ok_cong [OF f(4,5)] by simp
  moreover have "mv_exact mcut (insert_day dk es s)" using ok(3) v rc view_cong [OF f(4)] by (simp add: mv_exact_def)
  ultimately show "olap_ok mcut (insert_day dk es s)" by (simp add: olap_ok_def)
qed

lemma byDay_get: "mget [] (byDay batch) dk = filter (\<lambda>e. dayKey (ev_TS e) = dk) batch"
proof -
  have "mget [] (fold (\<lambda>e m. mput (dayKey (ev_TS e)) (mget [] m (dayKey (ev_TS e)) @ [e]) m) batch m) dk
    = mget [] m dk @ filter (\<lambda>e. dayKey (ev_TS e) = dk) batch" for m
    by (induction batch arbitrary: m) auto
  then show ?thesis by (simp add: byDay_def)
qed

lemma byDay_keys: "set (map fst (byDay batch)) = (\<lambda>e. dayKey (ev_TS e)) ` set batch"
proof -
  have "set (map fst (fold (\<lambda>e m. mput (dayKey (ev_TS e)) (mget [] m (dayKey (ev_TS e)) @ [e]) m) batch m))
    = set (map fst m) \<union> (\<lambda>e. dayKey (ev_TS e)) ` set batch" for m
    by (induction batch arbitrary: m) (auto simp: dom_update)
  then show ?thesis by (simp add: byDay_def)
qed

lemma insert_days_ok:
  assumes "olap_ok mcut s" "\<forall>e\<in>set batch. ts_ok (ev_TS e)"
  shows "olap_ok mcut (fold (\<lambda>dk. insert_day dk (mget [] (byDay batch) dk)) order s)"
  using assms
proof (induction order arbitrary: s)
  case (Cons dk order)
  have "olap_ok mcut (insert_day dk (mget [] (byDay batch) dk) s)"
    using Cons.prems by (intro insert_day_ok) (auto simp: byDay_get)
  with Cons show ?case by simp
qed simp

lemma olap_ok_cong:
  assumes "o_parts t = o_parts s" "o_mv t = o_mv s" "mvRows t = mvRows s" "TotalRows t = TotalRows s"
  shows "olap_ok mcut t = olap_ok mcut s"
  using assms by (simp add: olap_ok_def parts_ok_def mvs_ok_def mv_exact_def view_def row_count_def)

lemma Insert_ok:
  assumes "olap_ok mcut s" "\<forall>e\<in>set batch. ts_ok (ev_TS e)"
  shows "olap_ok mcut (Insert order batch s)"
proof (cases "batch = []")
  case False
  let ?o = "fold (\<lambda>dk. insert_day dk (mget [] (byDay batch) dk)) order s"
  have "olap_ok mcut (?o\<lparr>Inserts := Inserts ?o + 1\<rparr>) = olap_ok mcut ?o" by (rule olap_ok_cong) simp_all
  with insert_days_ok [OF assms, of order] False show ?thesis by (simp only: Insert_def Let_def if_False simp_thms)
qed (use assms in \<open>simp add: Insert_def\<close>)

section \<open>Counting rows\<close>

lemma count_rows_cong:
  "(\<And>p r. p \<in> set ps \<Longrightarrow> r \<in> set (part_rows p) \<Longrightarrow> P r = Q r) \<Longrightarrow> count_rows P ps = count_rows Q ps"
  unfolding count_rows_def by (intro arg_cong [where f = sum_list] map_cong refl arg_cong [where f = length] filter_cong) auto

lemma row_count_cong:
  assumes "\<And>r. r \<in> store_rows s \<Longrightarrow> P r = Q r"
  shows "row_count P s = row_count Q s"
  unfolding row_count_def
proof (intro arg_cong [where f = sum_list] map_cong refl)
  fix x assume x: "x \<in> set (o_parts s)"
  obtain dk ps where "x = (dk, ps)" by fastforce
  with x show "(case x of (dk, ps) \<Rightarrow> count_rows P ps) = (case x of (dk, ps) \<Rightarrow> count_rows Q ps)"
    using assms by (auto simp: store_rows_def intro!: count_rows_cong)
qed

lemma count_rows_0: "count_rows P ps = 0 \<longleftrightarrow> (\<forall>p\<in>set ps. \<forall>r\<in>set (part_rows p). \<not> P r)"
  by (auto simp: count_rows_def filter_empty_conv)

lemma row_count_0: "row_count P s = 0 \<longleftrightarrow> (\<forall>r\<in>store_rows s. \<not> P r)"
  unfolding row_count_def store_rows_def by (auto simp: count_rows_0) blast

lemma store_rows_ok:
  assumes "parts_ok s" "r \<in> store_rows s"
  shows "ts_ok (r_ts r)"
proof -
  from assms(2) obtain dk ps p where r: "(dk, ps) \<in> set (o_parts s)" "p \<in> set ps" "r \<in> set (part_rows p)"
    by (auto simp: store_rows_def)
  then have "r_ts r \<in> set (TS p)" using part_rows_ts [of p] by (metis image_eqI image_set)
  with r assms(1) show ?thesis by (auto simp: parts_ok_def)
qed

lemma set_TS: "set (TS p) = r_ts ` set (part_rows p)"
  using part_rows_ts [of p] by (metis set_map)

section \<open>Merging\<close>

lemma count_rows_concat: "count_rows P ps = length (filter P (concat (map part_rows ps)))"
  by (induction ps) (simp_all add: count_rows_def)

lemma length_filter_sort: "length (filter P (sort_key f xs)) = length (filter P xs)"
  by (metis mset_filter mset_sort size_mset)

lemma count_rows_partition:
  "count_rows P (filter Q ps) + count_rows P (filter (\<lambda>p. \<not> Q p) ps) = count_rows P ps"
  by (induction ps) (simp_all add: count_rows_def)

lemma merge_day_rows:
  assumes "\<forall>p\<in>set ps. part_ok p \<and> (\<forall>ts\<in>set (TS p). Q ts)" "merge_day dk ps = Some ps'"
  shows "count_rows P ps' = count_rows P ps" "\<forall>p\<in>set ps'. part_ok p \<and> (\<forall>ts\<in>set (TS p). Q ts)"
proof -
  let ?keep = "filter (\<lambda>p. mergeMaxPartRow < Rows p) ps" let ?small = "filter (\<lambda>p. \<not> mergeMaxPartRow < Rows p) ps"
  have ps': "ps' = ?keep @ [mergeParts dk ?small]"
    using assms(2) by (auto simp: merge_day_def Let_def split: if_splits)
  have m: "part_ok (mergeParts dk ?small)" "part_rows (mergeParts dk ?small) = sort_key r_ts (concat (map part_rows ?small))"
    using mergeParts_rows [of ?small dk] assms(1) by auto
  have "count_rows P [mergeParts dk ?small] = count_rows P ?small"
    by (simp add: count_rows_concat m(2) length_filter_sort)
  then show "count_rows P ps' = count_rows P ps"
    unfolding ps' count_rows_append using count_rows_partition [of P "\<lambda>p. mergeMaxPartRow < Rows p" ps] by simp
  have "\<forall>ts\<in>set (TS (mergeParts dk ?small)). Q ts" using assms(1) by (auto simp: set_TS m(2))
  then show "\<forall>p\<in>set ps'. part_ok p \<and> (\<forall>ts\<in>set (TS p). Q ts)" unfolding ps' using assms(1) m(1) by auto
qed

text \<open>Replacing the parts of each day by parts with the same rows.\<close>

lemma replace_parts:
  assumes "parts_ok s" "o_parts t = map (\<lambda>(dk, ps). (dk, f dk ps)) (o_parts s)" "TotalRows t = TotalRows s"
    and "\<And>dk ps. (dk, ps) \<in> set (o_parts s) \<Longrightarrow> (\<forall>P. count_rows P (f dk ps) = count_rows P ps)
      \<and> (\<forall>p\<in>set (f dk ps). part_ok p \<and> (\<forall>ts\<in>set (TS p). dayKey ts = dk \<and> ts_ok ts))"
  shows "parts_ok t" "row_count P t = row_count P s"
proof -
  have rc: "row_count P t = row_count P s" for P
    unfolding row_count_def assms(2)
    by (simp add: comp_def case_prod_beta') (intro arg_cong [where f = sum_list] map_cong, use assms(4) in auto)
  then show "row_count P t = row_count P s" .
  show "parts_ok t" using assms(1,3) rc unfolding parts_ok_def assms(2) by (auto dest: assms(4))
qed

lemma mergeOnce_ok:
  assumes "olap_ok mcut s"
  shows "olap_ok mcut (mergeOnce s)" "row_count P (mergeOnce s) = row_count P s"
proof -
  let ?f = "\<lambda>dk ps. case merge_day dk ps of None \<Rightarrow> ps | Some ps' \<Rightarrow> ps'"
  have ok: "parts_ok s" using assms by (simp add: olap_ok_def)
  have day: "(\<forall>P. count_rows P (?f dk ps) = count_rows P ps)
      \<and> (\<forall>p\<in>set (?f dk ps). part_ok p \<and> (\<forall>ts\<in>set (TS p). dayKey ts = dk \<and> ts_ok ts))"
    if "(dk, ps) \<in> set (o_parts s)" for dk ps
  proof -
    have a: "\<forall>p\<in>set ps. part_ok p \<and> (\<forall>ts\<in>set (TS p). dayKey ts = dk \<and> ts_ok ts)"
      using ok that by (auto simp: parts_ok_def)
    show ?thesis
    proof (cases "merge_day dk ps")
      case (Some ps')
      from merge_day_rows [OF a this] show ?thesis unfolding Some option.case by (intro conjI allI)
    qed (use a in simp)
  qed
  have e: "o_parts (mergeOnce s) = map (\<lambda>(dk, ps). (dk, ?f dk ps)) (o_parts s)" "TotalRows (mergeOnce s) = TotalRows s"
    "o_mv (mergeOnce s) = o_mv s" "mvRows (mergeOnce s) = mvRows s"
    by (simp_all add: mergeOnce_def)
  note r = replace_parts [OF ok e(1,2) day]
  show "row_count P (mergeOnce s) = row_count P s" by (rule r(2))
  show "olap_ok mcut (mergeOnce s)"
    using assms r e(3,4) unfolding olap_ok_def mv_exact_def by (simp add: view_cong [OF e(3)] mvs_ok_cong [OF e(3,4)])
qed

section \<open>Purge\<close>

lemma atomicSub_minus: "atomicSub c n = c - of_nat n"
  by (simp add: atomicSub_def not_eq_complement)

lemma purge_parts_rows:
  assumes "\<forall>p\<in>set ps. part_ok p \<and> (\<forall>ts\<in>set (TS p). Q ts)"
  shows "count_rows P (purge_parts i ps) = count_rows (\<lambda>r. P r \<and> r_code r \<noteq> i) ps"
    "\<forall>p\<in>set (purge_parts i ps). part_ok p \<and> (\<forall>ts\<in>set (TS p). Q ts)"
    "(\<Sum>p\<leftarrow>ps. snd (withoutCode p i)) = count_rows (\<lambda>r. r_code r = i) ps"
proof -
  have c: "(case fst (withoutCode p i) of None \<Rightarrow> filter (\<lambda>r. r_code r \<noteq> i) (part_rows p) = []
      | Some q \<Rightarrow> part_ok q \<and> part_rows q = filter (\<lambda>r. r_code r \<noteq> i) (part_rows p))
      \<and> snd (withoutCode p i) = length (filter (\<lambda>r. r_code r = i) (part_rows p))" if "p \<in> set ps" for p
    using withoutCode_rows [of p i] assms that by blast
  have e: "filter (\<lambda>r. P r \<and> r_code r \<noteq> i) xs = filter P (filter (\<lambda>r. r_code r \<noteq> i) xs)" for xs
    by (simp add: conj_commute)
  show "count_rows P (purge_parts i ps) = count_rows (\<lambda>r. P r \<and> r_code r \<noteq> i) ps"
    using c
  proof (induction ps)
    case (Cons p ps)
    have "count_rows P (purge_parts i [p]) = length (filter P (filter (\<lambda>r. r_code r \<noteq> i) (part_rows p)))"
      using Cons.prems [of p] by (cases "fst (withoutCode p i)") (auto simp: purge_parts_def map_filter_simps count_rows_def simp del: filter_filter)
    moreover have "purge_parts i (p # ps) = purge_parts i [p] @ purge_parts i ps"
      by (simp add: purge_parts_def map_filter_simps split: option.splits)
    ultimately show ?case using Cons by (simp add: count_rows_append e del: filter_filter) (simp add: count_rows_def e)
  qed (simp add: purge_parts_def map_filter_simps count_rows_def)
  show "(\<Sum>p\<leftarrow>ps. snd (withoutCode p i)) = count_rows (\<lambda>r. r_code r = i) ps"
    using c unfolding count_rows_def by (intro arg_cong [where f = sum_list] map_cong refl) blast
  show "\<forall>p\<in>set (purge_parts i ps). part_ok p \<and> (\<forall>ts\<in>set (TS p). Q ts)"
  proof
    fix q assume "q \<in> set (purge_parts i ps)"
    then obtain p where p: "p \<in> set ps" "fst (withoutCode p i) = Some q"
      by (auto simp: purge_parts_def map_filter_def)
    with c [of p] have "part_ok q" "part_rows q = filter (\<lambda>r. r_code r \<noteq> i) (part_rows p)" by auto
    then show "part_ok q \<and> (\<forall>ts\<in>set (TS q). Q ts)" using assms p(1) by (auto simp: set_TS)
  qed
qed

lemma row_count_purge:
  assumes "parts_ok s" "o_parts t = filter (\<lambda>(dk, ps). ps \<noteq> []) (map (\<lambda>(dk, ps). (dk, purge_parts i ps)) (o_parts s))"
  shows "row_count P t = row_count (\<lambda>r. P r \<and> r_code r \<noteq> i) s"
proof -
  have ok: "\<forall>p\<in>set ps. part_ok p \<and> (\<forall>ts\<in>set (TS p). dayKey ts = dk \<and> ts_ok ts)" if "(dk, ps) \<in> set (o_parts s)" for dk ps
    using assms(1) that by (auto simp: parts_ok_def)
  have "(\<Sum>(dk, ps)\<leftarrow>filter (\<lambda>(dk, ps). ps \<noteq> []) m. count_rows P ps) = (\<Sum>(dk, ps)\<leftarrow>m. count_rows P ps)" for m :: "(string, part list) gomap"
    by (induction m) (auto simp: count_rows_def)
  then have "row_count P t = (\<Sum>(dk, ps)\<leftarrow>map (\<lambda>(dk, ps). (dk, purge_parts i ps)) (o_parts s). count_rows P ps)"
    unfolding row_count_def assms(2) .
  also have "\<dots> = (\<Sum>(dk, ps)\<leftarrow>o_parts s. count_rows P (purge_parts i ps))"
    by (simp add: comp_def case_prod_beta')
  also have "\<dots> = row_count (\<lambda>r. P r \<and> r_code r \<noteq> i) s"
    unfolding row_count_def using purge_parts_rows(1) [OF ok] by (intro arg_cong [where f = sum_list] map_cong refl) auto
  finally show ?thesis .
qed

lemma row_count_split: "row_count (\<lambda>r. P r \<and> Q r) s + row_count (\<lambda>r. P r \<and> \<not> Q r) s = row_count P s"
proof -
  have "count_rows (\<lambda>r. P r \<and> Q r) ps + count_rows (\<lambda>r. P r \<and> \<not> Q r) ps = count_rows P ps" for ps
  proof (induction ps)
    case (Cons p ps)
    have "length (filter (\<lambda>r. P r \<and> Q r) xs) + length (filter (\<lambda>r. P r \<and> \<not> Q r) xs) = length (filter P xs)" for xs
      by (induction xs) auto
    with Cons show ?case by (simp add: count_rows_def) (metis (no_types, lifting) add.assoc add.left_commute)
  qed (simp add: count_rows_def)
  then have "(\<Sum>x\<leftarrow>m. count_rows (\<lambda>r. P r \<and> Q r) (snd x)) + (\<Sum>x\<leftarrow>m. count_rows (\<lambda>r. P r \<and> \<not> Q r) (snd x))
    = (\<Sum>x\<leftarrow>m. count_rows P (snd x))" for m :: "(string, part list) gomap"
    by (simp flip: sum_list_addf)
  then show ?thesis by (simp add: row_count_def case_prod_beta')
qed

lemma purge_view_ok:
  assumes "mvs_ok s"
  shows "mvs_ok (drop_code_mv i s)" "view k c (drop_code_mv i s) = (if c = i then 0 else view k c s)"
    "o_parts (drop_code_mv i s) = o_parts s" "TotalRows (drop_code_mv i s) = TotalRows s"
proof -
  have w: "wf_map (o_mv s)" using assms(1) by (simp add: mvs_ok_def)
  have "set (mdel i (o_mv s)) \<subseteq> set (o_mv s)" by (simp add: AList.delete_eq)
  then have all: "\<forall>(c, cm)\<in>set (mdel i (o_mv s)). mv_ok cm" using assms(1) by (auto simp: mvs_ok_def)
  show "mvs_ok (drop_code_mv i s)"
  proof (cases "map_of (o_mv s) i")
    case (Some cm)
    with sum_del [OF w, of "\<lambda>c cm. mv_rows cm" i] assms w all show ?thesis by (simp add: mvs_ok_def drop_code_mv_def)
  qed (use assms in \<open>simp add: drop_code_mv_def\<close>)
  show "view k c (drop_code_mv i s) = (if c = i then 0 else view k c s)" "o_parts (drop_code_mv i s) = o_parts s"
    "TotalRows (drop_code_mv i s) = TotalRows s"
    by (cases "map_of (o_mv s) i"; simp add: view_def drop_code_mv_def)+
qed

lemma Purge_ok:
  assumes "olap_ok mcut s" "Lookup (o_dict s) code = Some i" "Purge code s = (n, t)"
  shows "olap_ok mcut t" "row_count P t = row_count (\<lambda>r. P r \<and> r_code r \<noteq> i) s" "n = row_count (\<lambda>r. r_code r = i) s"
    "view k c t = (if c = i then 0 else view k c s)"
proof -
  have ok: "parts_ok s" "mvs_ok s" "mv_exact mcut s" using assms(1) by (simp_all add: olap_ok_def)
  note v = purge_view_ok [OF ok(2), where i = i]
  have t: "n = (\<Sum>(dk, ps)\<leftarrow>o_parts s. \<Sum>p\<leftarrow>ps. snd (withoutCode p i))"
    "o_parts t = filter (\<lambda>(dk, ps). ps \<noteq> []) (map (\<lambda>(dk, ps). (dk, purge_parts i ps)) (o_parts s))"
    "TotalRows t = atomicSub (TotalRows s) n" "o_mv t = o_mv (drop_code_mv i s)" "mvRows t = mvRows (drop_code_mv i s)"
    using assms(2,3) v(3,4) by (auto simp: Purge_def Let_def)
  have day: "\<forall>p\<in>set ps. part_ok p \<and> (\<forall>ts\<in>set (TS p). dayKey ts = dk \<and> ts_ok ts)" if "(dk, ps) \<in> set (o_parts s)" for dk ps
    using ok(1) that by (auto simp: parts_ok_def)
  show n: "n = row_count (\<lambda>r. r_code r = i) s"
    unfolding t(1) row_count_def using purge_parts_rows(3) [OF day] by (intro arg_cong [where f = sum_list] map_cong refl) auto
  have rc: "row_count P t = row_count (\<lambda>r. P r \<and> r_code r \<noteq> i) s" for P by (rule row_count_purge [OF ok(1) t(2)])
  then show "row_count P t = row_count (\<lambda>r. P r \<and> r_code r \<noteq> i) s" .
  have vt: "view k c t = (if c = i then 0 else view k c s)" for k c using v(2) view_cong [OF t(4)] by simp
  then show "view k c t = (if c = i then 0 else view k c s)" .
  have "\<forall>(dk, ps)\<in>set (o_parts t). \<forall>p\<in>set ps. part_ok p \<and> (\<forall>ts\<in>set (TS p). dayKey ts = dk \<and> ts_ok ts)"
    unfolding t(2) using purge_parts_rows(2) [OF day] by auto
  moreover have "TotalRows t = of_nat (row_count (\<lambda>r. True) t)"
  proof -
    have "TotalRows s = of_nat (row_count (\<lambda>r. r_code r = i) s + row_count (\<lambda>r. r_code r \<noteq> i) s)"
      using ok(1) row_count_split [of "\<lambda>r. True" "\<lambda>r. r_code r = i" s] by (simp add: parts_ok_def)
    then show ?thesis unfolding t(3) atomicSub_minus n rc by simp
  qed
  moreover have "wf_map (o_parts t)" unfolding t(2) using ok(1) by (simp add: parts_ok_def)
  ultimately have "parts_ok t" by (simp add: parts_ok_def)
  moreover have "mvs_ok t" using v(1) mvs_ok_cong [OF t(4,5)] by simp
  moreover have "mv_exact mcut t"
    unfolding mv_exact_def vt rc
  proof (intro allI impI)
    fix c k assume "live_key mcut k"
    show "(if c = i then 0 else view k c s) = row_count (\<lambda>r. (r_code r = c \<and> view_hit k r) \<and> r_code r \<noteq> i) s"
    proof (cases "c = i")
      case True
      then show ?thesis using row_count_0 [of "\<lambda>r. (r_code r = c \<and> view_hit k r) \<and> r_code r \<noteq> i" s] by simp
    next
      case False
      then have "row_count (\<lambda>r. (r_code r = c \<and> view_hit k r) \<and> r_code r \<noteq> i) s = row_count (\<lambda>r. r_code r = c \<and> view_hit k r) s"
        by (intro row_count_cong) auto
      then show ?thesis using False ok(3) \<open>live_key mcut k\<close> by (simp add: mv_exact_def)
    qed
  qed
  ultimately show "olap_ok mcut t" by (simp add: olap_ok_def)
qed

section \<open>Retention\<close>

fun kept_key :: "int \<Rightarrow> int \<Rightarrow> view_key \<Rightarrow> bool" where
  "kept_key now cutoff (Minute b) = (now - minuteRetentionMS \<le> b)"
| "kept_key now cutoff (Hour b) = (cutoff \<le> b)"
| "kept_key now cutoff (Daily b) = (cutoff \<le> b)"
| "kept_key now cutoff (Bots b) = (cutoff \<le> b)"
| "kept_key now cutoff (Dim d h v) = (cutoff \<le> h)"

text \<open>The counters of a code after the old buckets are dropped.\<close>

definition trimmed :: "int \<Rightarrow> int \<Rightarrow> code_mv \<Rightarrow> code_mv" where
  "trimmed now cutoff cm =
     cm\<lparr>minute := filter (\<lambda>(k, v). \<not> k < now - minuteRetentionMS) (minute cm),
        hour := filter (\<lambda>(k, v). \<not> k < cutoff) (hour cm), day := filter (\<lambda>(k, v). \<not> k < cutoff) (day cm),
        bots := filter (\<lambda>(k, v). \<not> k < cutoff) (bots cm),
        dims := map (filter (\<lambda>(h, values). \<not> h < cutoff)) (dims cm)\<rparr>"

lemma mget_filter: "mget z (filter (\<lambda>(k, v). P k) m) k = (if P k then mget z m k else z)"
  by (simp add: mget_def map_of_filter_keys)

lemma read_trimmed: "read_view k (trimmed now cutoff cm) = (if kept_key now cutoff k then read_view k cm else 0)"
  by (cases k) (auto simp: trimmed_def mget_filter not_less)

lemma dim_rows_split: "dim_rows (filter P m) + dim_rows (filter (\<lambda>x. \<not> P x) m) = dim_rows m"
  by (induction m) (auto simp: dim_rows_def)

lemma length_split: "int (length (filter P m)) + int (length (filter (\<lambda>x. \<not> P x) m)) = int (length m)"
  using sum_length_filter_compl [of P m] by linarith

lemma neg_pair: "(\<lambda>(k, v). \<not> k < c) = (\<lambda>x. \<not> (case x of (k, v) \<Rightarrow> k < c))"
  by auto

lemma dims_split:
  "(\<Sum>m\<leftarrow>ms. dim_rows m) = (\<Sum>m\<leftarrow>map (filter (\<lambda>(h, values). \<not> h < cutoff)) ms. dim_rows m)
     + (\<Sum>m\<leftarrow>ms. dim_rows (filter (\<lambda>(h, values). h < cutoff) m))"
proof (induction ms)
  case (Cons m ms)
  then show ?case using dim_rows_split [of "\<lambda>(h, values). h < cutoff" m] by (simp add: neg_pair)
qed simp

lemma retain_code_eq:
  "retain_code now cutoff cm rows =
    (if day (trimmed now cutoff cm) = [] \<and> minute (trimmed now cutoff cm) = [] then (None, rows - mv_rows cm)
     else (Some (trimmed now cutoff cm), rows + mv_rows (trimmed now cutoff cm) - mv_rows cm))"
proof -
  have fd: "map (fst \<circ> drop_dim cutoff) ms = map (filter (\<lambda>(h, values). \<not> h < cutoff)) ms" for ms
    by (simp add: drop_dim_def)
  have c: "cm\<lparr>minute := fst (dropBefore (minute cm) (now - minuteRetentionMS)), hour := fst (dropBefore (hour cm) cutoff),
      day := fst (dropBefore (day cm) cutoff), bots := fst (dropBefore (bots cm) cutoff),
      dims := map (fst \<circ> drop_dim cutoff) (dims cm)\<rparr> = trimmed now cutoff cm"
    by (simp add: dropBefore_def trimmed_def fd)
  have r: "rows - snd (dropBefore (minute cm) (now - minuteRetentionMS)) - (snd (dropBefore (hour cm) cutoff)
      + snd (dropBefore (day cm) cutoff) + snd (dropBefore (bots cm) cutoff)) - (\<Sum>m\<leftarrow>dims cm. snd (drop_dim cutoff m))
    = rows + mv_rows (trimmed now cutoff cm) - mv_rows cm"
    using length_split [of "\<lambda>(k, v). k < now - minuteRetentionMS" "minute cm"] length_split [of "\<lambda>(k, v). k < cutoff" "hour cm"]
      length_split [of "\<lambda>(k, v). k < cutoff" "day cm"] length_split [of "\<lambda>(k, v). k < cutoff" "bots cm"]
      dims_split [of "dims cm" cutoff]
    by (simp add: mv_rows_def trimmed_def dropBefore_def drop_dim_def neg_pair)
  show ?thesis unfolding retain_code_def Let_def case_prod_beta' c r by simp
qed

definition kept_code :: "int \<Rightarrow> int \<Rightarrow> code_mv \<Rightarrow> bool" where
  "kept_code now cutoff cm \<longleftrightarrow> \<not> (day (trimmed now cutoff cm) = [] \<and> minute (trimmed now cutoff cm) = [])"

lemma retain_codes_eq:
  "retain_codes now cutoff m rows =
    (map (\<lambda>(c, cm). (c, trimmed now cutoff cm)) (filter (\<lambda>(c, cm). kept_code now cutoff cm) m),
     rows + (\<Sum>(c, cm)\<leftarrow>map (\<lambda>(c, cm). (c, trimmed now cutoff cm)) (filter (\<lambda>(c, cm). kept_code now cutoff cm) m). mv_rows cm)
       - (\<Sum>(c, cm)\<leftarrow>m. mv_rows cm))"
  by (induction m arbitrary: rows) (auto simp: retain_code_eq kept_code_def Let_def)

lemma trimmed_ok: "mv_ok cm \<Longrightarrow> mv_ok (trimmed now cutoff cm)"
  by (auto simp: mv_ok_def trimmed_def dim_ok_def)

lemma fold_drop_part:
  "o_parts (fold drop_part ps s) = o_parts s \<and> o_mv (fold drop_part ps s) = o_mv s \<and> mvRows (fold drop_part ps s) = mvRows s
   \<and> TotalRows (fold drop_part ps s) = TotalRows s - of_nat (\<Sum>p\<leftarrow>ps. Rows p)
   \<and> TTLDropped (fold drop_part ps s) = TTLDropped s + of_nat (\<Sum>p\<leftarrow>ps. Rows p)
   \<and> o_retention (fold drop_part ps s) = o_retention s"
  by (induction ps arbitrary: s) (simp_all add: drop_part_def atomicSub_minus)

subsection \<open>Cutoffs\<close>

lemma floorTo_nonneg: "0 \<le> ts \<Longrightarrow> 0 < b \<Longrightarrow> floorTo ts b = ts - ts mod b"
  by (simp add: floorTo_def go_rem_nonneg)

lemma floorTo_le: "0 \<le> ts \<Longrightarrow> 0 < b \<Longrightarrow> floorTo ts b \<le> ts \<and> 0 \<le> floorTo ts b \<and> b dvd floorTo ts b \<and> ts < floorTo ts b + b"
  using pos_mod_bound [of b ts] pos_mod_sign [of b ts] zmod_le_nonneg_dividend [of ts b] dvd_minus_mod [of b ts]
  by (simp add: floorTo_nonneg)

lemma floorTo_cut:
  assumes "0 \<le> ts" "0 < b" "b dvd q"
  shows "q \<le> floorTo ts b \<longleftrightarrow> q \<le> ts"
proof
  assume "q \<le> ts"
  then have "q div b \<le> ts div b" using assms(2) by (simp add: zdiv_mono1)
  then have "q div b * b \<le> ts div b * b" using assms(2) by simp
  then show "q \<le> floorTo ts b" using assms by (simp add: floorTo_nonneg minus_mod_eq_div_mult)
qed (use floorTo_le [OF assms(1,2)] in linarith)

lemmas ms_defs = minuteMS_def hourMS_def dayMS_def minuteRetentionMS_def

lemma le_div_iff: "(0::int) < b \<Longrightarrow> q \<le> a div b \<longleftrightarrow> b * q \<le> a"
proof
  assume b: "0 < b" and "q \<le> a div b"
  then have "b * q \<le> b * (a div b)" by simp
  also have "\<dots> \<le> a" using b pos_mod_sign [OF b, of a] minus_mod_eq_mult_div [of a b] by linarith
  finally show "b * q \<le> a" .
next
  assume b: "0 < b" and "b * q \<le> a"
  from zdiv_mono1 [OF this(2) b] b show "q \<le> a div b" by simp
qed

lemma day_cut:
  assumes "ts_ok ts" "ts_ok now'"
  shows "dayKey (floorTo now' dayMS) \<le> dayKey ts \<longleftrightarrow> floorTo now' dayMS \<le> ts"
proof -
  let ?c = "floorTo now' dayMS"
  have d: "dayMS = ms_per_day" by (simp add: ms_defs ms_per_day_def)
  have c: "0 \<le> ?c" "?c \<le> now'" "dayMS dvd ?c" using floorTo_le [of now' dayMS] assms by (auto simp: ts_ok_def ms_defs)
  have cd: "?c div ms_per_day \<le> 2930000"
    using assms(2) zdiv_mono1 [OF c(2), of ms_per_day] by (simp add: ts_ok_def ms_per_day_def)
  have "dayKey ?c \<le> dayKey ts \<longleftrightarrow> \<not> format_date ts < format_date ?c" by (simp add: dayKey_def not_less)
  also have "\<dots> \<longleftrightarrow> \<not> ts div ms_per_day < ?c div ms_per_day"
    using format_date_less [of ts ?c] assms(1) c(1) cd by (simp add: ts_ok_def)
  also have "\<dots> \<longleftrightarrow> ?c \<le> ts"
  proof -
    from c(3) obtain q where q: "?c = ms_per_day * q" unfolding d by blast
    have "?c div ms_per_day = q" unfolding q by (simp add: ms_per_day_def)
    moreover have "q \<le> ts div ms_per_day \<longleftrightarrow> ms_per_day * q \<le> ts"
      by (rule le_div_iff) (simp add: ms_per_day_def)
    ultimately show ?thesis by (simp add: q not_less)
  qed
  finally show ?thesis .
qed

lemma map_of_filter_values:
  "wf_map m \<Longrightarrow> map_of (map (\<lambda>(k, v). (k, f v)) (filter (\<lambda>(k, v). P v) m)) k =
    (case map_of m k of None \<Rightarrow> None | Some v \<Rightarrow> if P v then Some (f v) else None)"
proof (induction m)
  case (Cons x m)
  have "map_of m (fst x) = None" using Cons.prems by (simp add: wf_map_def map_of_eq_None_iff)
  then show ?case using Cons by (cases x) (auto simp: wf_map_def)
qed simp

lemma rows_partition:
  "(\<Sum>p\<leftarrow>concat (map snd (filter (\<lambda>(dk, ps). \<not> Q dk) m)). Rows p)
     + (\<Sum>(dk, ps)\<leftarrow>filter (\<lambda>(dk, ps). Q dk) m. count_rows (\<lambda>r. True) ps) = (\<Sum>(dk, ps)\<leftarrow>m. count_rows (\<lambda>r. True) ps)"
  by (induction m) (auto simp: count_rows_def)

lemma row_count_retain:
  assumes "parts_ok s" "ts_ok now'"
    and "o_parts t = filter (\<lambda>(dk, ps). dayKey (floorTo now' dayMS) \<le> dk) (o_parts s)"
  shows "row_count P t = row_count (\<lambda>r. P r \<and> floorTo now' dayMS \<le> r_ts r) s"
proof -
  let ?c = "floorTo now' dayMS"
  have day: "count_rows (\<lambda>r. P r \<and> ?c \<le> r_ts r) ps = (if dayKey ?c \<le> dk then count_rows P ps else 0)"
    if "(dk, ps) \<in> set (o_parts s)" for dk ps
  proof -
    have r: "?c \<le> r_ts r \<longleftrightarrow> dayKey ?c \<le> dk" if "p \<in> set ps" "r \<in> set (part_rows p)" for p r
    proof -
      have "r_ts r \<in> set (TS p)" using that(2) by (simp add: set_TS)
      then have "dayKey (r_ts r) = dk" "ts_ok (r_ts r)" using assms(1) \<open>(dk, ps) \<in> _\<close> that(1) by (auto simp: parts_ok_def)
      then show ?thesis using day_cut [OF _ assms(2)] by blast
    qed
    show ?thesis
    proof (cases "dayKey ?c \<le> dk")
      case False
      then have "count_rows (\<lambda>r. P r \<and> ?c \<le> r_ts r) ps = 0" using r by (auto simp: count_rows_0)
      then show ?thesis using False by simp
    qed (use r in \<open>auto intro: count_rows_cong\<close>)
  qed
  have "(\<Sum>(dk, ps)\<leftarrow>filter (\<lambda>(dk, ps). Q dk) m. f ps) = (\<Sum>(dk, ps)\<leftarrow>m. if Q dk then f ps else 0)"
    for Q and m :: "(string, part list) gomap" and f :: "part list \<Rightarrow> nat"
    by (induction m) auto
  then have "row_count P t = (\<Sum>(dk, ps)\<leftarrow>o_parts s. if dayKey ?c \<le> dk then count_rows P ps else 0)"
    unfolding row_count_def assms(3) .
  also have "\<dots> = row_count (\<lambda>r. P r \<and> ?c \<le> r_ts r) s"
    unfolding row_count_def using day by (intro arg_cong [where f = sum_list] map_cong refl) auto
  finally show ?thesis .
qed

lemma kept_hit:
  assumes "0 \<le> r_ts r" "view_hit k r" "dayMS dvd cutoff" "k \<noteq> Minute (floorTo (r_ts r) minuteMS)"
  shows "kept_key now cutoff k \<longleftrightarrow> cutoff \<le> r_ts r"
proof -
  have "hourMS dvd cutoff" using assms(3) dvd_trans [of hourMS dayMS] by (simp add: dayMS_def)
  then show ?thesis using assms floorTo_cut [of "r_ts r" hourMS cutoff] floorTo_cut [of "r_ts r" dayMS cutoff]
    by (cases k) (auto simp: ms_defs)
qed

lemma Retain_ok:
  assumes "olap_ok mcut s" "2 * dayMS \<le> o_retention s" "ts_ok (now - o_retention s)"
    and "mcut \<le> mcut'" "now - minuteRetentionMS \<le> mcut'"
  shows "olap_ok mcut' (Retain now s)"
    "row_count P (Retain now s) = row_count (\<lambda>r. P r \<and> floorTo (now - o_retention s) dayMS \<le> r_ts r) s"
proof -
  let ?t = "Retain now s"
  define cutoff where "cutoff = floorTo (now - o_retention s) dayMS"
  define old where "old = concat (map snd (filter (\<lambda>(dk, ps). \<not> dayKey cutoff \<le> dk) (o_parts s)))"
  have ok: "parts_ok s" "mvs_ok s" "mv_exact mcut s" using assms(1) by (simp_all add: olap_ok_def)
  have ret: "\<not> o_retention s \<le> 0" using assms(2) by (simp add: ms_defs)
  have t: "o_parts ?t = filter (\<lambda>(dk, ps). dayKey cutoff \<le> dk) (o_parts s)"
    "o_mv ?t = map (\<lambda>(c, cm). (c, trimmed now cutoff cm)) (filter (\<lambda>(c, cm). kept_code now cutoff cm) (o_mv s))"
    "mvRows ?t = mvRows s + (\<Sum>(c, cm)\<leftarrow>o_mv ?t. mv_rows cm) - (\<Sum>(c, cm)\<leftarrow>o_mv s. mv_rows cm)"
    "TotalRows ?t = TotalRows s - of_nat (\<Sum>p\<leftarrow>old. Rows p)"
    using ret by (simp_all add: Retain_def Let_def retain_codes_eq fold_drop_part old_def flip: cutoff_def)
  have rc: "row_count P ?t = row_count (\<lambda>r. P r \<and> cutoff \<le> r_ts r) s" for P
    unfolding cutoff_def by (rule row_count_retain [OF ok(1) assms(3)]) (simp add: t(1) cutoff_def)
  then show "row_count P ?t = row_count (\<lambda>r. P r \<and> floorTo (now - o_retention s) dayMS \<le> r_ts r) s"
    by (simp add: cutoff_def)
  have cut: "dayMS dvd cutoff" "cutoff \<le> now - minuteRetentionMS"
    using floorTo_le [of "now - o_retention s" dayMS] assms(2,3) unfolding cutoff_def by (auto simp: ts_ok_def ms_defs)
  have v: "(case map_of (o_mv s) c of None \<Rightarrow> 0 | Some cm \<Rightarrow> read_view k (trimmed now cutoff cm))
      = row_count (\<lambda>r. r_code r = c \<and> view_hit k r) ?t" if live: "live_key mcut' k" for k c
  proof -
    have "(case map_of (o_mv s) c of None \<Rightarrow> 0 | Some cm \<Rightarrow> read_view k (trimmed now cutoff cm))
      = (if kept_key now cutoff k then view k c s else 0)"
      by (simp add: view_def read_trimmed split: option.splits)
    also have "\<dots> = (if kept_key now cutoff k then row_count (\<lambda>r. r_code r = c \<and> view_hit k r) s else 0)"
      using ok(3) live assms(4) by (cases k) (auto simp: mv_exact_def)
    also have "\<dots> = row_count (\<lambda>r. (r_code r = c \<and> view_hit k r) \<and> cutoff \<le> r_ts r) s"
    proof -
      have hit: "kept_key now cutoff k \<longleftrightarrow> cutoff \<le> r_ts r" if "r \<in> store_rows s" "view_hit k r" for r
      proof (cases "k = Minute (floorTo (r_ts r) minuteMS)")
        case True
        have "floorTo (r_ts r) minuteMS \<le> r_ts r"
          using floorTo_le [of "r_ts r" minuteMS] store_rows_ok [OF ok(1) that(1)] by (auto simp: ts_ok_def ms_defs)
        with True live assms(5) cut(2) show ?thesis by auto
      next
        case False
        then show ?thesis using kept_hit [OF _ that(2) cut(1)] store_rows_ok [OF ok(1) that(1)] by (simp add: ts_ok_def)
      qed
      show ?thesis
      proof (cases "kept_key now cutoff k")
        case True
        then show ?thesis using hit by (auto intro: row_count_cong)
      next
        case False
        then have "row_count (\<lambda>r. (r_code r = c \<and> view_hit k r) \<and> cutoff \<le> r_ts r) s = 0" using hit by (auto simp: row_count_0)
        then show ?thesis using False by simp
      qed
    qed
    finally show ?thesis unfolding rc .
  qed
  have w: "wf_map (o_mv s)" using ok(2) by (simp add: mvs_ok_def)
  have look: "map_of (o_mv ?t) c = (case map_of (o_mv s) c of None \<Rightarrow> None
      | Some cm \<Rightarrow> if kept_code now cutoff cm then Some (trimmed now cutoff cm) else None)" for c
    unfolding t(2) by (rule map_of_filter_values [OF w])
  have "mv_exact mcut' ?t" unfolding mv_exact_def
  proof (intro allI impI)
    fix c k assume live: "live_key mcut' k"
    show "view k c ?t = row_count (\<lambda>r. r_code r = c \<and> view_hit k r) ?t"
    proof (cases "\<exists>cm. map_of (o_mv s) c = Some cm \<and> \<not> kept_code now cutoff cm")
      case False
      then show ?thesis using v [OF live, of c] look [of c] by (auto simp: view_def split: option.splits)
    next
      case True
      then obtain cm where cm: "map_of (o_mv s) c = Some cm" "day (trimmed now cutoff cm) = []" by (auto simp: kept_code_def)
      have "row_count (\<lambda>r. r_code r = c \<and> view_hit (Daily b) r) ?t = 0" for b
        using v [of "Daily b" c] cm by simp
      then have "\<forall>r\<in>store_rows ?t. r_code r \<noteq> c" by (auto simp: row_count_0)
      then have "row_count (\<lambda>r. r_code r = c \<and> view_hit k r) ?t = 0" by (auto simp: row_count_0)
      then show ?thesis using True look [of c] by (auto simp: view_def)
    qed
  qed
  moreover have "mvs_ok ?t"
  proof -
    have "\<forall>(c, cm)\<in>set (o_mv ?t). mv_ok cm" unfolding t(2) using ok(2) trimmed_ok by (auto simp: mvs_ok_def)
    moreover have "wf_map (o_mv ?t)" unfolding t(2) using w by simp
    ultimately show ?thesis using t(3) ok(2) by (simp add: mvs_ok_def)
  qed
  moreover have "parts_ok ?t"
  proof -
    have n: "(\<Sum>p\<leftarrow>old. Rows p) + row_count (\<lambda>r. True) ?t = row_count (\<lambda>r. True) s"
      unfolding old_def row_count_def t(1) by (rule rows_partition)
    have "TotalRows s = of_nat (row_count (\<lambda>r. True) s)" using ok(1) by (simp add: parts_ok_def)
    then have "TotalRows ?t = of_nat (row_count (\<lambda>r. True) ?t)" unfolding t(4) n [symmetric] by simp
    then show ?thesis using ok(1) t(1) by (auto simp: parts_ok_def)
  qed
  ultimately show "olap_ok mcut' ?t" by (simp add: olap_ok_def)
qed

end
