(* ===== verification/Olap_Run.thy ===== *)
theory Olap_Run
  imports Olap_Inv
begin

text \<open>
  The store over its whole life: any sequence of inserts, merges, retention passes and
  purges, and what each of them does to the stored rows.
\<close>

section \<open>Sequences of operations\<close>

datatype store_op =
  Op_Insert "string list" "click_event list"
| Op_Merge
| Op_Retain int
| Op_Purge string

fun exec :: "store_op \<Rightarrow> olap \<Rightarrow> olap" where
  "exec (Op_Insert order batch) s = Insert order batch s"
| "exec Op_Merge s = mergeOnce s"
| "exec (Op_Retain now) s = Retain now s"
| "exec (Op_Purge code) s = snd (Purge code s)"

text \<open>Timestamps lie in the years 1970 to 9991, and a batch is visited day by day.\<close>

fun op_ok :: "int \<Rightarrow> store_op \<Rightarrow> bool" where
  "op_ok ret (Op_Insert order batch) =
     ((\<forall>e\<in>set batch. ts_ok (ev_TS e)) \<and> distinct order \<and> set order = (\<lambda>e. dayKey (ev_TS e)) ` set batch)"
| "op_ok ret (Op_Retain now) = (0 < ret \<longrightarrow> ts_ok (now - ret))"
| "op_ok ret _ = True"

fun trims :: "int \<Rightarrow> store_op \<Rightarrow> bool" where
  "trims mcut (Op_Retain now) = (now - minuteRetentionMS \<le> mcut)"
| "trims mcut _ = True"

lemma NewOLAP_ok: "olap_ok mcut (NewOLAP days)"
  by (simp add: olap_ok_def parts_ok_def mvs_ok_def mv_exact_def NewOLAP_def view_def row_count_def)

lemma Insert_retention: "o_retention (Insert order batch s) = o_retention s"
proof -
  have "o_retention (fold (\<lambda>dk. insert_day dk (mget [] (byDay batch) dk)) order s) = o_retention s"
    by (induction order arbitrary: s) (simp_all add: insert_day_frame)
  then show ?thesis by (simp add: Insert_def Let_def)
qed

lemma exec_retention: "o_retention (exec op s) = o_retention s"
  by (cases op) (simp_all add: Insert_retention mergeOnce_def Retain_def Let_def case_prod_beta' fold_drop_part
      Purge_def drop_code_mv_def split: option.splits)

lemma exec_ok:
  assumes "olap_ok mcut s" "op_ok (o_retention s) op" "trims mcut op" "o_retention s = 0 \<or> 2 * dayMS \<le> o_retention s"
  shows "olap_ok mcut (exec op s)"
proof (cases op)
  case (Op_Insert order batch)
  then show ?thesis using assms by (simp add: Insert_ok)
next
  case Op_Merge
  then show ?thesis using assms by (simp add: mergeOnce_ok)
next
  case (Op_Retain now)
  show ?thesis
  proof (cases "o_retention s = 0")
    case True
    then show ?thesis using Op_Retain assms(1) by (simp add: Retain_def)
  next
    case False
    then have "2 * dayMS \<le> o_retention s" using assms(4) by simp
    moreover from this have "0 < o_retention s" by (simp add: ms_defs)
    ultimately show ?thesis using Op_Retain assms by (auto intro: Retain_ok)
  qed
next
  case (Op_Purge code)
  show ?thesis
  proof (cases "Lookup (o_dict s) code")
    case None
    then show ?thesis using Op_Purge assms(1) by (simp add: Purge_def)
  next
    case (Some i)
    from Purge_ok(1) [OF assms(1) Some prod.collapse [symmetric]] Op_Purge show ?thesis by simp
  qed
qed

lemma fold_exec_ok:
  assumes "\<forall>op\<in>set ops. op_ok ret op \<and> trims mcut op" "ret = 0 \<or> 2 * dayMS \<le> ret" "olap_ok mcut s" "o_retention s = ret"
  shows "olap_ok mcut (fold exec ops s)"
  using assms
proof (induction ops arbitrary: s)
  case (Cons op ops)
  have "olap_ok mcut (exec op s)" using Cons.prems by (intro exec_ok) auto
  with Cons show ?case by (simp add: exec_retention)
qed simp

section \<open>Rows stand for events\<close>

text \<open>What a row says, read through the dictionary.\<close>

definition decode_row :: "dict \<Rightarrow> row \<Rightarrow> int \<times> string \<times> string list \<times> bool" where
  "decode_row d r = (r_ts r, Val d (r_code r), map (Val d) (r_dims r), r_bot r)"

definition event_facts :: "click_event \<Rightarrow> int \<times> string \<times> string list \<times> bool" where
  "event_facts e = (ev_TS e, ev_Code e, eventDims e, ev_Bot e)"

definition known_id :: "dict \<Rightarrow> u32 \<Rightarrow> bool" where
  "known_id d i \<longleftrightarrow> unat i < length (vals d)"

definition known_row :: "dict \<Rightarrow> row \<Rightarrow> bool" where
  "known_row d r \<longleftrightarrow> known_id d (r_code r) \<and> (\<forall>i\<in>set (r_dims r). known_id d i)"

definition dict_extends :: "dict \<Rightarrow> dict \<Rightarrow> bool" where
  "dict_extends d d' \<longleftrightarrow> (\<exists>xs. vals d' = vals d @ xs)"

lemma extends_refl [simp]: "dict_extends d d"
  by (simp add: dict_extends_def)

lemma extends_trans: "dict_extends d d1 \<Longrightarrow> dict_extends d1 d2 \<Longrightarrow> dict_extends d d2"
  by (auto simp: dict_extends_def)

lemma Val_extends: "dict_extends d d' \<Longrightarrow> known_id d i \<Longrightarrow> Val d' i = Val d i \<and> known_id d' i"
  by (auto simp: dict_extends_def known_id_def Val_def nth_append)

lemma decode_extends: "dict_extends d d' \<Longrightarrow> known_row d r \<Longrightarrow> decode_row d' r = decode_row d r \<and> known_row d' r"
  by (auto simp: known_row_def decode_row_def dest: Val_extends)

lemma ID_decodes:
  assumes "dict_ok d" "Size d < 4294967296" "ID d s = (i, d')"
  shows "dict_ok d' \<and> dict_extends d d' \<and> known_id d' i \<and> Val d' i = s \<and> Size d' \<le> Size d + 1"
proof -
  have "dict_extends d d'" using assms(3) by (auto simp: ID_cases dict_extends_def split: option.splits)
  moreover have "known_id d' i" using ID_extends [OF assms(1) _ assms(3)] assms(2)
    by (auto simp: known_id_def dict_ok_def Lookup_def Size_def)
  ultimately show ?thesis using ID_extends [OF assms(1) _ assms(3)] assms(2) by (simp add: Size_def)
qed

lemma dimIDs_decode:
  assumes "dict_ok d" "Size d + length ss \<le> maxDictEntries" "dimIDs d ss = (is, d')"
  shows "dict_ok d' \<and> dict_extends d d' \<and> (\<forall>i\<in>set is. known_id d' i) \<and> map (Val d') is = ss \<and> Size d' \<le> Size d + length ss"
  using assms
proof (induction ss arbitrary: d "is")
  case (Cons s ss)
  obtain i d1 where i: "dimID d s = (i, d1)" by fastforce
  obtain is' where r: "dimIDs d1 ss = (is', d')" "is = i # is'"
    using Cons.prems(3) i by (auto simp: Let_def split: prod.splits)
  have "dimID d s = ID d s" using Cons.prems(2) by (auto simp: dimID_def ID_def split: option.splits)
  then have d1: "dict_ok d1" "dict_extends d d1" "known_id d1 i" "Val d1 i = s" "Size d1 \<le> Size d + 1"
    using ID_decodes [OF Cons.prems(1), of s i d1] i Cons.prems(2) by (simp_all add: maxDictEntries_def)
  have "Size d1 + length ss \<le> maxDictEntries" using d1(5) Cons.prems(2) by simp
  from Cons.IH [OF d1(1) this r(1)] d1 r(2) show ?case
    using extends_trans [OF d1(2)] Val_extends [of d1 d' i] by auto
qed simp

lemma event_row_decodes:
  assumes "dict_ok d" "Size d + 7 \<le> maxDictEntries" "event_row d e = (r, d')"
  shows "dict_ok d' \<and> dict_extends d d' \<and> known_row d' r \<and> decode_row d' r = event_facts e \<and> Size d' \<le> Size d + 7"
proof -
  obtain c d1 where c: "ID d (ev_Code e) = (c, d1)" by fastforce
  obtain ds where ds: "dimIDs d1 (eventDims e) = (ds, d')" "r = \<lparr>r_ts = ev_TS e, r_code = c, r_dims = ds, r_bot = ev_Bot e\<rparr>"
    using assms(3) c by (auto simp: event_row_def Let_def split: prod.splits)
  from ID_decodes [OF assms(1) _ c] assms(2) have d1: "dict_ok d1" "dict_extends d d1" "known_id d1 c" "Val d1 c = ev_Code e"
    "Size d1 \<le> Size d + 1" by (simp_all add: maxDictEntries_def)
  have "Size d1 + length (eventDims e) \<le> maxDictEntries" using d1(5) assms(2) by (simp add: eventDims_def)
  from dimIDs_decode [OF d1(1) this ds(1)] d1 ds(2) show ?thesis
    using extends_trans [OF d1(2)] Val_extends [of d1 d' c]
    by (auto simp: known_row_def decode_row_def event_facts_def eventDims_def)
qed

lemma event_rows_decode:
  assumes "dict_ok d" "Size d + 7 * length es \<le> maxDictEntries" "event_rows d es = (rs, d')"
  shows "dict_ok d' \<and> dict_extends d d' \<and> (\<forall>r\<in>set rs. known_row d' r) \<and> map (decode_row d') rs = map event_facts es
    \<and> Size d' \<le> Size d + 7 * length es"
  using assms
proof (induction es arbitrary: d rs)
  case (Cons e es)
  obtain r d1 where r: "event_row d e = (r, d1)" by fastforce
  obtain rs' where rs: "event_rows d1 es = (rs', d')" "rs = r # rs'"
    using Cons.prems(3) r by (auto simp: Let_def split: prod.splits)
  from event_row_decodes [OF Cons.prems(1) _ r] Cons.prems(2)
  have d1: "dict_ok d1" "dict_extends d d1" "known_row d1 r" "decode_row d1 r = event_facts e" "Size d1 \<le> Size d + 7" by simp_all
  have "Size d1 + 7 * length es \<le> maxDictEntries" using d1(5) Cons.prems(2) by simp
  from Cons.IH [OF d1(1) this rs(1)] d1 rs(2) show ?case
    using extends_trans [OF d1(2)] decode_extends [of d1 d' r] by auto
qed simp

definition rows_known :: "olap \<Rightarrow> bool" where
  "rows_known s \<longleftrightarrow> (\<forall>r\<in>store_rows s. known_row (o_dict s) r)"

lemma store_rows_count: "r \<in> store_rows s \<longleftrightarrow> row_count (\<lambda>x. x = r) s \<noteq> 0"
  by (simp add: row_count_0)

lemma insert_day_decodes:
  fixes dk :: string
  assumes "dict_ok (o_dict s)" "rows_known s" "Size (o_dict s) + 7 * length es \<le> maxDictEntries"
  defines "t \<equiv> insert_day dk es s"
  shows "dict_ok (o_dict t) \<and> dict_extends (o_dict s) (o_dict t) \<and> rows_known t \<and> Size (o_dict t) \<le> Size (o_dict s) + 7 * length es
    \<and> (\<forall>Q. row_count (\<lambda>r. Q (decode_row (o_dict t) r)) t =
          row_count (\<lambda>r. Q (decode_row (o_dict s) r)) s + length (filter (\<lambda>e. Q (event_facts e)) es))"
proof -
  obtain rs d' where rs: "event_rows (o_dict s) es = (rs, d')" by fastforce
  note f = insert_day_frame [where dk = dk and es = es and s = s, folded t_def, unfolded rs fst_conv snd_conv]
  from event_rows_decode [OF assms(1,3) rs] have d: "dict_ok d'" "dict_extends (o_dict s) d'" "\<forall>r\<in>set rs. known_row d' r"
    "map (decode_row d') rs = map event_facts es" "Size d' \<le> Size (o_dict s) + 7 * length es" by simp_all
  have rc: "row_count P t = row_count P s + length (filter P rs)" for P using row_count_put [OF f(1)] f(7) by simp
  have rows: "r \<in> store_rows t \<longleftrightarrow> r \<in> store_rows s \<or> r \<in> set rs" for r
    unfolding store_rows_count rc by (auto simp: filter_empty_conv)
  have old: "decode_row d' r = decode_row (o_dict s) r \<and> known_row d' r" if "r \<in> store_rows s" for r
    using decode_extends [OF d(2)] assms(2) that by (simp add: rows_known_def)
  have "row_count (\<lambda>r. Q (decode_row d' r)) t = row_count (\<lambda>r. Q (decode_row (o_dict s) r)) s + length (filter (\<lambda>e. Q (event_facts e)) es)" for Q
  proof -
    have "row_count (\<lambda>r. Q (decode_row d' r)) s = row_count (\<lambda>r. Q (decode_row (o_dict s) r)) s"
      using old by (intro row_count_cong) simp
    moreover have "length (filter (\<lambda>r. Q (decode_row d' r)) rs) = length (filter Q (map (decode_row d') rs))"
      by (simp add: filter_map comp_def)
    ultimately show ?thesis unfolding rc d(4) by (simp add: filter_map comp_def)
  qed
  moreover have "rows_known t" using rows old d(3) f(8) by (auto simp: rows_known_def)
  ultimately show ?thesis using d f(8) by simp
qed

lemma count_by_day:
  assumes "distinct order" "\<forall>e\<in>set batch. g e \<in> set order"
  shows "(\<Sum>dk\<leftarrow>order. length (filter R (filter (\<lambda>e. g e = dk) batch))) = length (filter R batch)"
  using assms(2)
proof (induction batch)
  case (Cons e batch)
  have one: "(\<Sum>dk\<leftarrow>order. if g e = dk then (1::nat) else 0) = 1"
    using assms(1) Cons.prems by (simp add: sum_list_distinct_conv_sum_set)
  have "(\<Sum>dk\<leftarrow>order. length (filter R (filter (\<lambda>e. g e = dk) (e # batch))))
      = (\<Sum>dk\<leftarrow>order. (if R e then if g e = dk then 1 else 0 else 0) + length (filter R (filter (\<lambda>e. g e = dk) batch)))"
    by (intro arg_cong [where f = sum_list] map_cong refl) auto
  then show ?case using Cons one by (simp add: sum_list_addf)
qed simp

lemma insert_days_decode:
  assumes "dict_ok (o_dict s)" "rows_known s"
    and "Size (o_dict s) + 7 * (\<Sum>dk\<leftarrow>order. length (ev dk)) \<le> maxDictEntries"
  defines "t \<equiv> fold (\<lambda>dk. insert_day dk (ev dk)) order s"
  shows "dict_ok (o_dict t) \<and> dict_extends (o_dict s) (o_dict t) \<and> rows_known t
    \<and> (\<forall>Q. row_count (\<lambda>r. Q (decode_row (o_dict t) r)) t =
          row_count (\<lambda>r. Q (decode_row (o_dict s) r)) s + (\<Sum>dk\<leftarrow>order. length (filter (\<lambda>e. Q (event_facts e)) (ev dk))))"
  using assms(1-3) unfolding t_def
proof (induction order arbitrary: s)
  case (Cons dk order)
  have "Size (o_dict s) + 7 * length (ev dk) \<le> maxDictEntries" using Cons.prems(3) by simp
  from insert_day_decodes [OF Cons.prems(1,2) this, of dk] obtain
    d: "dict_ok (o_dict (insert_day dk (ev dk) s))" "dict_extends (o_dict s) (o_dict (insert_day dk (ev dk) s))"
      "rows_known (insert_day dk (ev dk) s)" "Size (o_dict (insert_day dk (ev dk) s)) \<le> Size (o_dict s) + 7 * length (ev dk)"
    and q: "\<forall>Q. row_count (\<lambda>r. Q (decode_row (o_dict (insert_day dk (ev dk) s)) r)) (insert_day dk (ev dk) s) =
          row_count (\<lambda>r. Q (decode_row (o_dict s) r)) s + length (filter (\<lambda>e. Q (event_facts e)) (ev dk))" by blast
  have "Size (o_dict (insert_day dk (ev dk) s)) + 7 * (\<Sum>dk\<leftarrow>order. length (ev dk)) \<le> maxDictEntries"
    using d(4) Cons.prems(3) by simp
  from Cons.IH [OF d(1,3) this] q extends_trans [OF d(2)] show ?case by simp
qed simp

section \<open>Properties\<close>



text \<open>The store's own accounting is right: \<^verbatim>\<open>TotalRows\<close> (kept by adding two's complements) is
  the number of stored rows and \<^verbatim>\<open>mvRows\<close> the number of counter entries, after any sequence
  of operations.\<close>

theorem accounting_exact:
  fixes ops :: "store_op list" and ret :: int
  assumes "ret = 0 \<or> 2 \<le> ret" "\<forall>op\<in>set ops. op_ok (ret * dayMS) op"
  defines "s \<equiv> fold exec ops (NewOLAP ret)"
  shows "TotalRows s = of_nat (row_count (\<lambda>r. True) s) \<and> mvRows s = (\<Sum>(c, cm)\<leftarrow>o_mv s. mv_rows cm)"
proof -
  define mcut where "mcut = Max (insert 0 {now - minuteRetentionMS |now. Op_Retain now \<in> set ops})"
  have "finite {now - minuteRetentionMS |now. Op_Retain now \<in> set ops}"
    by (rule finite_subset [of _ "(\<lambda>op. case op of Op_Retain now \<Rightarrow> now - minuteRetentionMS | _ \<Rightarrow> 0) ` set ops"])
      (force split: store_op.splits)+
  then have "trims mcut op" if "op \<in> set ops" for op using that by (cases op) (auto simp: mcut_def)
  then have tr: "\<forall>op\<in>set ops. op_ok (ret * dayMS) op \<and> trims mcut op" using assms(2) by blast
  have "o_retention (NewOLAP ret) = ret * dayMS" using assms(1) by (auto simp: NewOLAP_def)
  moreover have "ret * dayMS = 0 \<or> 2 * dayMS \<le> ret * dayMS" using assms(1) by (auto simp: ms_defs)
  ultimately have "olap_ok mcut s" unfolding s_def using fold_exec_ok [OF tr] NewOLAP_ok by blast
  then show ?thesis by (simp add: olap_ok_def parts_ok_def mvs_ok_def)
qed

theorem accounting_exact_witness:
  "TotalRows (fold exec [Op_Merge, Op_Purge ''a''] (NewOLAP 30)) = of_nat (row_count (\<lambda>r. True) (fold exec [Op_Merge, Op_Purge ''a''] (NewOLAP 30)))"
  by (rule accounting_exact [THEN conjunct1]) simp_all



text \<open>A merge loses, adds and reorders nothing but by time: the merged part is well formed and
  its rows are the stable sort by timestamp of the rows of its sources.\<close>

theorem mergeParts_stable_sort:
  assumes "\<forall>p\<in>set ps. part_ok p"
  shows "part_ok (mergeParts dk ps) \<and> part_rows (mergeParts dk ps) = sort_key r_ts (concat (map part_rows ps))"
  using assms by (rule mergeParts_rows)

theorem mergeParts_stable_sort_witness:
  "part_rows (mergeParts ''d'' [addRow 5 1 [1, 2, 3, 4, 5, 6] False (new_part ''d'' 0), addRow 3 2 [1, 2, 3, 4, 5, 6] True (new_part ''d'' 0)])
     = [\<lparr>r_ts = 3, r_code = 2, r_dims = [1, 2, 3, 4, 5, 6], r_bot = True\<rparr>, \<lparr>r_ts = 5, r_code = 1, r_dims = [1, 2, 3, 4, 5, 6], r_bot = False\<rparr>]"
proof -
  let ?p = "addRow 5 1 [1, 2, 3, 4, 5, 6] False (new_part ''d'' 0)" let ?q = "addRow 3 2 [1, 2, 3, 4, 5, 6] True (new_part ''d'' 0)"
  have a: "part_ok ?p" "part_ok ?q" "part_rows ?p = [\<lparr>r_ts = 5, r_code = 1, r_dims = [1, 2, 3, 4, 5, 6], r_bot = False\<rparr>]"
    "part_rows ?q = [\<lparr>r_ts = 3, r_code = 2, r_dims = [1, 2, 3, 4, 5, 6], r_bot = True\<rparr>]"
    using addRow_ok [of "new_part ''d'' 0" "[1, 2, 3, 4, 5, 6]"] new_part_ok [of "''d''" 0] by (simp_all add: numDims_def)
  then show ?thesis using mergeParts_stable_sort [of "[?p, ?q]" "''d''"] by simp
qed

text \<open>C24: purging a code removes every one of its rows and counters and reports how many rows went;
  the rows and counters of all other codes are untouched.\<close>

theorem Purge_removes_code:
  assumes "olap_ok mcut s" "Lookup (o_dict s) code = Some i" "Purge code s = (n, t)"
  shows "n = row_count (\<lambda>r. r_code r = i) s \<and> row_count (\<lambda>r. r_code r = i) t = 0 \<and> view k i t = 0
    \<and> (c \<noteq> i \<longrightarrow> view k c t = view k c s \<and> row_count (\<lambda>r. r_code r = c \<and> P r) t = row_count (\<lambda>r. r_code r = c \<and> P r) s)
    \<and> olap_ok mcut t"
proof -
  note p = Purge_ok [OF assms]
  have "row_count (\<lambda>r. r_code r = i) t = 0" unfolding p(2) by (simp add: row_count_0)
  moreover have "row_count (\<lambda>r. r_code r = c \<and> P r) t = row_count (\<lambda>r. r_code r = c \<and> P r) s" if "c \<noteq> i"
    unfolding p(2) using that by (intro row_count_cong) auto
  ultimately show ?thesis using p(1,3,4) by simp
qed

theorem Purge_removes_code_witness:
  "\<exists>t. Purge ''a'' (NewOLAP 30\<lparr>o_dict := snd (ID NewDict ''a'')\<rparr>) = (0, t) \<and> row_count (\<lambda>r. r_code r = 1) t = 0"
proof -
  let ?s = "NewOLAP 30\<lparr>o_dict := snd (ID NewDict ''a'')\<rparr>"
  have ok: "olap_ok 0 ?s" using NewOLAP_ok [of 0 30] olap_ok_cong [of ?s "NewOLAP 30" 0] by simp
  have l: "Lookup (o_dict ?s) ''a'' = Some 1" by (simp add: ID_cases Lookup_def NewDict_def)
  obtain n t where nt: "Purge ''a'' ?s = (n, t)" by fastforce
  have "row_count (\<lambda>r. r_code r = 1) ?s = 0" by (simp add: row_count_def NewOLAP_def)
  with Purge_removes_code [OF ok l nt, of "Hour 0" 2 "\<lambda>_. True"] nt show ?thesis by simp
qed

text \<open>Retention keeps exactly the rows from the day-aligned cutoff on, so comparing day strings
  is comparing days.\<close>

theorem Retain_keeps_window:
  assumes "olap_ok mcut s" "2 * dayMS \<le> o_retention s" "ts_ok (now - o_retention s)"
  shows "row_count P (Retain now s) = row_count (\<lambda>r. P r \<and> floorTo (now - o_retention s) dayMS \<le> r_ts r) s"
  using Retain_ok(2) [OF assms, of "max mcut (now - minuteRetentionMS)"] by simp

theorem Retain_keeps_window_witness:
  "row_count (\<lambda>r. True) (Retain 8640000000 (NewOLAP 30)) = 0"
  using Retain_keeps_window [OF NewOLAP_ok, where now = 8640000000 and P = "\<lambda>_. True", of 30]
  by (simp add: NewOLAP_def ms_defs ts_ok_def ms_per_day_def row_count_def)

end
