(* ===== verification/Olap_Query.thy ===== *)
theory Olap_Query
  imports Olap_Run "HOL-Library.Product_Lexorder"
begin

text \<open>
  \<^verbatim>\<open>backend/olap.go\<close>, the queries: time series and breakdowns answered from the materialised
  views and by scanning the raw columns, summaries and statistics.  Elapsed times and
  percentages are left out.  The main results are that the two ways to answer agree.
\<close>

section \<open>Time series\<close>

record ts_point =
  T :: int
  Label :: string
  Count :: nat

record dim_row =
  Key :: string
  dr_Count :: nat

definition validGran :: "string \<Rightarrow> bool" where
  "validGran g \<longleftrightarrow> g = ''minute'' \<or> g = ''hour'' \<or> g = ''day''"

definition bucketSize :: "string \<Rightarrow> int" where
  "bucketSize gran = (if gran = ''minute'' then minuteMS else if gran = ''hour'' then hourMS else dayMS)"

definition codeSet :: "u32 list \<Rightarrow> (u32, bool) gomap" where
  "codeSet codes = fold (\<lambda>c. mput c True) codes []"

text \<open>The loop \<^verbatim>\<open>for b := b0; b <= to; b += bs\<close> over buckets of positive size.\<close>

function bucket_list :: "int \<Rightarrow> int \<Rightarrow> int \<Rightarrow> int list" where
  "bucket_list b to bs = (if b \<le> to \<and> 0 < bs then b # bucket_list (b + bs) to bs else [])"
  by pat_completeness auto
termination
  by (relation "measure (\<lambda>(b, to, bs). nat (to + 1 - b))") auto

declare bucket_list.simps [simp del]

definition layout :: "string \<Rightarrow> int \<Rightarrow> string" where
  "layout gran b = (if gran = ''minute'' then format_minute b else if gran = ''hour'' then format_hour b
     else if gran = ''day'' then format_day b else '''')"

definition fillSeries :: "(int, nat) gomap \<Rightarrow> int \<Rightarrow> int \<Rightarrow> int \<Rightarrow> string \<Rightarrow> ts_point list" where
  "fillSeries counts from to bs gran =
     map (\<lambda>b. \<lparr>T = b, Label = layout gran b, Count = mget 0 counts b\<rparr>) (bucket_list (floorTo from bs) to bs)"

text \<open>\<^verbatim>\<open>m[k] += n\<close>.\<close>

definition add_to :: "'k \<Rightarrow> nat \<Rightarrow> ('k, nat) gomap \<Rightarrow> ('k, nat) gomap" where
  "add_to k n m = mput k (mget 0 m k + n) m"

definition series_code :: "string \<Rightarrow> int \<Rightarrow> int \<Rightarrow> int \<Rightarrow> code_mv \<Rightarrow> (int, nat) gomap \<times> nat \<Rightarrow> (int, nat) gomap \<times> nat" where
  "series_code gran from to bs cm st =
     fold (\<lambda>b (counts, scanned). (add_to b (mget 0 (series gran cm) b) counts, scanned + 1))
       (bucket_list (floorTo from bs) to bs) st"

definition TimeSeriesMV :: "u32 list \<Rightarrow> string \<Rightarrow> int \<Rightarrow> int \<Rightarrow> olap \<Rightarrow> ts_point list \<times> nat" where
  "TimeSeriesMV codes gran from to s =
     (let bs = bucketSize gran;
          (counts, scanned) = fold (\<lambda>c st. case map_of (o_mv s) c of None \<Rightarrow> st | Some cm \<Rightarrow> series_code gran from to bs cm st)
            codes ([], 0)
      in (fillSeries counts from to bs gran, scanned))"

definition scan_part :: "(u32, bool) gomap \<Rightarrow> int \<Rightarrow> int \<Rightarrow> int \<Rightarrow> part \<Rightarrow> (int, nat) gomap \<times> nat \<Rightarrow> (int, nat) gomap \<times> nat" where
  "scan_part want flr to bs p st =
     (if MaxTS p < flr \<or> to < MinTS p then st
      else fold (\<lambda>i (counts, scanned).
             (if flr \<le> TS p ! i \<and> TS p ! i \<le> to \<and> mget False want (Code p ! i)
              then bump (floorTo (TS p ! i) bs) counts else counts, scanned + 1))
           [0..<length (TS p)] st)"

definition TimeSeriesRaw :: "u32 list \<Rightarrow> string \<Rightarrow> int \<Rightarrow> int \<Rightarrow> olap \<Rightarrow> ts_point list \<times> nat" where
  "TimeSeriesRaw codes gran from to s =
     (let bs = bucketSize gran;
          want = codeSet codes;
          flr = floorTo from bs;
          (counts, scanned) = fold (scan_part want flr to bs) (concat (map snd (o_parts s))) ([], 0)
      in (fillSeries counts from to bs gran, scanned))"

section \<open>Breakdowns\<close>

definition go_div :: "int \<Rightarrow> int \<Rightarrow> int" where
  "go_div a b = (a - go_rem a b) div b"

definition addCounts :: "(u32, nat) gomap \<Rightarrow> (u32, nat) gomap \<Rightarrow> (u32, nat) gomap" where
  "addCounts dst src = fold (\<lambda>(k, n). add_to k n) src dst"

definition rank :: "dict \<Rightarrow> (u32, nat) gomap \<Rightarrow> int \<Rightarrow> dim_row list" where
  "rank d counts limit =
     (let rows = map (\<lambda>(i, n). \<lparr>Key = Val d i, dr_Count = n\<rparr>) counts;
          sorted = sort_key (\<lambda>r. (- int (dr_Count r), Key r)) rows
      in if 0 < limit \<and> limit < int (length sorted) then take (nat limit) sorted else sorted)"

definition breakdown_code :: "int \<Rightarrow> int \<Rightarrow> (int, (u32, nat) gomap) gomap \<Rightarrow> (u32, nat) gomap \<Rightarrow> (u32, nat) gomap" where
  "breakdown_code from to byHour counts =
     (let allTime = from \<le> 0;
          flr = floorTo from hourMS;
          windowHours = go_div (to - flr) hourMS + 1
      in if \<not> allTime \<and> windowHours < int (length byHour)
         then fold (\<lambda>h m. addCounts m (mget [] byHour h)) (bucket_list flr to hourMS) counts
         else fold (\<lambda>(h, values) m. if allTime \<or> (flr \<le> h \<and> h \<le> to) then addCounts m values else m) byHour counts)"

definition BreakdownMV :: "u32 list \<Rightarrow> string \<Rightarrow> int \<Rightarrow> int \<Rightarrow> int \<Rightarrow> olap \<Rightarrow> dim_row list" where
  "BreakdownMV codes dm from to limit s =
     (case dimIndex dm of
        None \<Rightarrow> []
      | Some d \<Rightarrow> rank (o_dict s)
          (fold (\<lambda>c counts. case map_of (o_mv s) c of None \<Rightarrow> counts | Some cm \<Rightarrow> breakdown_code from to (dims cm ! d) counts)
            codes []) limit)"

definition breakdown_part :: "(u32, bool) gomap \<Rightarrow> nat \<Rightarrow> int \<Rightarrow> int \<Rightarrow> part \<Rightarrow> (u32, nat) gomap \<Rightarrow> (u32, nat) gomap" where
  "breakdown_part want d from to p counts =
     (let allTime = from \<le> 0;
          flr = floorTo from hourMS
      in if \<not> allTime \<and> (MaxTS p < flr \<or> to < MinTS p) then counts
         else fold (\<lambda>i m. if (allTime \<or> (flr \<le> TS p ! i \<and> TS p ! i \<le> to)) \<and> mget False want (Code p ! i)
                then bump (Dims p ! d ! i) m else m) [0..<length (TS p)] counts)"

definition BreakdownRaw :: "u32 list \<Rightarrow> string \<Rightarrow> int \<Rightarrow> int \<Rightarrow> int \<Rightarrow> olap \<Rightarrow> dim_row list" where
  "BreakdownRaw codes dm from to limit s =
     (case dimIndex dm of
        None \<Rightarrow> []
      | Some d \<Rightarrow> rank (o_dict s) (fold (breakdown_part (codeSet codes) d from to) (concat (map snd (o_parts s))) []) limit)"

section \<open>Summaries and statistics\<close>

record code_summary =
  Total :: nat
  cs_Bots :: nat
  First :: int
  Last :: int
  Last24 :: nat
  Last1h :: nat

definition sumBuckets :: "(int, nat) gomap \<Rightarrow> int \<Rightarrow> int \<Rightarrow> int \<Rightarrow> nat" where
  "sumBuckets m from to bs =
     (let b = floorTo from bs;
          b' = (if b < from then b + bs else b)
      in (\<Sum>x\<leftarrow>bucket_list b' to bs. mget 0 m x))"

definition summary :: "int \<Rightarrow> code_mv \<Rightarrow> code_summary" where
  "summary now cm =
     \<lparr>Total = (\<Sum>(b, n)\<leftarrow>day cm. n), cs_Bots = (\<Sum>(b, n)\<leftarrow>bots cm. n), First = first cm, Last = last_ts cm,
      Last24 = sumBuckets (hour cm) (now - dayMS) now hourMS, Last1h = sumBuckets (minute cm) (now - hourMS) now minuteMS\<rparr>"

definition zero_summary :: code_summary where
  "zero_summary = \<lparr>Total = 0, cs_Bots = 0, First = 0, Last = 0, Last24 = 0, Last1h = 0\<rparr>"

definition merge_summary :: "code_summary \<Rightarrow> code_summary \<Rightarrow> code_summary" where
  "merge_summary s o' =
     s\<lparr>Total := Total s + Total o', cs_Bots := cs_Bots s + cs_Bots o', Last24 := Last24 s + Last24 o', Last1h := Last1h s + Last1h o',
       First := (if First o' \<noteq> 0 \<and> (First s = 0 \<or> First o' < First s) then First o' else First s), Last := max (Last s) (Last o')\<rparr>"

definition SummaryBatch :: "int \<Rightarrow> u32 list \<Rightarrow> olap \<Rightarrow> code_summary list" where
  "SummaryBatch now codes s = map (\<lambda>c. case map_of (o_mv s) c of None \<Rightarrow> zero_summary | Some cm \<Rightarrow> summary now cm) codes"

definition Summary :: "int \<Rightarrow> u32 list \<Rightarrow> olap \<Rightarrow> code_summary" where
  "Summary now codes s = fold (\<lambda>cs acc. merge_summary acc cs) (SummaryBatch now codes s) zero_summary"

record partition_info =
  pi_Day :: string
  pi_Parts :: nat
  pi_Rows :: nat

record olap_stats =
  st_TotalRows :: u64
  st_Partitions :: "partition_info list"
  st_PartCount :: nat
  st_Merges :: u64
  st_Inserts :: u64
  st_MVRows :: int
  st_DictEntries :: nat
  st_RetentionDays :: int
  st_TTLDropped :: u64

definition Stats :: "olap \<Rightarrow> olap_stats" where
  "Stats s =
     (let dks = sort (map fst (o_parts s));
          infos = map (\<lambda>dk. let ps = mget [] (o_parts s) dk
            in \<lparr>pi_Day = dk, pi_Parts = length ps, pi_Rows = (\<Sum>p\<leftarrow>ps. Rows p)\<rparr>) dks
      in \<lparr>st_TotalRows = TotalRows s, st_Partitions = infos, st_PartCount = (\<Sum>i\<leftarrow>infos. pi_Parts i), st_Merges = Merges s,
          st_Inserts = Inserts s, st_MVRows = mvRows s, st_DictEntries = Size (o_dict s),
          st_RetentionDays = go_div (o_retention s) dayMS, st_TTLDropped = TTLDropped s\<rparr>)"

section \<open>Lemmas on counting maps\<close>

lemma codeSet_get: "mget False (codeSet codes) c = (c \<in> set codes)"
proof -
  have "mget False (fold (\<lambda>c. mput c True) codes m) c = (c \<in> set codes \<or> mget False m c)" for m
    by (induction codes arbitrary: m) auto
  then show ?thesis by (simp add: codeSet_def)
qed

lemma mget_add_to: "mget 0 (add_to k n m) j = mget 0 m j + (if j = k then n else 0)"
  by (simp add: add_to_def)

lemma bump_add_to: "bump k m = add_to k 1 m"
  by (simp add: bump_def add_to_def)

text \<open>A map of counts: distinct keys, and a key only where something was counted.\<close>

definition counts_ok :: "('k, nat) gomap \<Rightarrow> bool" where
  "counts_ok m \<longleftrightarrow> wf_map m \<and> (\<forall>(k, n)\<in>set m. 0 < n)"

lemma counts_ok_Nil [simp]: "counts_ok []"
  by (simp add: counts_ok_def)

lemma counts_ok_add: "counts_ok m \<Longrightarrow> 0 < n \<Longrightarrow> counts_ok (add_to k n m)"
  unfolding counts_ok_def add_to_def using put_all [of m "\<lambda>k n. 0 < n" k "mget 0 m k + n"] by simp

lemma fold_add_to:
  "mget 0 (fold (\<lambda>x. add_to (f x) (g x)) xs m) k = mget 0 m k + (\<Sum>x\<leftarrow>xs. if f x = k then g x else 0)"
  by (induction xs arbitrary: m) (auto simp: mget_add_to)

lemma fold_add_ok:
  "counts_ok m \<Longrightarrow> \<forall>x\<in>set xs. 0 < g x \<Longrightarrow> counts_ok (fold (\<lambda>x. add_to (f x) (g x)) xs m)"
  by (induction xs arbitrary: m) (auto simp: counts_ok_add)

lemma fold_filter_if: "fold (\<lambda>x m. if P x then h x m else m) xs m = fold h (filter P xs) m"
  by (induction xs arbitrary: m) auto

lemma counts_ok_get: "counts_ok m \<Longrightarrow> map_of m k = (if mget 0 m k = 0 then None else Some (mget 0 m k))"
  by (auto simp: counts_ok_def mget_def split: option.splits dest!: map_of_SomeD)

lemma counts_unique:
  assumes "counts_ok m" "counts_ok m'" "\<And>k. mget 0 m k = mget 0 m' k"
  shows "mset m = mset m'"
proof -
  have "map_of m k = map_of m' k" for k using assms by (simp add: counts_ok_get)
  then have "(k, n) \<in> set m \<longleftrightarrow> (k, n) \<in> set m'" for k n
    using assms(1,2) wf_map_lookup [of m] wf_map_lookup [of m'] by (simp add: counts_ok_def)
  then have "set m = set m'" by auto
  moreover have "distinct m" "distinct m'" using assms(1,2) by (auto simp: counts_ok_def wf_map_def distinct_map)
  ultimately show ?thesis by (simp add: set_eq_iff_mset_eq_distinct)
qed

lemma rank_unique:
  assumes "mset m = mset m'"
  shows "rank d m limit = rank d m' limit"
proof -
  let ?row = "\<lambda>(i, n). \<lparr>Key = Val d i, dr_Count = n\<rparr>" let ?key = "\<lambda>r. (- int (dr_Count r), Key r)"
  have "mset (map ?row m) = mset (sort_key ?key (map ?row m'))" using assms by simp
  moreover have "inj_on ?key (set (map ?row m))" by (rule inj_onI) auto
  ultimately have "sort_key ?key (map ?row m) = sort_key ?key (map ?row m')" by (rule sort_key_inj_key_eq) simp
  then show ?thesis by (simp only: rank_def Let_def)
qed

lemma addCounts_get: "wf_map src \<Longrightarrow> mget 0 (addCounts dst src) k = mget 0 dst k + mget 0 src k"
proof -
  assume "wf_map src"
  then have "(\<Sum>x\<leftarrow>src. if fst x = k then snd x else 0) = mget 0 src k"
  proof (induction src)
    case (Cons x src)
    have "\<forall>y\<in>set src. fst y \<noteq> fst x" using Cons.prems by (auto simp: wf_map_def image_iff)
    then have "fst x = k \<Longrightarrow> (\<Sum>x\<leftarrow>src. if fst x = k then snd x else 0) = 0" by auto
    with Cons show ?case by (cases x) (auto simp: wf_map_def mget_def)
  qed simp
  then show ?thesis using fold_add_to [of fst snd src dst k] by (simp add: addCounts_def case_prod_beta')
qed

lemma addCounts_ok: "counts_ok dst \<Longrightarrow> counts_ok src \<Longrightarrow> counts_ok (addCounts dst src)"
  using fold_add_ok [of dst src snd fst] by (simp add: addCounts_def case_prod_beta' counts_ok_def)

section \<open>Lemmas on buckets\<close>

lemma bucket_list_set:
  "0 < bs \<Longrightarrow> x \<in> set (bucket_list b to bs) \<longleftrightarrow> b \<le> x \<and> x \<le> to \<and> bs dvd (x - b)"
proof (induction b to bs rule: bucket_list.induct)
  case (1 b to bs)
  show ?case
  proof (cases "b \<le> to")
    case True
    have d: "bs dvd (x - (b + bs)) \<longleftrightarrow> bs dvd (x - b)" by (metis diff_diff_add dvd_diff_commute dvd_diff_right_iff dvd_refl)
    have "b + bs \<le> x" if "bs dvd (x - b)" "b \<le> x" "x \<noteq> b"
      using that zdvd_imp_le [of bs "x - b"] by auto
    then show ?thesis using "1.IH" True "1.prems" d by (auto simp: bucket_list.simps [of b])
  qed (auto simp: bucket_list.simps [of b])
qed

lemma bucket_list_distinct: "0 < bs \<Longrightarrow> distinct (bucket_list b to bs)"
proof (induction b to bs rule: bucket_list.induct)
  case (1 b to bs)
  then show ?case using bucket_list_set [of bs b "b + bs" to] by (auto simp: bucket_list.simps [of b])
qed

lemma sum_list_delta: "distinct xs \<Longrightarrow> (\<Sum>x\<leftarrow>xs. if x = k then g x else (0::nat)) = (if k \<in> set xs then g k else 0)"
  by (induction xs) auto

lemma bucketSize_pos: "0 < bucketSize gran"
  by (simp add: bucketSize_def ms_defs)

section \<open>Lemmas on rows\<close>

lemma row_count_group:
  assumes "distinct ks"
  shows "(\<Sum>k\<leftarrow>ks. row_count (\<lambda>r. g r = k \<and> P r) s) = row_count (\<lambda>r. g r \<in> set ks \<and> P r) s"
  using assms
proof (induction ks)
  case Nil
  then show ?case using row_count_0 [of "\<lambda>r. False" s] by simp
next
  case (Cons k ks)
  have "row_count (\<lambda>r. (g r \<in> set (k # ks) \<and> P r) \<and> g r = k) s = row_count (\<lambda>r. g r = k \<and> P r) s"
    by (rule row_count_cong) auto
  moreover have "row_count (\<lambda>r. (g r \<in> set (k # ks) \<and> P r) \<and> g r \<noteq> k) s = row_count (\<lambda>r. g r \<in> set ks \<and> P r) s"
    using Cons.prems by (intro row_count_cong) auto
  ultimately show ?case using row_count_split [of "\<lambda>r. g r \<in> set (k # ks) \<and> P r" "\<lambda>r. g r = k" s] Cons by simp
qed

definition gran_key :: "string \<Rightarrow> int \<Rightarrow> view_key" where
  "gran_key gran b = (if gran = ''minute'' then Minute b else if gran = ''hour'' then Hour b else Daily b)"

lemma gran_key_read: "read_view (gran_key gran b) cm = mget 0 (series gran cm) b"
  and gran_key_hit: "view_hit (gran_key gran b) r \<longleftrightarrow> floorTo (r_ts r) (bucketSize gran) = b"
  by (simp_all add: gran_key_def series_def bucketSize_def)

subsection \<open>The two time series\<close>

lemma fst_fold_scan: "fst (fold (\<lambda>x (c, n). (f x c, n + 1)) xs st) = fold f xs (fst st)"
  for st :: "'c \<times> nat"
  by (induction xs arbitrary: st) (auto simp: case_prod_beta')

lemma series_code_get:
  "0 < bs \<Longrightarrow> mget 0 (fst (series_code gran from to bs cm st)) b =
    mget 0 (fst st) b + (if b \<in> set (bucket_list (floorTo from bs) to bs) then mget 0 (series gran cm) b else 0)"
proof -
  assume bs: "0 < bs"
  have "fst (series_code gran from to bs cm st)
      = fold (\<lambda>b. add_to b (mget 0 (series gran cm) b)) (bucket_list (floorTo from bs) to bs) (fst st)"
    unfolding series_code_def by (rule fst_fold_scan)
  then show ?thesis using fold_add_to [of "\<lambda>b. b" "mget 0 (series gran cm)"]
      sum_list_delta [OF bucket_list_distinct [OF bs], of b "mget 0 (series gran cm)"] by simp
qed

lemma series_mv_get:
  assumes "b \<in> set (bucket_list (floorTo from bs) to bs)" "0 < bs"
  shows "mget 0 (fst (fold (\<lambda>c st. case map_of (o_mv s) c of None \<Rightarrow> st | Some cm \<Rightarrow> series_code gran from to bs cm st) codes st)) b
    = mget 0 (fst st) b + (\<Sum>c\<leftarrow>codes. view (gran_key gran b) c s)"
proof (induction codes arbitrary: st)
  case (Cons c codes)
  show ?case using Cons.IH series_code_get [OF assms(2), of gran "from" to _ st b] assms(1)
    by (cases "map_of (o_mv s) c") (simp_all add: view_def gran_key_read)
qed simp

lemma fold_index_rows:
  assumes "part_ok p" "\<And>i m. i < Rows p \<Longrightarrow> body i m = h (part_row p i) m"
  shows "fold body [0..<length (TS p)] m = fold h (part_rows p) m"
proof -
  have "fold body xs m = fold h (map (part_row p) xs) m" if "\<forall>i\<in>set xs. i < Rows p" for xs m
    using that assms(2) by (induction xs arbitrary: m) auto
  then show ?thesis by (simp add: part_rows_def Rows_def)
qed

lemma part_bounds:
  assumes "part_ok p" "r \<in> set (part_rows p)"
  shows "MinTS p \<le> r_ts r \<and> r_ts r \<le> MaxTS p"
  using assms set_TS [of p] by (auto simp: part_ok_def)

lemma scan_part_get:
  assumes "part_ok p"
  shows "mget 0 (fst (scan_part (codeSet codes) flr to bs p st)) b = mget 0 (fst st) b +
    length (filter (\<lambda>r. flr \<le> r_ts r \<and> r_ts r \<le> to \<and> r_code r \<in> set codes \<and> floorTo (r_ts r) bs = b) (part_rows p))"
proof (cases "MaxTS p < flr \<or> to < MinTS p")
  case True
  then have "filter (\<lambda>r. flr \<le> r_ts r \<and> r_ts r \<le> to \<and> r_code r \<in> set codes \<and> floorTo (r_ts r) bs = b) (part_rows p) = []"
    using part_bounds [OF assms] by (force simp: filter_empty_conv)
  then show ?thesis using True by (simp add: scan_part_def)
next
  case False
  let ?c = "\<lambda>r. flr \<le> r_ts r \<and> r_ts r \<le> to \<and> r_code r \<in> set codes"
  have "fst (scan_part (codeSet codes) flr to bs p st)
    = fold (\<lambda>i counts. if flr \<le> TS p ! i \<and> TS p ! i \<le> to \<and> mget False (codeSet codes) (Code p ! i)
        then bump (floorTo (TS p ! i) bs) counts else counts) [0..<length (TS p)] (fst st)"
    using False unfolding scan_part_def by (simp only: if_False fst_fold_scan)
  also have "\<dots> = fold (\<lambda>r m. if ?c r then bump (floorTo (r_ts r) bs) m else m) (part_rows p) (fst st)"
    by (rule fold_index_rows [OF assms]) (simp add: part_row_def codeSet_get)
  also have "\<dots> = fold (\<lambda>r. add_to (floorTo (r_ts r) bs) 1) (filter ?c (part_rows p)) (fst st)"
    by (simp add: fold_filter_if bump_add_to)
  finally have "mget 0 (fst (scan_part (codeSet codes) flr to bs p st)) b
    = mget 0 (fst st) b + (\<Sum>r\<leftarrow>filter ?c (part_rows p). if floorTo (r_ts r) bs = b then 1 else 0)"
    by (simp only: fold_add_to)
  moreover have "(\<Sum>r\<leftarrow>filter ?c xs. if floorTo (r_ts r) bs = b then 1 else 0)
    = length (filter (\<lambda>r. flr \<le> r_ts r \<and> r_ts r \<le> to \<and> r_code r \<in> set codes \<and> floorTo (r_ts r) bs = b) xs)" for xs
    by (induction xs) auto
  ultimately show ?thesis by simp
qed

lemma fold_parts_count:
  assumes "parts_ok s" "\<And>p st. part_ok p \<Longrightarrow> get (f p st) = get st + length (filter P (part_rows p))"
  shows "get (fold f (concat (map snd (o_parts s))) st) = get st + row_count P s"
proof -
  have "get (fold f ps st) = get st + count_rows P ps" if "\<forall>p\<in>set ps. part_ok p" for ps st
    using that assms(2) by (induction ps arbitrary: st) (auto simp: count_rows_def)
  then have "get (fold f (concat (map snd m)) st) = get st + (\<Sum>(dk, ps)\<leftarrow>m. count_rows P ps)"
    if "\<forall>(dk, ps)\<in>set m. \<forall>p\<in>set ps. part_ok p" for m :: "(string, part list) gomap" and st
    using that by (induction m arbitrary: st) auto
  moreover have "\<forall>(dk, ps)\<in>set (o_parts s). \<forall>p\<in>set ps. part_ok p" using assms(1) by (auto simp: parts_ok_def)
  ultimately show ?thesis unfolding row_count_def by blast
qed

lemma series_raw_get:
  "parts_ok s \<Longrightarrow> mget 0 (fst (fold (scan_part (codeSet codes) flr to bs) (concat (map snd (o_parts s))) ([], 0))) b
    = row_count (\<lambda>r. flr \<le> r_ts r \<and> r_ts r \<le> to \<and> r_code r \<in> set codes \<and> floorTo (r_ts r) bs = b) s"
  using fold_parts_count [where get = "\<lambda>st. mget 0 (fst st) b" and st = "([], 0)", OF _ scan_part_get] by simp

lemma fillSeries_cong:
  "(\<And>b. b \<in> set (bucket_list (floorTo from bs) to bs) \<Longrightarrow> mget 0 m b = mget 0 m' b) \<Longrightarrow>
    fillSeries m from to bs gran = fillSeries m' from to bs gran"
  by (simp add: fillSeries_def)

lemma TimeSeries_agree:
  assumes "olap_ok mcut s" "distinct codes" "\<forall>r\<in>store_rows s. r_code r \<in> set codes \<longrightarrow> r_ts r \<le> to"
    and "gran = ''minute'' \<longrightarrow> mcut \<le> floorTo from minuteMS"
  shows "fst (TimeSeriesMV codes gran from to s) = fst (TimeSeriesRaw codes gran from to s)"
proof -
  let ?bs = "bucketSize gran" let ?f = "floorTo from (bucketSize gran)"
  have ok: "parts_ok s" "mv_exact mcut s" using assms(1) by (simp_all add: olap_ok_def)
  note bs = bucketSize_pos [of gran]
  have "mget 0 (fst (fold (\<lambda>c st. case map_of (o_mv s) c of None \<Rightarrow> st | Some cm \<Rightarrow> series_code gran from to ?bs cm st) codes ([], 0))) b
    = mget 0 (fst (fold (scan_part (codeSet codes) ?f to ?bs) (concat (map snd (o_parts s))) ([], 0))) b"
    if b: "b \<in> set (bucket_list ?f to ?bs)" for b
  proof -
    have flr: "?f \<le> b" using b bucket_list_set [OF bs] by simp
    have live: "live_key mcut (gran_key gran b)" using assms(4) flr by (auto simp: gran_key_def bucketSize_def)
    have "(\<Sum>c\<leftarrow>codes. view (gran_key gran b) c s) = (\<Sum>c\<leftarrow>codes. row_count (\<lambda>r. r_code r = c \<and> floorTo (r_ts r) ?bs = b) s)"
      using ok(2) live by (simp add: mv_exact_def gran_key_hit)
    also have "\<dots> = row_count (\<lambda>r. r_code r \<in> set codes \<and> floorTo (r_ts r) ?bs = b) s" by (rule row_count_group [OF assms(2)])
    also have "\<dots> = row_count (\<lambda>r. ?f \<le> r_ts r \<and> r_ts r \<le> to \<and> r_code r \<in> set codes \<and> floorTo (r_ts r) ?bs = b) s"
    proof (rule row_count_cong)
      fix r assume r: "r \<in> store_rows s"
      have "floorTo (r_ts r) ?bs \<le> r_ts r" using floorTo_le [OF _ bs] store_rows_ok [OF ok(1) r] by (simp add: ts_ok_def)
      then show "(r_code r \<in> set codes \<and> floorTo (r_ts r) ?bs = b)
        = (?f \<le> r_ts r \<and> r_ts r \<le> to \<and> r_code r \<in> set codes \<and> floorTo (r_ts r) ?bs = b)" using assms(3) r flr by auto
    qed
    finally show ?thesis using series_mv_get [OF b bs, where s = s and gran = gran and codes = codes and st = "([], 0)"] series_raw_get [OF ok(1)] by simp
  qed
  then show ?thesis unfolding TimeSeriesMV_def TimeSeriesRaw_def Let_def case_prod_beta' fst_conv by (rule fillSeries_cong)
qed

subsection \<open>The two breakdowns\<close>

text \<open>The rows a breakdown counts under value \<open>v\<close> of dimension \<open>d\<close>, by the hour of the row.\<close>

definition in_hours :: "int \<Rightarrow> int \<Rightarrow> int \<Rightarrow> bool" where
  "in_hours from to h \<longleftrightarrow> from \<le> 0 \<or> (floorTo from hourMS \<le> h \<and> h \<le> to)"

lemma fold_addCounts_get:
  "\<forall>h\<in>set hs. wf_map (g h) \<Longrightarrow>
    mget 0 (fold (\<lambda>h m. addCounts m (g h)) hs m) v = mget 0 m v + (\<Sum>h\<leftarrow>hs. mget 0 (g h) v)"
  by (induction hs arbitrary: m) (auto simp: addCounts_get)

lemma fold_addCounts_ok:
  "\<forall>h\<in>set hs. counts_ok (g h) \<Longrightarrow> counts_ok m \<Longrightarrow> counts_ok (fold (\<lambda>h m. addCounts m (g h)) hs m)"
  by (induction hs arbitrary: m) (auto simp: addCounts_ok)

lemma dim_counts: "dim_ok m \<Longrightarrow> counts_ok (mget [] m h)"
  using dim_ok_get by (simp add: counts_ok_def)

lemma breakdown_code_hours:
  assumes "dim_ok byHour"
  shows "\<exists>hs. breakdown_code from to byHour counts = fold (\<lambda>h m. addCounts m (mget [] byHour h)) hs counts \<and> distinct hs
    \<and> (\<forall>h\<in>set hs. in_hours from to h)
    \<and> (\<forall>h. in_hours from to h \<and> hourMS dvd (h - floorTo from hourMS) \<and> map_of byHour h \<noteq> None \<longrightarrow> h \<in> set hs)"
proof (cases "\<not> from \<le> 0 \<and> go_div (to - floorTo from hourMS) hourMS + 1 < int (length byHour)")
  case True
  then show ?thesis
    by (intro exI [of _ "bucket_list (floorTo from hourMS) to hourMS"])
      (simp add: breakdown_code_def Let_def bucket_list_distinct bucket_list_set in_hours_def ms_defs)
next
  case False
  have w: "wf_map byHour" using assms by (simp add: dim_ok_def)
  let ?hs = "map fst (filter (\<lambda>(h, vs). in_hours from to h) byHour)"
  have get: "mget [] byHour h = vs" if "(h, vs) \<in> set byHour" for h vs
    using that wf_map_lookup [OF w, of h vs] by (simp add: mget_def)
  have "fold (\<lambda>(h, vs) m. if in_hours from to h then addCounts m vs else m) xs counts
    = fold (\<lambda>h m. addCounts m (mget [] byHour h)) (map fst (filter (\<lambda>(h, vs). in_hours from to h) xs)) counts"
    if "set xs \<subseteq> set byHour" for xs counts
    using that get by (induction xs arbitrary: counts) (auto split: prod.splits)
  from this [of byHour] have "breakdown_code from to byHour counts = fold (\<lambda>h m. addCounts m (mget [] byHour h)) ?hs counts"
    using False unfolding breakdown_code_def Let_def by (simp only: if_False in_hours_def)
  moreover have "distinct ?hs" using w by (simp add: wf_map_def distinct_map_filter)
  moreover have "h \<in> set ?hs" if i: "in_hours from to h" and n: "map_of byHour h \<noteq> None" for h
  proof -
    obtain vs where "(h, vs) \<in> set byHour" using n by (auto dest: map_of_SomeD)
    then show ?thesis using i by force
  qed
  ultimately show ?thesis by (intro exI [of _ ?hs]) auto
qed

text \<open>The rows of code \<open>c\<close> with value \<open>v\<close> in dimension \<open>d\<close> whose hour lies in the window.\<close>

definition dim_hit :: "nat \<Rightarrow> u32 \<Rightarrow> int \<Rightarrow> int \<Rightarrow> row \<Rightarrow> bool" where
  "dim_hit d v from to r \<longleftrightarrow> d < length (r_dims r) \<and> r_dims r ! d = v \<and> in_hours from to (floorTo (r_ts r) hourMS)"

lemma hour_aligned: "0 \<le> a \<Longrightarrow> 0 \<le> b \<Longrightarrow> hourMS dvd (floorTo a hourMS - floorTo b hourMS)"
  using floorTo_le [of a hourMS] floorTo_le [of b hourMS] by (simp add: ms_defs)

lemma breakdown_code_get:
  assumes "olap_ok mcut s" "map_of (o_mv s) c = Some cm" "d < numDims" "counts_ok counts" "0 \<le> from"
  shows "mget 0 (breakdown_code from to (dims cm ! d) counts) v = mget 0 counts v + row_count (\<lambda>r. r_code r = c \<and> dim_hit d v from to r) s"
    "counts_ok (breakdown_code from to (dims cm ! d) counts)"
proof -
  let ?m = "dims cm ! d"
  have ok: "parts_ok s" "mvs_ok s" "mv_exact mcut s" using assms(1) by (simp_all add: olap_ok_def)
  have cm: "mv_ok cm" using ok(2) assms(2) by (auto simp: mvs_ok_def dest!: map_of_SomeD)
  then have m: "dim_ok ?m" "d < length (dims cm)" using assms(3) by (simp_all add: mv_ok_def)
  obtain hs where h: "breakdown_code from to ?m counts = fold (\<lambda>h m. addCounts m (mget [] ?m h)) hs counts \<and> distinct hs
    \<and> (\<forall>h\<in>set hs. in_hours from to h)
    \<and> (\<forall>h. in_hours from to h \<and> hourMS dvd (h - floorTo from hourMS) \<and> map_of ?m h \<noteq> None \<longrightarrow> h \<in> set hs)"
    using breakdown_code_hours [OF m(1), of "from" to counts] by (rule exE)
  note hs = conjunct1 [OF h] conjunct1 [OF conjunct2 [OF h]] conjunct1 [OF conjunct2 [OF conjunct2 [OF h]]]
    conjunct2 [OF conjunct2 [OF conjunct2 [OF h]]]
  show "counts_ok (breakdown_code from to ?m counts)"
    unfolding hs(1) by (rule fold_addCounts_ok) (use dim_counts [OF m(1)] assms(4) in blast)+
  have v: "mget 0 (mget [] ?m h) x = row_count (\<lambda>r. r_code r = c \<and> view_hit (Dim d h x) r) s" for h x
  proof -
    have "view (Dim d h x) c s = mget 0 (mget [] ?m h) x" using assms(2) m(2) by (simp add: view_def)
    moreover have "live_key mcut (Dim d h x)" by simp
    ultimately show ?thesis using ok(3) unfolding mv_exact_def by metis
  qed
  let ?P = "\<lambda>r. r_code r = c \<and> d < length (r_dims r) \<and> r_dims r ! d = v"
  have "(\<Sum>h\<leftarrow>hs. mget 0 (mget [] ?m h) v) = (\<Sum>h\<leftarrow>hs. row_count (\<lambda>r. floorTo (r_ts r) hourMS = h \<and> ?P r) s)"
    unfolding v by (intro arg_cong [where f = sum_list] map_cong refl row_count_cong) auto
  also have "\<dots> = row_count (\<lambda>r. floorTo (r_ts r) hourMS \<in> set hs \<and> ?P r) s" by (rule row_count_group [OF hs(2)])
  also have "\<dots> = row_count (\<lambda>r. r_code r = c \<and> dim_hit d v from to r) s"
  proof (rule row_count_cong)
    fix r assume r: "r \<in> store_rows s"
    let ?h = "floorTo (r_ts r) hourMS"
    have "?h \<in> set hs" if "?P r" "in_hours from to ?h"
    proof (rule hs(4) [rule_format], intro conjI)
      show "in_hours from to ?h" by (rule that(2))
      show "hourMS dvd (?h - floorTo from hourMS)"
        using store_rows_ok [OF ok(1) r] assms(5) by (intro hour_aligned) (simp_all add: ts_ok_def)
      have "row_count (\<lambda>r. r_code r = c \<and> view_hit (Dim d ?h v) r) s \<noteq> 0" using r that(1) by (auto simp: row_count_0)
      then have "mget 0 (mget [] ?m ?h) v \<noteq> 0" using v by simp
      then show "map_of ?m ?h \<noteq> None" by (cases "map_of ?m ?h") (auto simp: mget_def)
    qed
    then show "(?h \<in> set hs \<and> ?P r) = (r_code r = c \<and> dim_hit d v from to r)" using hs(3) by (auto simp: dim_hit_def)
  qed
  finally show "mget 0 (breakdown_code from to ?m counts) v = mget 0 counts v + row_count (\<lambda>r. r_code r = c \<and> dim_hit d v from to r) s"
    unfolding hs(1) using fold_addCounts_get [of hs "\<lambda>h. mget [] ?m h" counts v] dim_counts [OF m(1)] by (simp add: counts_ok_def)
qed

lemma breakdown_mv_get:
  assumes "olap_ok mcut s" "d < numDims" "0 \<le> from" "counts_ok counts"
  shows "mget 0 (fold (\<lambda>c counts. case map_of (o_mv s) c of None \<Rightarrow> counts | Some cm \<Rightarrow> breakdown_code from to (dims cm ! d) counts)
      codes counts) v = mget 0 counts v + (\<Sum>c\<leftarrow>codes. row_count (\<lambda>r. r_code r = c \<and> dim_hit d v from to r) s)
    \<and> counts_ok (fold (\<lambda>c counts. case map_of (o_mv s) c of None \<Rightarrow> counts | Some cm \<Rightarrow> breakdown_code from to (dims cm ! d) counts)
      codes counts)"
  using assms(4)
proof (induction codes arbitrary: counts)
  case (Cons c codes)
  show ?case
  proof (cases "map_of (o_mv s) c")
    case None
    have "row_count (\<lambda>r. r_code r = c \<and> dim_hit d v from to r) s = 0"
    proof -
      have "view (Daily b) c s = 0" for b using None by (simp add: view_def)
      then have "row_count (\<lambda>r. r_code r = c \<and> view_hit (Daily b) r) s = 0" for b
        using assms(1) by (simp add: olap_ok_def mv_exact_def)
      then show ?thesis by (auto simp: row_count_0)
    qed
    then show ?thesis using Cons None by simp
  next
    case (Some cm)
    note b = breakdown_code_get [OF assms(1) Some assms(2) Cons.prems assms(3), of to]
    show ?thesis using Cons.IH [OF b(2)] b(1) [of v] Some by simp
  qed
qed simp

lemma fold_bump_get: "mget 0 (fold (\<lambda>r. bump (g r)) rs m) k = mget 0 m k + length (filter (\<lambda>r. g r = k) rs)"
  by (induction rs arbitrary: m) (auto simp: mget_bump)

lemma fold_bump_ok: "counts_ok m \<Longrightarrow> counts_ok (fold (\<lambda>r. bump (g r)) rs m)"
  by (induction rs arbitrary: m) (auto simp: bump_add_to counts_ok_add)

definition raw_hit :: "u32 list \<Rightarrow> int \<Rightarrow> int \<Rightarrow> row \<Rightarrow> bool" where
  "raw_hit codes from to r \<longleftrightarrow> (from \<le> 0 \<or> (floorTo from hourMS \<le> r_ts r \<and> r_ts r \<le> to)) \<and> r_code r \<in> set codes"

lemma breakdown_part_fold:
  assumes "part_ok p" "d < numDims"
  shows "breakdown_part (codeSet codes) d from to p counts
    = fold (\<lambda>r. bump (r_dims r ! d)) (filter (raw_hit codes from to) (part_rows p)) counts"
proof (cases "\<not> from \<le> 0 \<and> (MaxTS p < floorTo from hourMS \<or> to < MinTS p)")
  case True
  then have "filter (raw_hit codes from to) (part_rows p) = []"
    using part_bounds [OF assms(1)] by (force simp: filter_empty_conv raw_hit_def)
  then show ?thesis using True by (simp add: breakdown_part_def Let_def)
next
  case False
  have "breakdown_part (codeSet codes) d from to p counts
    = fold (\<lambda>i m. if (from \<le> 0 \<or> (floorTo from hourMS \<le> TS p ! i \<and> TS p ! i \<le> to)) \<and> mget False (codeSet codes) (Code p ! i)
        then bump (Dims p ! d ! i) m else m) [0..<length (TS p)] counts"
    using False unfolding breakdown_part_def Let_def by (simp only: if_False)
  also have "\<dots> = fold (\<lambda>r m. if raw_hit codes from to r then bump (r_dims r ! d) m else m) (part_rows p) counts"
    using assms by (intro fold_index_rows [OF assms(1)]) (simp add: part_row_def codeSet_get raw_hit_def part_ok_def)
  finally show ?thesis by (simp add: fold_filter_if)
qed

lemma breakdown_raw_get:
  assumes "parts_ok s" "d < numDims"
  shows "mget 0 (fold (breakdown_part (codeSet codes) d from to) (concat (map snd (o_parts s))) []) v
    = row_count (\<lambda>r. raw_hit codes from to r \<and> r_dims r ! d = v) s"
proof -
  have "mget 0 (breakdown_part (codeSet codes) d from to p m) v
      = mget 0 m v + length (filter (\<lambda>r. raw_hit codes from to r \<and> r_dims r ! d = v) (part_rows p))" if "part_ok p" for p m
    by (simp add: breakdown_part_fold [OF that assms(2)] fold_bump_get conj_commute)
  from fold_parts_count [where get = "\<lambda>m. mget 0 m v" and st = "[]", OF assms(1) this] show ?thesis by simp
qed

lemma breakdown_raw_ok:
  assumes "parts_ok s" "d < numDims"
  shows "counts_ok (fold (breakdown_part (codeSet codes) d from to) (concat (map snd (o_parts s))) [])"
proof -
  have "counts_ok (fold (breakdown_part (codeSet codes) d from to) ps m)" if "\<forall>p\<in>set ps. part_ok p" "counts_ok m" for ps m
    using that by (induction ps arbitrary: m) (auto simp: breakdown_part_fold assms(2) fold_bump_ok)
  moreover have "\<forall>p\<in>set (concat (map snd (o_parts s))). part_ok p" using assms(1) by (auto simp: parts_ok_def)
  ultimately show ?thesis using counts_ok_Nil by blast
qed

lemma store_rows_dims:
  assumes "parts_ok s" "r \<in> store_rows s"
  shows "length (r_dims r) = numDims"
proof -
  from assms(2) obtain dk ps p where r: "(dk, ps) \<in> set (o_parts s)" "p \<in> set ps" "r \<in> set (part_rows p)"
    by (auto simp: store_rows_def)
  then have "part_ok p" using assms(1) by (auto simp: parts_ok_def)
  then show ?thesis using r(3) by (auto simp: part_rows_def part_row_def part_ok_def)
qed

lemma Breakdown_agree:
  assumes "olap_ok mcut s" "distinct codes" "0 \<le> from" "\<forall>r\<in>store_rows s. r_code r \<in> set codes \<longrightarrow> r_ts r \<le> to"
  shows "BreakdownMV codes dm from to limit s = BreakdownRaw codes dm from to limit s"
proof (cases "dimIndex dm")
  case (Some d)
  have d: "d < numDims" using Some by (auto simp: dimIndex_def numDims_def split: if_splits)
  have ok: "parts_ok s" using assms(1) by (simp add: olap_ok_def)
  let ?mv = "fold (\<lambda>c counts. case map_of (o_mv s) c of None \<Rightarrow> counts | Some cm \<Rightarrow> breakdown_code from to (dims cm ! d) counts) codes []"
  let ?raw = "fold (breakdown_part (codeSet codes) d from to) (concat (map snd (o_parts s))) []"
  note mv = breakdown_mv_get [OF assms(1) d assms(3) counts_ok_Nil]
  have "mget 0 ?mv v = mget 0 ?raw v" for v
  proof -
    have "mget 0 ?mv v = row_count (\<lambda>r. r_code r \<in> set codes \<and> dim_hit d v from to r) s"
      using mv row_count_group [OF assms(2), of r_code "dim_hit d v from to" s] by simp
    also have "\<dots> = row_count (\<lambda>r. raw_hit codes from to r \<and> r_dims r ! d = v) s"
    proof (rule row_count_cong)
      fix r assume r: "r \<in> store_rows s"
      have ts: "0 \<le> r_ts r" using store_rows_ok [OF ok r] by (simp add: ts_ok_def)
      have h: "floorTo (r_ts r) hourMS \<le> r_ts r" using floorTo_le [OF ts] by (simp add: ms_defs)
      have "hourMS dvd floorTo from hourMS" "0 < hourMS" using floorTo_le [OF assms(3), of hourMS] by (simp_all add: ms_defs)
      then have "floorTo from hourMS \<le> floorTo (r_ts r) hourMS \<longleftrightarrow> floorTo from hourMS \<le> r_ts r"
        using floorTo_cut [OF ts] by blast
      then show "(r_code r \<in> set codes \<and> dim_hit d v from to r) = (raw_hit codes from to r \<and> r_dims r ! d = v)"
        using assms(4) r h store_rows_dims [OF ok r] d by (auto simp: dim_hit_def raw_hit_def in_hours_def)
    qed
    finally show ?thesis using breakdown_raw_get [OF ok d] by simp
  qed
  then have "mset ?mv = mset ?raw" by (rule counts_unique [OF conjunct2 [OF mv] breakdown_raw_ok [OF ok d]])
  from rank_unique [OF this] Some show ?thesis by (simp only: BreakdownMV_def BreakdownRaw_def option.case)
qed (simp add: BreakdownMV_def BreakdownRaw_def)

subsection \<open>Summaries\<close>

lemma sum_views:
  assumes "wf_map m" "\<And>b. mget 0 m b = row_count (\<lambda>r. g r = b \<and> P r) s"
  shows "(\<Sum>(b, n)\<leftarrow>m. n) = row_count P s"
proof -
  have "n = mget 0 m b" if "(b, n) \<in> set m" for b n
    using that wf_map_lookup [OF assms(1)] by (simp add: mget_def)
  then have "(\<Sum>(b, n)\<leftarrow>m. n) = (\<Sum>x\<leftarrow>m. row_count (\<lambda>r. g r = fst x \<and> P r) s)"
    using assms(2) by (intro arg_cong [where f = sum_list] map_cong refl) auto
  also have "\<dots> = (\<Sum>b\<leftarrow>map fst m. row_count (\<lambda>r. g r = b \<and> P r) s)" by (simp add: comp_def)
  also have "\<dots> = row_count (\<lambda>r. g r \<in> set (map fst m) \<and> P r) s"
    using assms(1) by (intro row_count_group) (simp add: wf_map_def)
  also have "\<dots> = row_count P s"
  proof (rule row_count_cong)
    fix r assume r: "r \<in> store_rows s"
    have "g r \<in> set (map fst m)" if "P r"
    proof -
      have "mget 0 m (g r) \<noteq> 0" using r that unfolding assms(2) by (auto simp: row_count_0)
      then show ?thesis by (auto simp: mget_def split: option.splits dest!: map_of_SomeD) force
    qed
    then show "(g r \<in> set (map fst m) \<and> P r) = P r" by blast
  qed
  finally show ?thesis .
qed

lemma summary_exact:
  assumes "olap_ok mcut s" "map_of (o_mv s) c = Some cm"
  shows "Total (summary now cm) = row_count (\<lambda>r. r_code r = c) s" "cs_Bots (summary now cm) = row_count (\<lambda>r. r_code r = c \<and> r_bot r) s"
proof -
  have ok: "mvs_ok s" "mv_exact mcut s" using assms(1) by (simp_all add: olap_ok_def)
  have cm: "wf_map (day cm)" "wf_map (bots cm)" using ok(1) assms(2) by (auto simp: mvs_ok_def mv_ok_def dest!: map_of_SomeD)
  have v: "read_view k cm = row_count (\<lambda>r. r_code r = c \<and> view_hit k r) s" if "live_key mcut k" for k
    using ok(2) assms(2) that unfolding mv_exact_def view_def by (metis option.simps(5))
  have "mget 0 (day cm) b = row_count (\<lambda>r. floorTo (r_ts r) dayMS = b \<and> r_code r = c) s" for b
    using v [of "Daily b"] by (simp add: conj_commute)
  from sum_views [OF cm(1) this] show "Total (summary now cm) = row_count (\<lambda>r. r_code r = c) s" by (simp add: summary_def)
  have "mget 0 (bots cm) b = row_count (\<lambda>r. floorTo (r_ts r) dayMS = b \<and> r_code r = c \<and> r_bot r) s" for b
  proof -
    have "mget 0 (bots cm) b = row_count (\<lambda>r. r_code r = c \<and> view_hit (Bots b) r) s" using v [of "Bots b"] by simp
    also have "\<dots> = row_count (\<lambda>r. floorTo (r_ts r) dayMS = b \<and> r_code r = c \<and> r_bot r) s" by (rule row_count_cong) auto
    finally show ?thesis .
  qed
  from sum_views [OF cm(2) this] show "cs_Bots (summary now cm) = row_count (\<lambda>r. r_code r = c \<and> r_bot r) s" by (simp add: summary_def)
qed

lemma no_view_no_rows:
  assumes "olap_ok mcut s" "map_of (o_mv s) c = None"
  shows "row_count (\<lambda>r. r_code r = c \<and> P r) s = 0"
proof -
  have "row_count (\<lambda>r. r_code r = c \<and> view_hit (Daily b) r) s = 0" for b
  proof -
    have "view (Daily b) c s = 0" using assms(2) by (simp add: view_def)
    moreover have "live_key mcut (Daily b)" by simp
    ultimately show ?thesis using assms(1) unfolding olap_ok_def mv_exact_def by metis
  qed
  then show ?thesis by (auto simp: row_count_0)
qed

lemma Summary_sums:
  "Total (fold (\<lambda>cs acc. merge_summary acc cs) xs a) = Total a + (\<Sum>x\<leftarrow>xs. Total x)
   \<and> cs_Bots (fold (\<lambda>cs acc. merge_summary acc cs) xs a) = cs_Bots a + (\<Sum>x\<leftarrow>xs. cs_Bots x)"
  by (induction xs arbitrary: a) (simp_all add: merge_summary_def)

section \<open>Properties\<close>





text \<open>The summary of a set of links counts exactly their stored clicks and bot clicks.\<close>

theorem Summary_counts_rows:
  assumes "olap_ok mcut s" "distinct codes"
  shows "Total (Summary now codes s) = row_count (\<lambda>r. r_code r \<in> set codes) s
    \<and> cs_Bots (Summary now codes s) = row_count (\<lambda>r. r_code r \<in> set codes \<and> r_bot r) s"
proof -
  let ?s = "\<lambda>c. case map_of (o_mv s) c of None \<Rightarrow> zero_summary | Some cm \<Rightarrow> summary now cm"
  have t: "Total (?s c) = row_count (\<lambda>r. r_code r = c \<and> True) s \<and> cs_Bots (?s c) = row_count (\<lambda>r. r_code r = c \<and> r_bot r) s" for c
  proof (cases "map_of (o_mv s) c")
    case None
    then show ?thesis using no_view_no_rows [OF assms(1) None, of "\<lambda>_. True"] no_view_no_rows [OF assms(1) None, of r_bot]
      by (simp add: zero_summary_def)
  next
    case (Some cm)
    then show ?thesis using summary_exact [OF assms(1) Some, of now] by simp
  qed
  show ?thesis
    using Summary_sums [of "map ?s codes" zero_summary] row_count_group [OF assms(2), of r_code "\<lambda>_. True" s]
      row_count_group [OF assms(2), of r_code r_bot s]
    by (simp add: Summary_def SummaryBatch_def comp_def t zero_summary_def)
qed

theorem Summary_counts_rows_witness: "Total (Summary 0 [1, 2] (NewOLAP 30)) = row_count (\<lambda>r. r_code r \<in> set [1, 2]) (NewOLAP 30)"
  using Summary_counts_rows [OF NewOLAP_ok, of "[1, 2]"] by simp

text \<open>With a retention of one day the minute buckets outlive the raw rows: a click of the evening
  before yesterday is dropped with its day, but its minute counter stays, so the two time
  series differ.\<close>

theorem one_day_retention_diverges:
  "let e = zero_event\<lparr>ev_TS := 8 * 86400000 + 18 * 3600000\<rparr>;
       s = Retain (10 * 86400000 + 12 * 3600000) (Insert [''1970-01-09''] [e] (NewOLAP 1))
   in row_count (\<lambda>r. True) s = 0 \<and> view (Minute (8 * 86400000 + 18 * 3600000)) 1 s = 1"
  by code_simp

end
