(* ===== verification/Idgen.thy ===== *)
theory Idgen
  imports Gotime
begin

text \<open>
  \<^verbatim>\<open>backend/idgen.go\<close>: Snowflake identifiers and the short codes made from them.
  Panics (an index out of the digit buffer) are \<open>None\<close>; the wall clock is a list of
  readings that the generator consumes, and \<open>None\<close> there means that it was still
  waiting when the readings ran out.
\<close>

section \<open>Constants\<close>

definition kortexEpoch :: i64 where "kortexEpoch = 1735689600000"
definition timeBits :: nat where "timeBits = 41"
definition nodeBits :: nat where "nodeBits = 10"
definition seqBits :: nat where "seqBits = 12"
definition maxNodeID :: i64 where "maxNodeID = push_bit nodeBits 1 - 1"
definition maxSeq :: i64 where "maxSeq = push_bit seqBits 1 - 1"
definition scrambleMult :: u64 where "scrambleMult = 0x2545F4914F6CDD1"
definition codeLen :: nat where "codeLen = 11"

section \<open>Scrambling\<close>

text \<open>\<^verbatim>\<open>for i := 0; i < 6; i++ { x = x * (2 - a*x) }\<close>\<close>

fun newton_steps :: "nat \<Rightarrow> u64 \<Rightarrow> u64 \<Rightarrow> u64" where
  "newton_steps 0 a x = x"
| "newton_steps (Suc i) a x = newton_steps i a (x * (2 - a * x))"

definition invMod2n :: "u64 \<Rightarrow> u64" where
  "invMod2n a = newton_steps 6 a a"

definition scrambleInv :: u64 where
  "scrambleInv = invMod2n scrambleMult"

definition scramble :: "i64 \<Rightarrow> u64" where
  "scramble ident = ident * scrambleMult"

section \<open>Base 62\<close>

definition b62alphabet :: string where
  "b62alphabet = ''0123456789ABCDEFGHIJKLMNOPQRSTUVWXYZabcdefghijklmnopqrstuvwxyz''"

text \<open>The 256-entry table of \<^verbatim>\<open>int8\<close> digit values, \<open>-1\<close> outside the alphabet.\<close>

definition b62value :: "u8 list" where
  "b62value = fold (\<lambda>i t. t[of_char (b62alphabet ! i) := of_nat i])
     [0..<length b62alphabet] (replicate 256 (- 1))"

text \<open>The digit loop of \<^verbatim>\<open>base62Encode\<close>: \<open>i\<close> indexes the next free byte from the right.\<close>

fun base62_digits :: "u64 \<Rightarrow> nat \<Rightarrow> string \<Rightarrow> (nat \<times> string) option" where
  "base62_digits n 0 buf = (if n = 0 then Some (0, buf) else None)"
| "base62_digits n (Suc i) buf =
     (if n = 0 then Some (Suc i, buf)
      else base62_digits (n div 62) i (buf[i := b62alphabet ! unat (n mod 62)]))"

definition base62Encode :: "u64 \<Rightarrow> nat \<Rightarrow> string option" where
  "base62Encode n pad =
     (case base62_digits n codeLen (replicate codeLen (char_of (0 :: nat))) of
        None \<Rightarrow> None
      | Some (i, buf) \<Rightarrow>
          let digits = drop i buf
          in Some (if length digits < pad
                   then replicate (pad - length digits) (CHR ''0'') @ digits else digits))"

datatype b62_error = Empty_base62 | Base62_overflow | Invalid_base62_char

text \<open>\<^verbatim>\<open>bits.Mul64\<close> and \<^verbatim>\<open>bits.Add64\<close>: the high and low words, the sum and its carry.\<close>

definition mul64 :: "u64 \<Rightarrow> u64 \<Rightarrow> u64 \<times> u64" where
  "mul64 x y = (word_of_int (uint x * uint y div 2 ^ 64), x * y)"

definition add64 :: "u64 \<Rightarrow> u64 \<Rightarrow> u64 \<Rightarrow> u64 \<times> u64" where
  "add64 x y c = (x + y + c, if uint x + uint y + uint c < 2 ^ 64 then 0 else 1)"

fun base62_scan :: "string \<Rightarrow> u64 \<Rightarrow> b62_error + u64" where
  "base62_scan [] n = Inr n"
| "base62_scan (c # cs) n =
     (let v = b62value ! of_char c
      in if v <s 0 then Inl Invalid_base62_char
         else let (hi, lo) = mul64 n 62; (lo', carry) = add64 lo (scast v) 0
              in if hi \<noteq> 0 \<or> carry \<noteq> 0 then Inl Base62_overflow else base62_scan cs lo')"

definition base62Decode :: "string \<Rightarrow> b62_error + u64" where
  "base62Decode s =
     (if s = '''' then Inl Empty_base62
      else if length s > codeLen then Inl Base62_overflow
      else base62_scan s 0)"

section \<open>Codes\<close>

definition encodeCode :: "i64 \<Rightarrow> string option" where
  "encodeCode ident = base62Encode (scramble ident) codeLen"

datatype code_error = B62 b62_error | Not_a_kortex_code

definition decodeCode :: "string \<Rightarrow> code_error + i64" where
  "decodeCode code =
     (case base62Decode code of
        Inl e \<Rightarrow> Inl (B62 e)
      | Inr n \<Rightarrow> let ident = n * scrambleInv
                in if ident <s 0 then Inl Not_a_kortex_code else Inr ident)"

section \<open>The Snowflake generator\<close>

record snowflake =
  node :: i64
  lastMS :: i64
  seq :: i64
  Issued :: u64
  SeqExhausted :: u64
  ClockBackwards :: u64

definition NewSnowflake :: "i64 \<Rightarrow> snowflake" where
  "NewSnowflake n = \<lparr>node = n AND maxNodeID, lastMS = 0, seq = 0,
     Issued = 0, SeqExhausted = 0, ClockBackwards = 0\<rparr>"

text \<open>\<^verbatim>\<open>for now <= s.lastMS { now = time.Now().UnixMilli() }\<close>\<close>

fun wait_next_ms :: "i64 \<Rightarrow> i64 \<Rightarrow> i64 list \<Rightarrow> (i64 \<times> i64 list) option" where
  "wait_next_ms now ms [] = (if now \<le>s ms then None else Some (now, []))"
| "wait_next_ms now ms (c # cs) =
     (if now \<le>s ms then wait_next_ms c ms cs else Some (now, c # cs))"

text \<open>
  \<^verbatim>\<open>Next\<close>, in the order of the code: read the clock, hold the last timestamp if the
  clock went back, advance or reset the sequence, wait for the next millisecond
  when the sequence is used up, and compose the identifier.
\<close>

definition compose_id :: "i64 \<Rightarrow> i64 \<Rightarrow> i64 \<Rightarrow> i64" where
  "compose_id now nd sq =
     push_bit (nodeBits + seqBits) (now - kortexEpoch) OR push_bit seqBits nd OR sq"

definition Next :: "snowflake \<Rightarrow> i64 list \<Rightarrow> (i64 \<times> snowflake \<times> i64 list) option" where
  "Next s clock =
     (case clock of
        [] \<Rightarrow> None
      | now0 # cs \<Rightarrow>
          let back = now0 <s lastMS s;
              s1 = (if back then s\<lparr>ClockBackwards := ClockBackwards s + 1\<rparr> else s);
              now = (if back then lastMS s else now0);
              advanced =
                (if now = lastMS s1
                 then let s2 = s1\<lparr>seq := (seq s1 + 1) AND maxSeq\<rparr>
                      in if seq s2 = 0
                         then let s3 = s2\<lparr>SeqExhausted := SeqExhausted s2 + 1\<rparr>
                              in map_option (\<lambda>(now', cs'). (now', s3, cs')) (wait_next_ms now (lastMS s3) cs)
                         else Some (now, s2, cs)
                 else Some (now, s1\<lparr>seq := 0\<rparr>, cs))
          in map_option (\<lambda>(now', s', cs').
                 let s'' = s'\<lparr>lastMS := now', Issued := Issued s' + 1\<rparr>
                 in (compose_id now' (node s'') (seq s''), s'', cs')) advanced)"

text \<open>\<open>n\<close> calls of \<^const>\<open>Next\<close> on one generator, as the burst endpoint makes them.\<close>

definition next_many :: "nat \<Rightarrow> snowflake \<Rightarrow> i64 list \<Rightarrow> (i64 list \<times> snowflake \<times> i64 list) option" where
  "next_many n s clock = run_source Next n s clock"

section \<open>Exploding an identifier\<close>

text \<open>\<^verbatim>\<open>binaryString\<close> fills \<open>width\<close> bytes from the right, shifting arithmetically.\<close>

fun binaryString :: "i64 \<Rightarrow> nat \<Rightarrow> string" where
  "binaryString v 0 = []"
| "binaryString v (Suc w) =
     binaryString (signed_drop_bit 1 v) w @ [if v AND 1 = 1 then CHR ''1'' else CHR ''0'']"

record snowflake_parts =
  ID :: i64
  Code :: "string option"
  Binary :: string
  TimeBits :: string
  NodeBits :: string
  SeqBits :: string
  TimestampMS :: i64
  IssuedAt :: string
  Node :: i64
  Sequence :: i64
  Scrambled :: u64

definition explodeID :: "i64 \<Rightarrow> snowflake_parts" where
  "explodeID ident =
     (let sinceEpoch = signed_drop_bit (nodeBits + seqBits) ident;
          nd = signed_drop_bit seqBits ident AND maxNodeID;
          sq = ident AND maxSeq;
          ts = sinceEpoch + kortexEpoch;
          tb = binaryString sinceEpoch timeBits;
          nb = binaryString nd nodeBits;
          sb = binaryString sq seqBits
      in \<lparr>ID = ident, Code = encodeCode ident, Binary = ''0'' @ tb @ nb @ sb,
          TimeBits = tb, NodeBits = nb, SeqBits = sb, TimestampMS = ts,
          IssuedAt = format_rfc3339nano (sint ts), Node = nd, Sequence = sq,
          Scrambled = scramble ident\<rparr>)"

section \<open>Specification\<close>

text \<open>The value of a digit and of a base-62 numeral, and the digits of a number: as
  many as it needs, and in a fixed width.\<close>

definition b62_index :: "char \<Rightarrow> nat" where
  "b62_index c = length (takeWhile (\<lambda>x. x \<noteq> c) b62alphabet)"

fun b62_val :: "nat \<Rightarrow> string \<Rightarrow> nat" where
  "b62_val v [] = v"
| "b62_val v (c # cs) = b62_val (62 * v + b62_index c) cs"

fun b62_digits :: "nat \<Rightarrow> string" where
  "b62_digits n = (if n = 0 then [] else b62_digits (n div 62) @ [b62alphabet ! (n mod 62)])"

declare b62_digits.simps [simp del]

fun b62_fixed :: "nat \<Rightarrow> nat \<Rightarrow> string" where
  "b62_fixed 0 n = []"
| "b62_fixed (Suc w) n = b62_fixed w (n div 62) @ [b62alphabet ! (n mod 62)]"

text \<open>
  The timestamps that fit into 41 bits after the epoch, the number an identifier
  stands for, and the generator states that can occur: the node and the sequence
  within their fields, the last timestamp unset or in the window.
\<close>

definition in_window :: "i64 \<Rightarrow> bool" where
  "in_window c \<longleftrightarrow> sint kortexEpoch \<le> sint c \<and> sint c < sint kortexEpoch + 2 ^ 41"

definition snow_val :: "i64 \<Rightarrow> i64 \<Rightarrow> i64 \<Rightarrow> int" where
  "snow_val now nd sq = (sint now - sint kortexEpoch) * 2 ^ 22 + uint nd * 2 ^ 12 + uint sq"

definition snow_ok :: "snowflake \<Rightarrow> bool" where
  "snow_ok s \<longleftrightarrow> uint (node s) < 2 ^ 10 \<and> uint (seq s) < 2 ^ 12 \<and> (lastMS s = 0 \<or> in_window (lastMS s))"

definition snow_last :: "snowflake \<Rightarrow> int" where
  "snow_last s = snow_val (lastMS s) (node s) (seq s)"

definition bit_char :: "bool \<Rightarrow> char" where
  "bit_char b = (if b then CHR ''1'' else CHR ''0'')"

section \<open>Lemmas\<close>

lemma newton_steps_error:
  "2 ^ k dvd 1 - a * x \<Longrightarrow> 2 ^ (k * 2 ^ i) dvd 1 - a * newton_steps i a x"
proof (induction i arbitrary: k x)
  case (Suc i)
  have "1 - a * (x * (2 - a * x)) = (1 - a * x) * (1 - a * x)"
    by (simp add: algebra_simps)
  then have "2 ^ (k + k) dvd 1 - a * (x * (2 - a * x))"
    using Suc.prems by (simp add: power_add mult_dvd_mono)
  from Suc.IH [OF this] show ?case by (simp add: algebra_simps mult_2)
qed simp

lemma odd_square_error:
  fixes a :: u64
  assumes "odd a"
  shows "2 ^ 3 dvd 1 - a * a"
proof -
  from assms obtain b where a: "a = 2 * b + 1" by (auto elim: oddE)
  have "2 * (2 * 2) dvd b * (b + 1) * (2 * 2)"
    by (rule mult_dvd_mono) auto
  moreover have "1 - a * a = - (b * (b + 1) * (2 * 2))"
    by (simp add: a algebra_simps)
  ultimately show ?thesis by (simp add: power3_eq_cube)
qed

lemma invMod2n_inverse:
  assumes "odd a"
  shows "a * invMod2n a = 1"
proof -
  have "2 ^ (3 * 2 ^ 6) dvd 1 - a * invMod2n a"
    unfolding invMod2n_def using odd_square_error [OF assms] by (rule newton_steps_error)
  moreover have "(2 :: u64) ^ (3 * 2 ^ 6) = 0" by simp
  ultimately have "1 - a * invMod2n a = 0" by (simp only: dvd_0_left_iff)
  then show ?thesis by simp
qed

lemma length_b62alphabet [simp]: "length b62alphabet = 62"
  by (simp add: b62alphabet_def)

lemma distinct_b62alphabet: "distinct b62alphabet"
  by (simp add: b62alphabet_def)

lemma b62_index_nth: "i < 62 \<Longrightarrow> b62_index (b62alphabet ! i) = i"
  by (simp add: b62_index_def length_takeWhile_nth distinct_b62alphabet)

lemma b62value_digit: "i < 62 \<Longrightarrow> b62value ! of_char (b62alphabet ! i) = of_nat i"
  unfolding b62value_def
  by (rule table_inside [where f = "\<lambda>i. of_char (b62alphabet ! i)"])
    (auto simp: inj_on_def of_char_less_256 nth_eq_iff_index_eq distinct_b62alphabet)

lemma b62value_other: "c \<notin> set b62alphabet \<Longrightarrow> b62value ! of_char c = - 1"
  unfolding b62value_def
  by (subst table_outside) (auto simp: of_char_less_256 in_set_conv_nth image_iff)

lemma b62_index_less: "c \<in> set b62alphabet \<Longrightarrow> b62_index c < 62"
  by (metis b62_index_nth in_set_conv_nth length_b62alphabet)

lemma b62value_index: "c \<in> set b62alphabet \<Longrightarrow> b62value ! of_char c = of_nat (b62_index c)"
  by (metis b62_index_nth b62value_digit in_set_conv_nth length_b62alphabet)

lemma sint_small_u8: "i < 62 \<Longrightarrow> sint (of_nat i :: u8) = int i"
  by (simp add: signed_of_nat signed_take_bit_int_eq_self)

lemma b62value_sign: "b62value ! of_char c <s 0 \<longleftrightarrow> c \<notin> set b62alphabet"
proof (cases "c \<in> set b62alphabet")
  case True
  then show ?thesis using b62_index_less [OF True]
    by (simp add: b62value_index word_sless_alt sint_small_u8)
qed (simp add: b62value_other word_sless_alt)

lemma scast_b62value:
  assumes "c \<in> set b62alphabet"
  shows "uint (scast (b62value ! of_char c) :: u64) = int (b62_index c)"
  using b62_index_less [OF assms]
  by (simp add: b62value_index [OF assms] scast_eq sint_small_u8 uint_word_of_int_eq unsigned_of_nat take_bit_nat_eq_self take_bit_int_eq_self)

lemma b62_val_ge: "v \<le> b62_val v s"
proof (induction s arbitrary: v)
  case (Cons c s)
  show ?case using Cons.IH [of "62 * v + b62_index c"] by simp
qed simp

lemma high_word_zero:
  fixes x :: int
  assumes "0 \<le> x" "x < 18446744073709551616"
  shows "x * 62 div 18446744073709551616 mod 18446744073709551616 = 0 \<longleftrightarrow> x * 62 < 18446744073709551616"
proof -
  define q where "q = x * 62 div 18446744073709551616"
  define r where "r = x * 62 mod 18446744073709551616"
  have r: "0 \<le> r" "r < 18446744073709551616" by (simp_all add: r_def)
  have e: "x * 62 = q * 18446744073709551616 + r" unfolding q_def r_def by (rule div_mult_mod_eq [symmetric])
  have "0 \<le> q" "q < 62" using assms r e by linarith+
  then have "q mod 18446744073709551616 = q" by simp
  moreover have "q = 0 \<longleftrightarrow> x * 62 < 18446744073709551616" using assms r e by linarith
  ultimately show ?thesis by (simp add: q_def)
qed

lemma mul64_add64_step:
  fixes n d :: u64
  assumes d: "uint d < 62"
  shows "fst (mul64 n 62) \<noteq> 0 \<or> snd (add64 (snd (mul64 n 62)) d 0) \<noteq> 0
      \<longleftrightarrow> 2 ^ 64 \<le> 62 * uint n + uint d"
    and "62 * uint n + uint d < 2 ^ 64 \<Longrightarrow>
      uint (fst (add64 (snd (mul64 n 62)) d 0)) = 62 * uint n + uint d"
proof -
  have n: "uint n < 2 ^ 64" using uint_bounded [of n] by simp
  have hi: "fst (mul64 n 62) = 0 \<longleftrightarrow> uint n * 62 < 2 ^ 64"
    using high_word_zero [of "uint n"] n by (simp add: mul64_def word_uint_eq_iff uint_word_of_int)
  have lo: "uint (snd (mul64 n 62)) = uint n * 62 mod 2 ^ 64"
    by (simp add: mul64_def uint_word_ariths)
  show "fst (mul64 n 62) \<noteq> 0 \<or> snd (add64 (snd (mul64 n 62)) d 0) \<noteq> 0
      \<longleftrightarrow> 2 ^ 64 \<le> 62 * uint n + uint d"
  proof (cases "uint n * 62 < 2 ^ 64")
    case True
    then have "uint (snd (mul64 n 62)) = uint n * 62" using lo by simp
    with True hi show ?thesis by (auto simp: add64_def)
  next
    case False
    with hi uint_ge_0 [of d] show ?thesis by linarith
  qed
  show "uint (fst (add64 (snd (mul64 n 62)) d 0)) = 62 * uint n + uint d"
    if "62 * uint n + uint d < 2 ^ 64"
  proof -
    have "uint n * 62 < 18446744073709551616" using that [simplified] uint_ge_0 [of d] by linarith
    then have "uint (snd (mul64 n 62)) = uint n * 62" using lo by simp
    with that show ?thesis by (simp add: add64_def uint_word_ariths)
  qed
qed

lemma base62_scan_Cons:
  assumes "c \<in> set b62alphabet"
  obtains m where "base62_scan (c # s) n =
      (if 62 * unat n + b62_index c < 2 ^ 64 then base62_scan s m else Inl Base62_overflow)"
    and "62 * unat n + b62_index c < 2 ^ 64 \<Longrightarrow> unat m = 62 * unat n + b62_index c"
proof
  let ?d = "scast (b62value ! of_char c) :: u64"
  let ?m = "fst (add64 (snd (mul64 n 62)) ?d 0)"
  note d = scast_b62value [OF assms]
  have "uint ?d < 62" using b62_index_less [OF assms] d by simp
  note st = mul64_add64_step [OF this, of n, unfolded d]
  have v: "62 * uint n + int (b62_index c) = int (62 * unat n + b62_index c)" by simp
  show "unat ?m = 62 * unat n + b62_index c" if "62 * unat n + b62_index c < 2 ^ 64"
    using st(2) that v by (metis nat_int of_nat_less_numeral_power_cancel_iff unat_eq_nat_uint)
  have "base62_scan (c # s) n = (if fst (mul64 n 62) \<noteq> 0 \<or> snd (add64 (snd (mul64 n 62)) ?d 0) \<noteq> 0
      then Inl Base62_overflow else base62_scan s ?m)"
    using assms by (simp only: base62_scan.simps Let_def split_beta b62value_sign not_not not_True_eq_False if_False)
  also have "\<dots> = (if 62 * unat n + b62_index c < 2 ^ 64 then base62_scan s ?m else Inl Base62_overflow)"
    unfolding st(1) v by (rule if_flip) (simp only: not_less numeral_power_le_of_nat_cancel_iff)
  finally show "base62_scan (c # s) n = \<dots>" .
qed

lemma base62_scan_iff:
  "base62_scan s n = Inr r \<longleftrightarrow>
     set s \<subseteq> set b62alphabet \<and> b62_val (unat n) s < 2 ^ 64 \<and> unat r = b62_val (unat n) s"
proof (induction s arbitrary: n)
  case Nil
  have "n = r \<longleftrightarrow> unat r = unat n" by (metis unsigned_word_eqI)
  then show ?case using unat64_less [of n] by simp
next
  case (Cons c s)
  show ?case
  proof (cases "c \<in> set b62alphabet")
    case True
    let ?v = "62 * unat n + b62_index c"
    obtain m where m: "base62_scan (c # s) n = (if ?v < 2 ^ 64 then base62_scan s m else Inl Base62_overflow)"
      "?v < 2 ^ 64 \<Longrightarrow> unat m = ?v"
      using base62_scan_Cons [OF True] by blast
    have "\<not> ?v < 2 ^ 64 \<Longrightarrow> \<not> b62_val ?v s < 2 ^ 64" using b62_val_ge [of ?v s] by linarith
    with m True Cons.IH [of m] show ?thesis by (simp del: base62_scan.simps)
  qed (simp add: b62value_sign)
qed


lemma base62Decode_iff:
  "base62Decode s = Inr n \<longleftrightarrow>
     s \<noteq> [] \<and> length s \<le> 11 \<and> set s \<subseteq> set b62alphabet \<and> b62_val 0 s < 2 ^ 64 \<and> unat n = b62_val 0 s"
  by (auto simp: base62Decode_def codeLen_def base62_scan_iff)

lemma base62_scan_overflow:
  "set s \<subseteq> set b62alphabet \<Longrightarrow> 2 ^ 64 \<le> b62_val (unat n) s \<Longrightarrow> base62_scan s n = Inl Base62_overflow"
proof (induction s arbitrary: n)
  case Nil
  then show ?case using unat64_less [of n] by simp
next
  case (Cons c s)
  then obtain m where "base62_scan (c # s) n =
      (if 62 * unat n + b62_index c < 2 ^ 64 then base62_scan s m else Inl Base62_overflow)"
    "62 * unat n + b62_index c < 2 ^ 64 \<Longrightarrow> unat m = 62 * unat n + b62_index c"
    using base62_scan_Cons [of c s n] by auto
  with Cons show ?case by (simp del: base62_scan.simps)
qed

text \<open>Ten digits never overflow, so in a string of at most eleven bytes a foreign
  character is always the first error.\<close>

lemma base62_scan_invalid:
  "\<not> set s \<subseteq> set b62alphabet \<Longrightarrow> (unat n + 1) * 62 ^ (length s - 1) \<le> 2 ^ 64 \<Longrightarrow>
     base62_scan s n = Inl Invalid_base62_char"
proof (induction s arbitrary: n)
  case (Cons c s)
  show ?case
  proof (cases "c \<in> set b62alphabet")
    case True
    let ?v = "62 * unat n + b62_index c"
    obtain m where m: "base62_scan (c # s) n =
        (if ?v < 2 ^ 64 then base62_scan s m else Inl Base62_overflow)"
      "?v < 2 ^ 64 \<Longrightarrow> unat m = ?v"
      using base62_scan_Cons [OF True, of s n] by auto
    from True Cons.prems obtain k where k: "length s = Suc k" by (cases s) auto
    have v: "?v + 1 \<le> 62 * (unat n + 1)" using b62_index_less [OF True] by simp
    then have "(?v + 1) * 62 ^ k \<le> 62 * (unat n + 1) * 62 ^ k" by (rule mult_right_mono) simp
    also have "\<dots> = (unat n + 1) * 62 ^ length s" by (simp add: k algebra_simps)
    finally have le: "(?v + 1) * 62 ^ k \<le> 2 ^ 64" using Cons.prems(2) by simp
    have "?v + 1 = (?v + 1) * 1" by simp
    also have "\<dots> \<le> (?v + 1) * 62 ^ k" by (rule mult_left_mono) simp_all
    also note le
    finally have "?v + 1 \<le> 2 ^ 64" .
    then have "?v < 2 ^ 64" by simp
    with m le k True Cons show ?thesis by (simp del: base62_scan.simps)
  qed (simp add: b62value_sign)
qed simp

lemma b62_digits_0 [simp]: "b62_digits 0 = []"
  by (simp add: b62_digits.simps)

lemma length_b62_digits: "n < 62 ^ k \<Longrightarrow> length (b62_digits n) \<le> k"
proof (induction k arbitrary: n)
  case (Suc k)
  then have "n div 62 < 62 ^ k" by (simp add: less_mult_imp_div_less)
  with Suc.IH show ?case by (subst b62_digits.simps) simp
qed simp

lemma set_b62_digits: "set (b62_digits n) \<subseteq> set b62alphabet"
proof (induction n rule: b62_digits.induct)
  case (1 n)
  then show ?case by (subst b62_digits.simps) (auto intro!: nth_mem)
qed

lemma b62_val_append: "b62_val v (s @ t) = b62_val (b62_val v s) t"
  by (induction s arbitrary: v) auto

lemma b62_val_digits: "b62_val 0 (b62_digits n) = n"
proof (induction n rule: b62_digits.induct)
  case (1 n)
  then show ?case by (subst b62_digits.simps) (simp add: b62_val_append b62_index_nth)
qed

lemma b62_val_zeros: "b62_val 0 (replicate k (CHR ''0'')) = 0"
proof -
  have "b62_index (CHR ''0'') = 0" by (simp add: b62_index_def b62alphabet_def)
  then show ?thesis by (induction k) auto
qed

lemma base62_digits_eq:
  "unat n < 62 ^ i \<Longrightarrow> i \<le> length buf \<Longrightarrow>
     base62_digits n i buf =
       (let ds = b62_digits (unat n)
        in Some (i - length ds, take (i - length ds) buf @ ds @ drop i buf))"
proof (induction i arbitrary: n buf)
  case 0
  then have "n = 0" by (simp add: unat_eq_zero)
  then show ?case by simp
next
  case (Suc i)
  show ?case
  proof (cases "n = 0")
    case False
    let ?m = "n div 62"
    have m: "unat ?m = unat n div 62" "unat (n mod 62) = unat n mod 62"
      by (simp_all add: unat_div unat_mod)
    then have lt: "unat ?m < 62 ^ i" using Suc.prems by (simp add: less_mult_imp_div_less)
    have nz: "unat n \<noteq> 0" using False by (simp add: unat_eq_zero)
    have len: "length (b62_digits (unat n div 62)) \<le> i" using lt m length_b62_digits by simp
    let ?b = "buf[i := b62alphabet ! (unat n mod 62)]"
    have d: "drop i ?b = b62alphabet ! (unat n mod 62) # drop (Suc i) buf"
      using Suc.prems by (simp add: Cons_nth_drop_Suc [symmetric] drop_update_cancel)
    show ?thesis using False Suc.prems Suc.IH [OF lt, of ?b] m nz len d
      by (simp add: b62_digits.simps [of "unat n"] Let_def)
  qed (simp add: Let_def)
qed

lemma base62Encode_eq:
  "base62Encode n pad =
     (let ds = b62_digits (unat n) in Some (replicate (pad - length ds) (CHR ''0'') @ ds))"
proof -
  have "unat n < 62 ^ 11" using unat64_less [of n] by simp
  then have "base62_digits n 11 (replicate 11 (char_of (0 :: nat))) =
      (let ds = b62_digits (unat n) in Some (11 - length ds, take (11 - length ds) (replicate 11 (char_of (0 :: nat))) @ ds))"
    by (simp add: base62_digits_eq Let_def)
  then show ?thesis by (simp add: base62Encode_def codeLen_def Let_def)
qed

lemma length_b62_fixed [simp]: "length (b62_fixed w n) = w"
  by (induction w arbitrary: n) auto

lemma b62alphabet_0: "b62alphabet ! 0 = CHR ''0''"
  by (simp add: b62alphabet_def)

lemma b62_fixed_zero: "b62_fixed w 0 = replicate w (CHR ''0'')"
  by (induction w) (simp_all add: replicate_append_same b62alphabet_0)

lemma b62_fixed_digits:
  "n < 62 ^ w \<Longrightarrow> replicate (w - length (b62_digits n)) (CHR ''0'') @ b62_digits n = b62_fixed w n"
proof (induction w arbitrary: n)
  case (Suc w)
  show ?case
  proof (cases "n = 0")
    case True
    then show ?thesis by (simp only: b62_fixed_zero) simp
  next
    case False
    have "n div 62 < 62 ^ w" using Suc.prems by (simp add: less_mult_imp_div_less)
    from Suc.IH [OF this] False show ?thesis by (simp add: b62_digits.simps [of n])
  qed
qed simp

lemma b62_fixed_val: "set s \<subseteq> set b62alphabet \<Longrightarrow> b62_fixed (length s) (b62_val 0 s) = s"
proof (induction s rule: rev_induct)
  case (snoc c s)
  then have i: "b62_index c < 62" by (simp add: b62_index_less)
  have "b62alphabet ! b62_index c = c"
    using snoc.prems by (metis append.right_neutral b62_index_nth in_set_conv_nth length_b62alphabet list.set_intros(1) set_append subsetD sup.cobounded2)
  with snoc i show ?case by (simp add: b62_val_append)
qed simp

lemma base62Encode_11: "base62Encode n 11 = Some (b62_fixed 11 (unat n))"
proof -
  have "unat n < 62 ^ 11" using unat64_less [of n] by simp
  then show ?thesis by (simp add: base62Encode_eq Let_def b62_fixed_digits)
qed

lemma b62_val_fixed: "n < 62 ^ w \<Longrightarrow> b62_val 0 (b62_fixed w n) = n"
  by (simp add: b62_fixed_digits [symmetric] b62_val_append b62_val_zeros b62_val_digits)

lemma set_b62_fixed: "set (b62_fixed w n) \<subseteq> set b62alphabet"
  by (induction w arbitrary: n) (auto intro!: nth_mem)

lemma base62_roundtrip: "base62Encode n 11 = Some s \<Longrightarrow> base62Decode s = Inr n"
proof -
  assume "base62Encode n 11 = Some s"
  then have s: "s = b62_fixed 11 (unat n)" by (simp add: base62Encode_11)
  have n: "unat n < 2 ^ 64" "unat n < 62 ^ 11" using unat64_less [of n] by simp_all
  have "length s = 11" "b62_val 0 s = unat n" "set s \<subseteq> set b62alphabet"
    using n by (simp_all add: s b62_val_fixed set_b62_fixed del: b62_fixed.simps)
  with n show ?thesis by (auto simp: base62Decode_iff)
qed

lemma odd_scrambleMult: "odd scrambleMult"
  by (simp add: scrambleMult_def)

lemma scrambleInv_inverse: "scrambleMult * scrambleInv = 1"
  unfolding scrambleInv_def by (rule invMod2n_inverse) (rule odd_scrambleMult)

lemma unscramble: "scramble i * scrambleInv = i"
  by (simp add: scramble_def mult.assoc scrambleInv_inverse)

lemma rescramble: "scramble (n * scrambleInv) = n"
  by (simp add: scramble_def mult.assoc mult.commute [of scrambleInv] scrambleInv_inverse)

lemma encodeCode_eq: "encodeCode i = Some (b62_fixed 11 (unat (scramble i)))"
  by (simp add: encodeCode_def codeLen_def base62Encode_11)

lemma decode_encode:
  "encodeCode i = Some c \<Longrightarrow> decodeCode c = (if i <s 0 then Inl Not_a_kortex_code else Inr i)"
  by (simp add: decodeCode_def encodeCode_def codeLen_def base62_roundtrip unscramble Let_def)

lemma encode_decode:
  assumes "decodeCode c = Inr i" "length c = 11"
  shows "encodeCode i = Some c"
proof -
  from assms obtain n where n: "base62Decode c = Inr n" "i = n * scrambleInv"
    by (auto simp: decodeCode_def Let_def split: sum.splits if_splits)
  then have "unat n = b62_val 0 c" "set c \<subseteq> set b62alphabet" by (auto simp: base62Decode_iff)
  with n assms b62_fixed_val [of c] show ?thesis by (simp add: encodeCode_eq rescramble del: b62_fixed.simps)
qed

interpretation b62: codec "\<lambda>n. base62Encode n codeLen" base62Decode "\<lambda>_. True"
  by unfold_locales (auto simp: codeLen_def base62Encode_11 intro: base62_roundtrip [unfolded base62Encode_11])

interpretation code: codec encodeCode decodeCode "\<lambda>i. \<not> i <s 0"
proof unfold_locales
  show "\<exists>y. encodeCode i = Some y" for i by (simp add: encodeCode_eq del: b62_fixed.simps)
  show "decodeCode c = Inr i" if "\<not> i <s 0" "encodeCode i = Some c" for i c
    using decode_encode [OF that(2)] that(1) by simp
qed

lemma sint_kortexEpoch [simp]: "sint kortexEpoch = 1735689600000"
  by (simp add: kortexEpoch_def)

lemma masks: "maxSeq = mask 12" "maxNodeID = mask 10"
  by (simp_all add: maxSeq_def maxNodeID_def seqBits_def nodeBits_def mask_eq_exp_minus_1)

lemma uint_since_epoch:
  assumes "in_window c"
  shows "uint (c - kortexEpoch) = sint c - 1735689600000"
proof -
  have "uint c = sint c" "uint kortexEpoch = 1735689600000"
    using assms by (simp_all add: in_window_def uint_of_sint kortexEpoch_def)
  then show ?thesis using assms by (simp add: in_window_def uint_sub_if')
qed

lemma uint_pack:
  fixes t nd sq :: u64
  assumes "uint t < 2 ^ 41" "uint nd < 2 ^ 10" "uint sq < 2 ^ 12"
  shows "uint (t * 2 ^ 22 + (nd * 2 ^ 12 + sq)) = uint t * 2 ^ 22 + (uint nd * 2 ^ 12 + uint sq)"
  using assms by (simp add: uint_word_ariths)

lemma compose_uint:
  assumes "in_window now" "uint nd < 2 ^ 10" "uint sq < 2 ^ 12"
  shows "uint (compose_id now nd sq) = snow_val now nd sq"
proof -
  let ?t = "now - kortexEpoch"
  have t: "uint ?t < 2 ^ 41" using assms(1) by (simp add: uint_since_epoch) (simp add: in_window_def)
  have d1: "push_bit 12 nd AND sq = 0"
    by (rule bit_word_eqI) (auto simp: bit_simps dest: high_bits_clear [OF assms(3)])
  have d2: "push_bit 22 ?t AND (push_bit 12 nd + sq) = 0"
    unfolding disjunctive_add_eq_or [OF d1]
    by (rule bit_word_eqI) (auto simp: bit_simps high_bits_clear [OF assms(3)] high_bits_clear [OF assms(2)])
  have "compose_id now nd sq = push_bit 22 ?t OR (push_bit 12 nd + sq)"
    by (simp add: compose_id_def nodeBits_def seqBits_def disjunctive_add_eq_or [OF d1])
  also have "\<dots> = push_bit 22 ?t + (push_bit 12 nd + sq)"
    by (rule disjunctive_add_eq_or [OF d2, symmetric])
  also have "\<dots> = ?t * 2 ^ 22 + (nd * 2 ^ 12 + sq)"
    by (simp add: push_bit_eq_mult)
  also have "uint \<dots> = uint ?t * 2 ^ 22 + (uint nd * 2 ^ 12 + uint sq)"
    using t assms(2,3) by (rule uint_pack)
  finally show ?thesis using assms(1) by (simp add: snow_val_def uint_since_epoch)
qed


lemma snow_val_bounds:
  assumes "in_window now" "uint nd < 2 ^ 10" "uint sq < 2 ^ 12"
  shows "0 \<le> snow_val now nd sq" "snow_val now nd sq < 2 ^ 63"
  using assms uint_ge_0 [of nd] uint_ge_0 [of sq] by (simp_all add: snow_val_def in_window_def)

lemma compose_sint:
  assumes "in_window now" "uint nd < 2 ^ 10" "uint sq < 2 ^ 12"
  shows "sint (compose_id now nd sq) = snow_val now nd sq"
  using compose_uint [OF assms] snow_val_bounds [OF assms] by (simp add: sint_of_uint)

lemma wait_next_ms_later:
  "wait_next_ms now ms cs = Some (now', cs') \<Longrightarrow>
     sint ms < sint now' \<and> (now' = now \<or> now' \<in> set cs) \<and> set cs' \<subseteq> set cs"
  by (induction now ms cs rule: wait_next_ms.induct)
    (auto simp: word_sle_eq split: if_splits)

lemma wait_next_ms_done: "sint ms < sint now \<Longrightarrow> wait_next_ms now ms cs = Some (now, cs)"
  by (cases cs) (auto simp: word_sle_eq)

lemma wait_next_ms_returns:
  "\<exists>c\<in>set cs. sint ms < sint c \<Longrightarrow> \<exists>r. wait_next_ms now ms cs = Some r"
  by (induction now ms cs rule: wait_next_ms.induct) (auto simp: word_sle_eq wait_next_ms_done)

lemma next_seq:
  assumes "uint sq < 2 ^ 12"
  shows "uint ((sq + 1) AND maxSeq) = (uint sq + 1) mod 2 ^ 12"
proof -
  have "uint (sq + 1) = uint sq + 1" using assms by (simp add: uint_word_ariths)
  then show ?thesis by (simp add: masks uint_mod take_bit_eq_mod flip: take_bit_eq_mask)
qed

lemma Next_step:
  assumes n: "Next s clock = Some (i, s', clock')" and ok: "snow_ok s"
    and w: "\<forall>c\<in>set clock. in_window c"
  shows "node s' = node s \<and> i = compose_id (lastMS s') (node s') (seq s') \<and> in_window (lastMS s') \<and>
    uint (seq s') < 2 ^ 12 \<and> set clock' \<subseteq> set clock \<and>
    (sint (lastMS s) < sint (lastMS s') \<or> lastMS s' = lastMS s \<and> uint (seq s) < uint (seq s'))"
proof -
  from n obtain now0 cs where clock: "clock = now0 # cs" by (cases clock) (auto simp: Next_def)
  let ?now = "if now0 <s lastMS s then lastMS s else now0"
  have win: "in_window now0" using w clock by simp
  have last: "lastMS s = ?now \<Longrightarrow> in_window (lastMS s)"
    using ok win by (auto simp: snow_ok_def in_window_def word_sless_alt split: if_splits)
  have sq: "uint ((seq s + 1) AND maxSeq) = (uint (seq s) + 1) mod 2 ^ 12"
    using ok by (simp add: snow_ok_def next_seq)
  consider (same) "?now = lastMS s" "(seq s + 1) AND maxSeq \<noteq> 0"
    | (wait) "?now = lastMS s" "(seq s + 1) AND maxSeq = 0"
    | (new) "?now \<noteq> lastMS s" by blast
  then show ?thesis
  proof cases
    case same
    then have "lastMS s' = lastMS s" "seq s' = (seq s + 1) AND maxSeq" "node s' = node s"
      "i = compose_id (lastMS s') (node s') (seq s')" "clock' = cs"
      using n by (auto simp: Next_def clock Let_def split: if_splits)
    moreover have "uint ((seq s + 1) AND maxSeq) \<noteq> 0" using same(2) by (simp add: word_uint_eq_iff)
    then have "(uint (seq s) + 1) mod 2 ^ 12 = uint (seq s) + 1" using sq ok
      by (cases "uint (seq s) + 1 = 2 ^ 12") (auto simp: snow_ok_def)
    ultimately show ?thesis using sq last same clock ok by (auto simp: snow_ok_def)
  next
    case wait
    then obtain now' where "wait_next_ms (lastMS s) (lastMS s) cs = Some (now', clock')"
      "lastMS s' = now'" "seq s' = 0" "node s' = node s" "i = compose_id (lastMS s') (node s') (seq s')"
      using n by (auto simp: Next_def clock Let_def split: if_splits)
    moreover from wait_next_ms_later [OF this(1)] have "in_window now'" using w clock by auto
    ultimately show ?thesis using wait_next_ms_later clock by fastforce
  next
    case new
    then have "sint (lastMS s) \<le> sint now0 \<and> now0 \<noteq> lastMS s"
      by (auto simp: word_sless_alt split: if_splits)
    then have "sint (lastMS s) < sint now0" by (metis order_less_le signed_word_eqI)
    with new n win show ?thesis by (auto simp: Next_def clock Let_def split: if_splits)
  qed
qed

lemma snow_ok_Next:
  assumes "Next s clock = Some (i, s', clock')" "snow_ok s" "\<forall>c\<in>set clock. in_window c"
  shows "snow_ok s'"
  using Next_step [OF assms] assms(2) by (simp add: snow_ok_def)

lemma Next_val:
  assumes "Next s clock = Some (i, s', clock')" "snow_ok s" "\<forall>c\<in>set clock. in_window c"
  shows "sint i = snow_last s'"
  using Next_step [OF assms] assms(2) compose_sint [of "lastMS s'" "node s'" "seq s'"]
  by (simp add: snow_last_def snow_ok_def)

lemma Next_increases:
  assumes "Next s clock = Some (i, s', clock')" "snow_ok s" "\<forall>c\<in>set clock. in_window c"
  shows "snow_last s < snow_last s'"
proof -
  note st = Next_step [OF assms]
  have "uint (seq s) < 4096" using assms(2) by (simp add: snow_ok_def)
  then have b: "uint (seq s) < 4194304 + uint (seq s')" using uint_ge_0 [of "seq s'"] by linarith
  from st consider "sint (lastMS s) < sint (lastMS s')"
    | "lastMS s' = lastMS s" "uint (seq s) < uint (seq s')" by blast
  then show ?thesis
  proof cases
    case 1
    with b st show ?thesis unfolding snow_last_def snow_val_def by simp
  qed (use st in \<open>simp add: snow_last_def snow_val_def\<close>)
qed

lemma Next_returns:
  assumes "\<exists>c\<in>set (tl clock). sint (lastMS s) < sint c"
  shows "\<exists>r. Next s clock = Some r"
proof -
  obtain c0 cs where clock: "clock = c0 # cs" using assms by (cases clock) auto
  obtain r where "wait_next_ms (lastMS s) (lastMS s) cs = Some r"
    using wait_next_ms_returns assms clock by fastforce
  then show ?thesis by (auto simp: Next_def clock Let_def split: prod.splits)
qed


interpretation snow: increasing_source Next sint snow_last snow_ok in_window
  by unfold_locales (use Next_step in \<open>blast intro: snow_ok_Next Next_val Next_increases\<close>)+

lemma snow_ok_New: "snow_ok (NewSnowflake n)"
  by (simp add: snow_ok_def NewSnowflake_def masks and_mask_uint)

lemma unpack:
  fixes t n s :: int
  assumes n: "0 \<le> n" "n < 2 ^ 10" and s: "0 \<le> s" "s < 2 ^ 12"
  shows "(t * 2 ^ 22 + n * 2 ^ 12 + s) div 2 ^ 22 = t"
    and "(t * 2 ^ 22 + n * 2 ^ 12 + s) div 2 ^ 12 mod 2 ^ 10 = n"
    and "(t * 2 ^ 22 + n * 2 ^ 12 + s) mod 2 ^ 12 = s"
proof -
  have a: "0 \<le> n * 2 ^ 12 + s" "n * 2 ^ 12 + s < 2 ^ 22" using n s by auto
  have "t * 2 ^ 22 + n * 2 ^ 12 + s = (n * 2 ^ 12 + s) + t * 2 ^ 22" by simp
  then show "(t * 2 ^ 22 + n * 2 ^ 12 + s) div 2 ^ 22 = t"
    using a div_mult_self1 [of "2 ^ 22 :: int" "n * 2 ^ 12 + s" t] by (simp add: div_pos_pos_trivial)
  have e: "t * 2 ^ 22 + n * 2 ^ 12 + s = s + (t * 2 ^ 10 + n) * 2 ^ 12" by simp
  show "(t * 2 ^ 22 + n * 2 ^ 12 + s) mod 2 ^ 12 = s"
    unfolding e mod_mult_self1 using s by simp
  have "(t * 2 ^ 22 + n * 2 ^ 12 + s) div 2 ^ 12 = t * 2 ^ 10 + n"
    using s e div_mult_self1 [of "2 ^ 12 :: int" s "t * 2 ^ 10 + n"] by (simp add: div_pos_pos_trivial)
  then show "(t * 2 ^ 22 + n * 2 ^ 12 + s) div 2 ^ 12 mod 2 ^ 10 = n"
    using n by simp
qed

lemma explode_compose:
  assumes w: "in_window now" "uint nd < 2 ^ 10" "uint sq < 2 ^ 12"
  shows "TimestampMS (explodeID (compose_id now nd sq)) = now
     \<and> Node (explodeID (compose_id now nd sq)) = nd \<and> Sequence (explodeID (compose_id now nd sq)) = sq"
proof -
  let ?i = "compose_id now nd sq"
  have v: "sint ?i = snow_val now nd sq" "uint ?i = snow_val now nd sq"
    using compose_sint [OF w] compose_uint [OF w] by auto
  have p: "0 \<le> snow_val now nd sq" using snow_val_bounds [OF w] by simp
  note un = unpack [OF uint_ge_0 w(2) uint_ge_0 w(3), of "sint now - sint kortexEpoch", folded snow_val_def]
  have "sint (signed_drop_bit 22 ?i) = sint now - sint kortexEpoch"
    by (simp only: shift_down_sint v un)
  also have "\<dots> = sint (now - kortexEpoch)"
    using uint_since_epoch [OF w(1)] w(1) by (subst sint_of_uint) (auto simp: in_window_def)
  finally have t: "signed_drop_bit 22 ?i = now - kortexEpoch" by (rule signed_word_eqI)
  have s: "?i AND maxSeq = sq"
    by (simp only: word_uint_eq_iff masks and_mask_uint v un)
  have "uint (signed_drop_bit 12 ?i) = snow_val now nd sq div 2 ^ 12"
    using p by (subst uint_of_sint) (simp_all only: shift_down_sint v pos_imp_zdiv_nonneg_iff zero_less_power zero_less_numeral)
  then have n: "signed_drop_bit 12 ?i AND maxNodeID = nd"
    by (simp only: word_uint_eq_iff masks and_mask_uint un)
  show ?thesis using t s n by (simp add: explodeID_def Let_def nodeBits_def seqBits_def)
qed

lemma binaryString_bits:
  "w \<le> 64 \<Longrightarrow> binaryString v w = map (\<lambda>j. bit_char (bit v j)) (rev [0..<w])"
proof (induction w arbitrary: v)
  case (Suc w)
  have "map (\<lambda>j. bit_char (bit (signed_drop_bit 1 v) j)) (rev [0..<w]) =
      map (\<lambda>j. bit_char (bit v (Suc j))) (rev [0..<w])"
    using Suc.prems by (intro map_cong) (auto simp: bit_signed_drop_bit_iff)
  moreover have "rev [0..<Suc w] = map Suc (rev [0..<w]) @ [0]"
    by (metis map_Suc_upt rev.simps(2) rev_map upt_rec zero_less_Suc)
  moreover have "v AND 1 = 1 \<longleftrightarrow> bit v 0"
    by (metis and_one_eq bit_0 even_iff_mod_2_eq_zero odd_iff_mod_2_eq_one)
  ultimately show ?case using Suc by (simp add: bit_char_def del: upt_Suc)
qed simp

lemma rev_upt_shift: "rev [k..<w + k] = map (\<lambda>j. j + k) (rev [0..<w])"
  by (simp add: map_add_upt flip: rev_map)

lemma Binary_bits:
  assumes "\<not> i <s 0"
  shows "Binary (explodeID i) = map (\<lambda>j. bit_char (bit i j)) (rev [0..<64])"
proof -
  let ?b = "\<lambda>j. bit_char (bit i j)"
  have top: "\<not> bit i 63"
    using assms bit_last_iff [of i] by (simp add: word_sless_alt)
  have t: "binaryString (signed_drop_bit 22 i) 41 = map ?b (rev [22..<63])"
    using rev_upt_shift [of 22 41]
    by (simp add: binaryString_bits bit_signed_drop_bit_iff comp_def add.commute del: upt_rec_numeral)
  have n: "binaryString (signed_drop_bit 12 i AND mask 10) 10 = map ?b (rev [12..<22])"
    using rev_upt_shift [of 12 10]
    by (simp add: binaryString_bits bit_signed_drop_bit_iff comp_def add.commute bit_simps del: upt_rec_numeral)
  have s: "binaryString (i AND mask 12) 12 = map ?b (rev [0..<12])"
    by (simp add: binaryString_bits bit_simps del: upt_rec_numeral)
  have "[0..<64] = [0..<12] @ [12..<22] @ [22..<63] @ [63]" by code_simp
  then have "map ?b (rev [0..<64]) = ''0'' @ map ?b (rev [22..<63]) @ map ?b (rev [12..<22]) @ map ?b (rev [0..<12])"
    using top by (simp add: bit_char_def del: upt_rec_numeral)
  then show ?thesis
    using t n s by (simp add: explodeID_def Let_def nodeBits_def seqBits_def timeBits_def masks del: upt_rec_numeral)
qed

section \<open>Properties\<close>

text \<open>Six Newton steps invert every odd number modulo \<open>2 ^ 64\<close>.\<close>

theorem invMod2n_correct:
  assumes "odd a"
  shows "a * invMod2n a = 1"
  using assms by (rule invMod2n_inverse)

theorem invMod2n_correct_witness: "odd (7 :: u64) \<and> 7 * invMod2n 7 = 1"
  using invMod2n_correct [of 7] by simp

text \<open>C15: encoding never runs out of its buffer and gives 11 alphabet characters; decoding
  them gives the identifier back, and is refused exactly for the identifiers with the
  sign bit set.\<close>

theorem code_roundtrip:
  "\<exists>c. encodeCode i = Some c \<and> length c = 11 \<and> set c \<subseteq> set b62alphabet
     \<and> decodeCode c = (if i <s 0 then Inl Not_a_kortex_code else Inr i)"
  using decode_encode [OF encodeCode_eq] set_b62_fixed [of 11] length_b62_fixed [of 11] encodeCode_eq [of i]
  by blast

text \<open>An 11-character code that decodes is the code of the identifier it decodes to, so
  two different codes never name the same identifier.\<close>

theorem code_canonical:
  assumes "decodeCode c = Inr i" "length c = 11"
  shows "encodeCode i = Some c \<and> \<not> i <s 0"
  using encode_decode [OF assms] assms(1) decode_encode by (auto split: if_splits)

theorem code_canonical_witness:
  "decodeCode ''7RFIKIp4ur3'' = Inr 12345 \<and> encodeCode 12345 = Some ''7RFIKIp4ur3''"
proof -
  have "encodeCode 12345 = Some ''7RFIKIp4ur3''" by code_simp
  from decode_encode [OF this] have d: "decodeCode ''7RFIKIp4ur3'' = Inr 12345"
    by (simp add: word_sless_alt)
  show ?thesis using d code_canonical [OF d] by simp
qed

text \<open>What \<^verbatim>\<open>base62Decode\<close> answers for every string: the empty string and strings longer
  than 11 bytes are refused, then foreign characters, then values that do not fit
  into 64 bits; otherwise the value.\<close>

theorem base62Decode_spec:
  "base62Decode s =
     (if s = [] then Inl Empty_base62
      else if 11 < length s then Inl Base62_overflow
      else if \<not> set s \<subseteq> set b62alphabet then Inl Invalid_base62_char
      else if 2 ^ 64 \<le> b62_val 0 s then Inl Base62_overflow
      else Inr (of_nat (b62_val 0 s)))"
proof -
  have inv: "base62_scan s 0 = Inl Invalid_base62_char"
    if "\<not> set s \<subseteq> set b62alphabet" "\<not> 11 < length s"
  proof (rule base62_scan_invalid [OF that(1)])
    have "62 ^ (length s - 1) \<le> (62 :: nat) ^ 10" using that(2) by (intro power_increasing) auto
    then show "(unat (0 :: u64) + 1) * 62 ^ (length s - 1) \<le> 2 ^ 64" by simp
  qed
  have val: "base62_scan s 0 = Inr (of_nat (b62_val 0 s))"
    if "set s \<subseteq> set b62alphabet" "\<not> 2 ^ 64 \<le> b62_val 0 s"
    using that unat_of_nat64 [of "b62_val 0 s"] by (simp add: base62_scan_iff not_le)
  show ?thesis
    using inv val base62_scan_overflow [of s 0] by (simp add: base62Decode_def codeLen_def)
qed

text \<open>C6: the identifiers that one generator issues are strictly increasing, hence distinct,
  and never negative, however the clock jumps within the 41-bit window.\<close>

theorem Next_unique:
  assumes "next_many n (NewSnowflake nd) clock = Some (ids, s', clock')"
    and "\<forall>c\<in>set clock. in_window c"
  shows "length ids = n \<and> sorted_wrt (<) (map sint ids) \<and> distinct ids"
  using snow.run_increases [OF assms(1) [unfolded next_many_def] snow_ok_New assms(2)]
    snow.run_distinct [OF assms(1) [unfolded next_many_def] snow_ok_New assms(2)] by simp

theorem Next_unique_witness:
  "next_many 3 (NewSnowflake 1) [1735689600005, 1735689600003, 1735689600009] =
     Some ([20975616, 20975617, 37752832],
       \<lparr>node = 1, lastMS = 1735689600009, seq = 0, Issued = 3, SeqExhausted = 0, ClockBackwards = 1\<rparr>, [])
   \<and> distinct [20975616 :: i64, 20975617, 37752832]"
proof -
  have n: "next_many 3 (NewSnowflake 1) [1735689600005, 1735689600003, 1735689600009] =
     Some ([20975616, 20975617, 37752832],
       \<lparr>node = 1, lastMS = 1735689600009, seq = 0, Issued = 3, SeqExhausted = 0, ClockBackwards = 1\<rparr>, [])"
    by code_simp
  have "\<forall>c\<in>set [1735689600005, 1735689600003, 1735689600009]. in_window c"
    by (simp add: in_window_def)
  with n Next_unique [OF n] show ?thesis by blast
qed

text \<open>Generators with different node numbers never issue the same identifier.\<close>

theorem Next_nodes_disjoint:
  assumes "Next s clock = Some (i, s1, clock1)" "snow_ok s" "\<forall>c\<in>set clock. in_window c"
    and "Next t clock' = Some (j, t1, clock1')" "snow_ok t" "\<forall>c\<in>set clock'. in_window c"
    and "node s \<noteq> node t"
  shows "i \<noteq> j"
proof
  assume "i = j"
  note st = Next_step [OF assms(1-3)] Next_step [OF assms(4-6)]
  have "Node (explodeID i) = node s" "Node (explodeID j) = node t"
    using st assms(2,5) explode_compose [of "lastMS s1" "node s1" "seq s1"]
      explode_compose [of "lastMS t1" "node t1" "seq t1"] by (simp_all add: snow_ok_def)
  with \<open>i = j\<close> assms(7) show False by simp
qed

theorem Next_nodes_disjoint_witness:
  "\<exists>i s1 j t1. Next (NewSnowflake 1) [1735689600005] = Some (i, s1, [])
     \<and> Next (NewSnowflake 2) [1735689600005] = Some (j, t1, []) \<and> i \<noteq> j"
proof -
  have a: "Next (NewSnowflake 1) [1735689600005] = Some (20975616,
      \<lparr>node = 1, lastMS = 1735689600005, seq = 0, Issued = 1, SeqExhausted = 0, ClockBackwards = 0\<rparr>, [])"
    by code_simp
  have b: "Next (NewSnowflake 2) [1735689600005] = Some (20979712,
      \<lparr>node = 2, lastMS = 1735689600005, seq = 0, Issued = 1, SeqExhausted = 0, ClockBackwards = 0\<rparr>, [])"
    by code_simp
  have w: "\<forall>c\<in>set [1735689600005]. in_window c" by (simp add: in_window_def)
  have "node (NewSnowflake 1) \<noteq> node (NewSnowflake 2)" by code_simp
  from Next_nodes_disjoint [OF a snow_ok_New w b snow_ok_New w this] a b show ?thesis by blast
qed

text \<open>C37: \<^verbatim>\<open>Next\<close> does not wait forever: it returns as soon as the clock shows a later
  millisecond than the last one used, however many readings repeat or go back
  before that.\<close>

theorem Next_live:
  assumes "\<exists>c\<in>set (tl clock). sint (lastMS s) < sint c"
  shows "\<exists>r. Next s clock = Some r"
  using assms by (rule Next_returns)

theorem Next_live_witness:
  "\<exists>r. Next (NewSnowflake 1 \<lparr>lastMS := 7, seq := 4095\<rparr>) [7, 6, 7, 8] = Some r"
  by (rule Next_live) (simp add: NewSnowflake_def)

text \<open>Taking an identifier apart gives back the timestamp, node and sequence it was
  composed from, and \<^verbatim>\<open>Binary\<close> shows its 64 bits.\<close>

theorem explodeID_Next:
  assumes "Next s clock = Some (i, s', clock')" "snow_ok s" "\<forall>c\<in>set clock. in_window c"
  shows "TimestampMS (explodeID i) = lastMS s' \<and> Node (explodeID i) = node s \<and> Sequence (explodeID i) = seq s'
    \<and> Binary (explodeID i) = map (\<lambda>j. bit_char (bit i j)) (rev [0..<64])"
proof -
  note st = Next_step [OF assms]
  have ok: "uint (node s') < 2 ^ 10" "uint (seq s') < 2 ^ 12" "in_window (lastMS s')"
    using st assms(2) by (simp_all add: snow_ok_def)
  have "0 \<le> sint i" using st compose_sint [OF ok(3,1,2)] snow_val_bounds [OF ok(3,1,2)] by simp
  then have "\<not> i <s 0" by (simp add: word_sless_alt)
  then show ?thesis using st explode_compose [OF ok(3,1,2)] by (simp add: Binary_bits del: upt_rec_numeral)
qed

theorem explodeID_Next_witness:
  "TimestampMS (explodeID 20975616) = 1735689600005 \<and> Node (explodeID 20975616) = 1"
proof -
  have a: "Next (NewSnowflake 1) [1735689600005] = Some (20975616,
      \<lparr>node = 1, lastMS = 1735689600005, seq = 0, Issued = 1, SeqExhausted = 0, ClockBackwards = 0\<rparr>, [])"
    by code_simp
  have "\<forall>c\<in>set [1735689600005]. in_window c" by (simp add: in_window_def)
  from explodeID_Next [OF a snow_ok_New this] show ?thesis
    by (simp add: NewSnowflake_def masks mask_eq_exp_minus_1 del: upt_rec_numeral)
qed

end
