(* ===== verification/Validate.thy ===== *)
theory Validate
  imports Gostr Idgen
begin

text \<open>
  \<^verbatim>\<open>backend/validate.go\<close>: the input rules for codes, aliases and destination URLs.  The two
  regular expressions are anchored and unambiguous, and are written as the scanners
  they denote.  \<^verbatim>\<open>net/url\<close> is an argument (\<open>url_api\<close>): parsing, printing and the fields of
  a parsed URL.
\<close>

section \<open>Codes and aliases\<close>

definition aliasAlphabet :: string where
  "aliasAlphabet = ''abcdefghijklmnopqrstuvwxyzABCDEFGHIJKLMNOPQRSTUVWXYZ0123456789-_''"

definition aliasChars :: "bool list" where
  "aliasChars = fold (\<lambda>c t. t[of_char c := True]) aliasAlphabet (replicate 256 False)"

fun onlyAliasChars :: "string \<Rightarrow> bool" where
  "onlyAliasChars [] = True"
| "onlyAliasChars (c # cs) = (if \<not> aliasChars ! of_char c then False else onlyAliasChars cs)"

definition validAlias :: "string \<Rightarrow> bool" where
  "validAlias s \<longleftrightarrow> length s \<ge> 3 \<and> length s \<le> 32 \<and> onlyAliasChars s"

definition codeShape :: "string \<Rightarrow> bool" where
  "codeShape s \<longleftrightarrow> length s \<ge> 1 \<and> length s \<le> 64 \<and> onlyAliasChars s"

definition spaRoutes :: "string list" where
  "spaRoutes = [[], ''login'', ''register'', ''app'', ''lab'', ''architecture'']"

definition reservedAliases :: "string list" where
  "reservedAliases =
     [''api'', ''app'', ''dashboard'', ''login'', ''register'', ''logout'',
      ''admin'', ''static'', ''assets'', ''lab'', ''bench'', ''docs'',
      ''architecture'', ''favicon'', ''manifest'', ''robots'', ''sitemap'',
      ''index'', ''health'', ''ops'', ''links'']"

definition benchAliasPrefix :: string where "benchAliasPrefix = ''bench-''"

definition isReservedAlias :: "(string \<Rightarrow> string) \<Rightarrow> string \<Rightarrow> bool" where
  "isReservedAlias uni alias =
     (let a = ToLower uni alias
      in List.member reservedAliases a \<or> HasPrefix a benchAliasPrefix)"

section \<open>Destination URLs\<close>

record 'u url_api =
  url_Parse :: "string \<Rightarrow> 'u option"
  url_Hostname :: "'u \<Rightarrow> string"
  url_hasUser :: "'u \<Rightarrow> bool"
  url_Scheme :: "'u \<Rightarrow> string"
  url_setScheme :: "string \<Rightarrow> 'u \<Rightarrow> 'u"
  url_String :: "'u \<Rightarrow> string"

definition maxURLLen :: nat where "maxURLLen = 2048"

definition scheme_char :: "char \<Rightarrow> bool" where
  "scheme_char c \<longleftrightarrow> is_letter c \<or> is_digit c \<or> c = CHR ''+'' \<or> c = CHR ''.'' \<or> c = CHR ''-''"

text \<open>What follows a leading \<^verbatim>\<open>[a-zA-Z][a-zA-Z0-9+.-]*\<close>, if there is one.\<close>

fun after_scheme :: "string \<Rightarrow> string option" where
  "after_scheme [] = None"
| "after_scheme (c # cs) = (if is_letter c then Some (dropWhile scheme_char cs) else None)"

definition hasSchemeRe :: "string \<Rightarrow> bool" where
  "hasSchemeRe s = (case after_scheme s of None \<Rightarrow> False | Some r \<Rightarrow> HasPrefix r ''://'')"

definition otherSchemeRe :: "string \<Rightarrow> bool" where
  "otherSchemeRe s =
     (case after_scheme s of
        Some (c # d # _) \<Rightarrow> c = CHR '':'' \<and> \<not> is_digit d
      | _ \<Rightarrow> False)"

definition validURL :: "'u url_api \<Rightarrow> (string \<Rightarrow> string) \<Rightarrow> string \<Rightarrow> string option" where
  "validURL U uni raw0 =
     (let raw1 = TrimSpace raw0
      in if raw1 = [] \<or> length raw1 > maxURLLen then None
         else if \<not> hasSchemeRe raw1 \<and> otherSchemeRe raw1 then None
         else let raw = (if \<not> hasSchemeRe raw1 then ''https://'' @ raw1 else raw1)
              in case url_Parse U raw of
                   None \<Rightarrow> None
                 | Some u \<Rightarrow>
                     if url_Hostname U u = [] \<or> url_hasUser U u then None
                     else let scheme = ToLower uni (url_Scheme U u);
                              u' = url_setScheme U scheme u
                          in if scheme \<noteq> ''http'' \<and> scheme \<noteq> ''https'' then None
                             else let out = url_String U u'
                                  in if length out > maxURLLen then None else Some out)"

definition hostOf :: "'u url_api \<Rightarrow> (string \<Rightarrow> string) \<Rightarrow> string \<Rightarrow> string" where
  "hostOf U uni raw =
     (case url_Parse U raw of
        None \<Rightarrow> raw
      | Some u \<Rightarrow> if url_Hostname U u = [] then raw else ToLower uni (url_Hostname U u))"

section \<open>Specification\<close>

definition scheme_word :: "string \<Rightarrow> bool" where
  "scheme_word s \<longleftrightarrow> s \<noteq> [] \<and> is_letter (hd s) \<and> list_all scheme_char s"

text \<open>Documented behaviour of \<^verbatim>\<open>url.Parse\<close>: a leading scheme is read up to the first colon and
  lower-cased.\<close>

definition url_reads_scheme :: "'u url_api \<Rightarrow> bool" where
  "url_reads_scheme U \<longleftrightarrow>
     (\<forall>sch rest u. scheme_word sch \<longrightarrow> url_Parse U (sch @ '':'' @ rest) = Some u \<longrightarrow>
        url_Scheme U u = map lower_char sch)"

section \<open>Lemmas\<close>

lemma aliasChars_iff: "aliasChars ! of_char c \<longleftrightarrow> c \<in> set aliasAlphabet"
proof -
  have *: "fold (\<lambda>c t. t[of_char c := True]) cs t ! of_char c \<longleftrightarrow> c \<in> set cs \<or> t ! of_char c"
    if "length t = 256" for cs and t :: "bool list"
    using that by (induction cs arbitrary: t) (auto simp: nth_list_update of_char_less_256)
  show ?thesis unfolding aliasChars_def by (subst *) (auto simp: of_char_less_256)
qed

lemma onlyAliasChars_iff: "onlyAliasChars s \<longleftrightarrow> set s \<subseteq> set aliasAlphabet"
  by (induction s) (auto simp: aliasChars_iff)

lemma alias_ascii: "onlyAliasChars s \<Longrightarrow> is_ascii s"
proof -
  assume "onlyAliasChars s"
  moreover have "\<forall>c\<in>set aliasAlphabet. (of_char c :: nat) < 128" by code_simp
  ultimately show ?thesis by (auto simp: onlyAliasChars_iff is_ascii_def list_all_iff)
qed

lemma code_shape_encode: "encodeCode i = Some code \<Longrightarrow> codeShape code"
proof -
  assume "encodeCode i = Some code"
  then have c: "code = b62_fixed 11 (unat (scramble i))" by (simp add: encodeCode_eq)
  have "set b62alphabet \<subseteq> set aliasAlphabet" by code_simp
  then have "onlyAliasChars code" using set_b62_fixed unfolding c onlyAliasChars_iff by blast
  moreover have "length code = 11" by (simp add: c)
  ultimately show ?thesis by (simp add: codeShape_def)
qed

lemma scheme_char_colon: "\<not> scheme_char (CHR '':'')"
  by code_simp

lemma after_scheme_word: "scheme_word sch \<Longrightarrow> after_scheme (sch @ '':'' @ rest) = Some ('':'' @ rest)"
  by (cases sch) (auto simp: scheme_word_def list_all_iff scheme_char_colon dropWhile_append2)

lemma validURL_cases:
  assumes "validURL U uni raw = Some out"
  defines "t \<equiv> TrimSpace raw"
  shows "\<exists>u. url_Parse U (if hasSchemeRe t then t else ''https://'' @ t) = Some u
    \<and> (hasSchemeRe t \<or> \<not> otherSchemeRe t)
    \<and> url_Hostname U u \<noteq> [] \<and> \<not> url_hasUser U u \<and> ToLower uni (url_Scheme U u) \<in> {''http'', ''https''}
    \<and> out = url_String U (url_setScheme U (ToLower uni (url_Scheme U u)) u) \<and> length out \<le> maxURLLen"
  using assms(1) unfolding validURL_def Let_def t_def [symmetric]
  by (auto split: if_splits option.splits)

lemma scheme_char_ascii: "scheme_char c \<Longrightarrow> (of_char c :: nat) < 128"
  by (auto simp: scheme_char_def is_letter_def is_lower_def is_upper_def is_digit_def less_eq_char_def)

lemma scheme_word_ascii: "scheme_word s \<Longrightarrow> is_ascii (map lower_char s)"
  by (rule lower_ascii) (auto simp: scheme_word_def is_ascii_def list_all_iff scheme_char_ascii)

lemma scheme_read:
  assumes law: "url_reads_scheme U"
    and out: "validURL U uni raw = Some out"
    and sch: "TrimSpace raw = sch @ '':'' @ rest" "scheme_word sch"
    and rest: "rest \<noteq> []" "\<not> is_digit (hd rest)"
  shows "map lower_char sch \<in> {''http'', ''https''}"
proof -
  let ?t = "TrimSpace raw"
  have a: "after_scheme ?t = Some ('':'' @ rest)" unfolding sch(1) by (rule after_scheme_word [OF sch(2)])
  have "otherSchemeRe ?t" using rest by (cases rest) (simp_all add: otherSchemeRe_def a)
  with validURL_cases [OF out] obtain u where u: "hasSchemeRe ?t" "url_Parse U ?t = Some u"
    "ToLower uni (url_Scheme U u) \<in> {''http'', ''https''}" by auto
  have "url_Scheme U u = map lower_char sch"
    using law u(2) sch unfolding url_reads_scheme_def by metis
  with u(3) scheme_word_ascii [OF sch(2)] show ?thesis by (simp add: ToLower_def comp_def)
qed

section \<open>Properties\<close>

text \<open>C28: every URL that \<^const>\<open>validURL\<close> accepts is the printed form of a parsed URL with a host, without
  credentials and with scheme http or https, at most 2048 bytes long; and when the trimmed
  input itself starts with a scheme word and a colon that is not followed by a digit (a port)
  or the end, then that scheme is http or https in some letter case: \<^verbatim>\<open>javascript:\<close>, \<^verbatim>\<open>data:\<close> and the
  like never pass.\<close>

theorem validURL_http_only:
  assumes "url_reads_scheme U" "validURL U uni raw = Some out"
  shows "(\<exists>u s. url_Parse U s = Some u \<and> url_Hostname U u \<noteq> [] \<and> \<not> url_hasUser U u
        \<and> ToLower uni (url_Scheme U u) \<in> {''http'', ''https''}
        \<and> out = url_String U (url_setScheme U (ToLower uni (url_Scheme U u)) u))
    \<and> length out \<le> 2048
    \<and> (\<forall>sch rest. TrimSpace raw = sch @ '':'' @ rest \<and> scheme_word sch \<and> rest \<noteq> [] \<and> \<not> is_digit (hd rest) \<longrightarrow>
         map lower_char sch \<in> {''http'', ''https''})"
  using validURL_cases [OF assms(2)] scheme_read [OF assms] unfolding maxURLLen_def by blast

definition demo_url :: "(string \<times> string) url_api" where
  "demo_url = \<lparr>url_Parse = (\<lambda>s. if scheme_word (takeWhile (\<lambda>c. c \<noteq> CHR '':'') s)
       then Some (map lower_char (takeWhile (\<lambda>c. c \<noteq> CHR '':'') s), dropWhile (\<lambda>c. c \<noteq> CHR '':'') s) else None),
     url_Hostname = snd, url_hasUser = (\<lambda>u. False), url_Scheme = fst,
     url_setScheme = (\<lambda>s u. (s, snd u)), url_String = (\<lambda>u. fst u @ snd u)\<rparr>"

lemma demo_url_reads_scheme: "url_reads_scheme demo_url"
proof -
  have "takeWhile (\<lambda>c. c \<noteq> CHR '':'') (sch @ '':'' @ rest) = sch" if "scheme_word sch" for sch rest
    using that scheme_char_colon by (auto simp: scheme_word_def list_all_iff takeWhile_append)
  then show ?thesis by (auto simp: url_reads_scheme_def demo_url_def)
qed

theorem validURL_http_only_witness:
  "url_reads_scheme demo_url \<and> validURL demo_url id '' HTTP://a.b '' = Some ''http://a.b''
   \<and> length ''http://a.b'' \<le> 2048"
proof -
  have v: "validURL demo_url id '' HTTP://a.b '' = Some ''http://a.b''" by code_simp
  from validURL_http_only [OF demo_url_reads_scheme v] v demo_url_reads_scheme show ?thesis by blast
qed

end
