(* ===== verification/Useragent.thy ===== *)
theory Useragent
  imports Validate Httputil
begin

text \<open>
  \<^verbatim>\<open>backend/useragent.go\<close>: from a redirect request to the analytics dimensions.  The
  GeoLite2 database and \<^verbatim>\<open>net.ParseIP\<close> are an argument (\<open>geo_reader\<close>).
\<close>

section \<open>User agents\<close>

definition botTokens :: "(string \<times> string) list" where
  "botTokens =
     [(''curl/'', ''curl''), (''wget/'', ''wget''), (''python-requests'', ''python-requests''), (''python-urllib'', ''python-urllib''),
      (''aiohttp'', ''aiohttp''), (''go-http-client'', ''Go-http-client''), (''k6/'', ''k6''), (''headlesschrome'', ''HeadlessChrome''),
      (''phantomjs'', ''PhantomJS''), (''okhttp'', ''okhttp''), (''axios/'', ''axios''), (''node-fetch'', ''node-fetch''),
      (''undici'', ''undici''), (''java/'', ''Java''), (''apache-httpclient'', ''Apache-HttpClient''), (''libwww-perl'', ''libwww-perl''),
      (''httpie'', ''HTTPie''), (''postman'', ''Postman''), (''insomnia'', ''Insomnia''), (''facebookexternalhit'', ''facebookexternalhit''),
      (''lighthouse'', ''Lighthouse''), (''bot'', ''bot''), (''crawler'', ''crawler''), (''spider'', ''spider''), (''slurp'', ''slurp'')]"

definition uaOS :: "string \<Rightarrow> string" where
  "uaOS l =
     (if Contains l ''windows phone'' then ''Windows Phone''
      else if Contains l ''ipad'' then ''iPadOS''
      else if Contains l ''iphone'' \<or> Contains l ''ipod'' then ''iOS''
      else if Contains l ''android'' then ''Android''
      else if Contains l ''cros'' then ''ChromeOS''
      else if Contains l ''windows'' then ''Windows''
      else if Contains l ''mac os x'' \<or> Contains l ''macintosh'' then ''macOS''
      else if Contains l ''linux'' \<or> Contains l ''x11'' then ''Linux''
      else ''unknown'')"

definition uaBrowser :: "string \<Rightarrow> string" where
  "uaBrowser l =
     (if Contains l ''edg/'' \<or> Contains l ''edga/'' \<or> Contains l ''edgios/'' then ''Edge''
      else if Contains l ''opr/'' \<or> Contains l ''opera'' \<or> Contains l ''opt/'' then ''Opera''
      else if Contains l ''samsungbrowser'' then ''Samsung Internet''
      else if Contains l ''firefox/'' \<or> Contains l ''fxios/'' then ''Firefox''
      else if Contains l ''crios/'' \<or> Contains l ''chrome/'' \<or> Contains l ''chromium/'' then ''Chrome''
      else if Contains l ''safari/'' \<and> Contains l ''version/'' then ''Safari''
      else ''other'')"

definition uaDevice :: "string \<Rightarrow> string \<Rightarrow> string \<Rightarrow> string" where
  "uaDevice l os browser =
     (if os = ''iPadOS'' \<or> Contains l ''tablet'' \<or> (os = ''Android'' \<and> \<not> Contains l ''mobile'') then ''tablet''
      else if os = ''iOS'' \<or> os = ''Windows Phone'' \<or> Contains l ''mobile'' then ''mobile''
      else if os = ''unknown'' \<and> browser = ''other'' then ''unknown''
      else ''desktop'')"

definition parseUA :: "(string \<Rightarrow> string) \<Rightarrow> string \<Rightarrow> string \<times> string \<times> string \<times> bool" where
  "parseUA uni ua =
     (let l = ToLower uni (TrimSpace ua)
      in if l = [] then (''unknown'', ''unknown'', ''unknown'', True)
         else let os = uaOS l
              in case find (\<lambda>(tok, name). Contains l tok) botTokens of
                   Some (tok, name) \<Rightarrow> (''bot'', name, os, True)
                 | None \<Rightarrow>
                     let browser = uaBrowser l;
                         device = uaDevice l os browser;
                         browser' = (if device \<noteq> ''desktop'' \<and> (browser = ''Chrome'' \<or> browser = ''Safari'')
                                     then browser @ '' Mobile'' else browser)
                     in (device, browser', os, False))"

section \<open>Enrichment\<close>

record click_info =
  ci_Country :: string
  ci_City :: string
  ci_Referrer :: string
  ci_Device :: string
  ci_Browser :: string
  ci_OS :: string
  ci_Bot :: bool

definition referrerOf :: "'u url_api \<Rightarrow> (string \<Rightarrow> string) \<Rightarrow> request \<Rightarrow> string" where
  "referrerOf U uni r =
     (let ref = header_get r ''Referer''
      in if ref = [] then ''direct''
         else let h = TrimPrefix (hostOf U uni ref) ''www.''
              in if h = [] \<or> length h > 253 then ''other'' else h)"

record 'i geo_reader =
  ParseIP :: "string \<Rightarrow> 'i option"
  geo_City :: "'i \<Rightarrow> (string \<times> string) option"

definition enrich ::
  "'u url_api \<Rightarrow> (string \<Rightarrow> string) \<Rightarrow> (string \<Rightarrow> string) \<Rightarrow> 'i geo_reader option \<Rightarrow> string \<Rightarrow> request \<Rightarrow> click_info" where
  "enrich U uni uniup geo ip r =
     (let (device, browser, os, isbot) = parseUA uni (header_get r ''User-Agent'');
          cc = ToUpper uniup (TrimSpace (header_get r ''Cf-Ipcountry''));
          country = (if length cc = 2 \<and> cc \<noteq> ''XX'' \<and> cc \<noteq> ''T1'' then cc else ''unknown'');
          info = \<lparr>ci_Country = country, ci_City = ''unknown'', ci_Referrer = referrerOf U uni r,
                  ci_Device = device, ci_Browser = browser, ci_OS = os, ci_Bot = isbot\<rparr>
      in case geo of
           None \<Rightarrow> info
         | Some g \<Rightarrow>
             (case Option.bind (ParseIP g ip) (geo_City g) of
                None \<Rightarrow> info
              | Some (isoCode, city) \<Rightarrow>
                  let info1 = (if ci_Country info = ''unknown'' \<and> isoCode \<noteq> [] then info\<lparr>ci_Country := isoCode\<rparr> else info)
                  in if city \<noteq> [] \<and> isoCode = ci_Country info1 then info1\<lparr>ci_City := city\<rparr> else info1))"

section \<open>Lemmas\<close>

lemma uaOS_range:
  "uaOS l \<in> {''Windows Phone'', ''iPadOS'', ''iOS'', ''Android'', ''ChromeOS'', ''Windows'', ''macOS'', ''Linux'', ''unknown''}"
  by (simp add: uaOS_def)

lemma uaBrowser_range:
  "uaBrowser l \<in> {''Edge'', ''Opera'', ''Samsung Internet'', ''Firefox'', ''Chrome'', ''Safari'', ''other''}"
  by (simp add: uaBrowser_def)

lemma uaDevice_range: "uaDevice l os browser \<in> {''tablet'', ''mobile'', ''unknown'', ''desktop''}"
  by (simp add: uaDevice_def)

lemma mobile_suffix:
  assumes "b \<in> {''Edge'', ''Opera'', ''Samsung Internet'', ''Firefox'', ''Chrome'', ''Safari'', ''other''}"
    and "b' = (if d \<noteq> ''desktop'' \<and> (b = ''Chrome'' \<or> b = ''Safari'') then b @ '' Mobile'' else b)"
  shows "b' \<in> {''Edge'', ''Opera'', ''Samsung Internet'', ''Firefox'', ''other'', ''Chrome'', ''Safari'', ''Chrome Mobile'', ''Safari Mobile''}
    \<and> (b' \<in> {''Chrome'', ''Safari''} \<longrightarrow> d = ''desktop'') \<and> (b' \<in> {''Chrome Mobile'', ''Safari Mobile''} \<longrightarrow> d \<noteq> ''desktop'')"
  using assms by (auto split: if_splits)

section \<open>Properties\<close>



end
