(* ===== verification/Config.thy ===== *)
theory Config
  imports Httputil
begin

text \<open>
  \<^verbatim>\<open>backend/config.go\<close>, and the CORS middleware of \<^verbatim>\<open>backend/routes.go\<close> that uses its allow-list.
  The process environment is a function from names to values, the empty string where a
  variable is unset.
\<close>

section \<open>Reading the environment\<close>

type_synonym environment = "string \<Rightarrow> string"

definition env :: "environment \<Rightarrow> string \<Rightarrow> string \<Rightarrow> string" where
  "env getenv k def = (if getenv k \<noteq> [] then getenv k else def)"

definition envInt :: "environment \<Rightarrow> string \<Rightarrow> int \<Rightarrow> int" where
  "envInt getenv k def =
     (if getenv k \<noteq> [] then (case ParseInt (getenv k) of (n, None) \<Rightarrow> n | (_, Some _) \<Rightarrow> def) else def)"

text \<open>\<^verbatim>\<open>strconv.ParseBool\<close>\<close>

definition ParseBool :: "string \<Rightarrow> bool option" where
  "ParseBool s =
     (if List.member [''1'', ''t'', ''T'', ''TRUE'', ''true'', ''True''] s then Some True
      else if List.member [''0'', ''f'', ''F'', ''FALSE'', ''false'', ''False''] s then Some False
      else None)"

definition envBool :: "environment \<Rightarrow> string \<Rightarrow> bool \<Rightarrow> bool" where
  "envBool getenv k def =
     (if getenv k \<noteq> [] then (case ParseBool (getenv k) of Some b \<Rightarrow> b | None \<Rightarrow> def) else def)"

section \<open>Allow-lists\<close>

definition normOrigin :: "(string \<Rightarrow> string) \<Rightarrow> string \<Rightarrow> string" where
  "normOrigin uni orig = ToLower uni (TrimRight (TrimSpace orig) (CHR ''/''))"

definition add_origin :: "(string \<Rightarrow> string) \<Rightarrow> string \<Rightarrow> (string, bool) gomap \<Rightarrow> (string, bool) gomap" where
  "add_origin uni orig out = (let n = normOrigin uni orig in if n \<noteq> [] then mput n True out else out)"

definition parseOrigins :: "(string \<Rightarrow> string) \<Rightarrow> string \<Rightarrow> string \<Rightarrow> (string, bool) gomap" where
  "parseOrigins uni raw base =
     (let raw' = (if TrimSpace raw = []
                  then Join [base, ''http://localhost:3000'', ''http://localhost:8090''] '',''
                  else raw)
      in fold (add_origin uni) (Split raw' (CHR '','')) [])"

definition parse_cidr :: "('a, 'p) netip \<Rightarrow> string \<Rightarrow> 'p option" where
  "parse_cidr N s =
     (case ParsePrefix N s of
        Some p \<Rightarrow> Some (Masked N p)
      | None \<Rightarrow>
          (case ParseAddr N s of
             Some ip \<Rightarrow> Some (PrefixFrom N (Unmap N ip) (BitLen N (Unmap N ip)))
           | None \<Rightarrow> None))"

fun cidr_loop :: "('a, 'p) netip \<Rightarrow> string list \<Rightarrow> 'p list \<Rightarrow> 'p list" where
  "cidr_loop N [] out = out"
| "cidr_loop N (s # ss) out =
     (if TrimSpace s = [] then cidr_loop N ss out
      else (case parse_cidr N (TrimSpace s) of
              Some p \<Rightarrow> cidr_loop N ss (out @ [p])
            | None \<Rightarrow> cidr_loop N ss out))"

definition parseCIDRs :: "('a, 'p) netip \<Rightarrow> string \<Rightarrow> 'p list" where
  "parseCIDRs N raw = cidr_loop N (Split raw (CHR '','')) []"

section \<open>The configuration\<close>

record 'p config =
  cfg_Port :: string
  cfg_PGURL :: string
  cfg_RedisURL :: string
  cfg_JWTSecret :: string
  cfg_ShardCount :: int
  cfg_VNodes :: int
  cfg_NodeID :: int
  cfg_NodeName :: string
  cfg_Partitions :: int
  cfg_CacheTTL :: int
  cfg_AdminEmail :: string
  cfg_AdminPass :: string
  cfg_DemoEmail :: string
  cfg_SeedEvents :: int
  cfg_PublicBase :: string
  cfg_StaticDir :: string
  cfg_CORSOrigins :: "(string, bool) gomap"
  cfg_CookieSecure :: bool
  cfg_DemoMode :: bool
  cfg_TrustedProxies :: "'p list"
  cfg_GeoIPDB :: string
  cfg_RetentionDays :: int

definition defaultAdminEmail :: string where "defaultAdminEmail = ''admin@kortex.dev''"
definition defaultAdminPass :: string where "defaultAdminPass = ''kortex2026''"

definition loadConfig :: "('a, 'p) netip \<Rightarrow> (string \<Rightarrow> string) \<Rightarrow> environment \<Rightarrow> 'p config" where
  "loadConfig N uni getenv =
     (let base = TrimRight (env getenv ''PUBLIC_BASE_URL'' '''') (CHR ''/'')
      in \<lparr>cfg_Port = env getenv ''KORTEX_PORT'' ''8090'',
          cfg_PGURL = getenv ''POSTGRES_URL'',
          cfg_RedisURL = getenv ''REDIS_URL'',
          cfg_JWTSecret = getenv ''JWT_SECRET'',
          cfg_ShardCount = envInt getenv ''SHARD_COUNT'' 4,
          cfg_VNodes = envInt getenv ''RING_VNODES'' 160,
          cfg_NodeID = envInt getenv ''NODE_ID'' 1,
          cfg_NodeName = env getenv ''NODE_NAME'' ''kortex-01'',
          cfg_Partitions = envInt getenv ''BUS_PARTITIONS'' 4,
          cfg_CacheTTL = envInt getenv ''CACHE_TTL_SECONDS'' 3600,
          cfg_AdminEmail = env getenv ''ADMIN_EMAIL'' defaultAdminEmail,
          cfg_AdminPass = env getenv ''ADMIN_PASSWORD'' defaultAdminPass,
          cfg_DemoEmail = env getenv ''DEMO_EMAIL'' ''demo@kortex.dev'',
          cfg_SeedEvents = envInt getenv ''SEED_EVENTS'' 180000,
          cfg_PublicBase = base,
          cfg_StaticDir = env getenv ''STATIC_DIR'' ''/app/static'',
          cfg_CORSOrigins = parseOrigins uni (getenv ''CORS_ORIGINS'') base,
          cfg_CookieSecure = envBool getenv ''COOKIE_SECURE'' (HasPrefix base ''https://''),
          cfg_DemoMode = envBool getenv ''DEMO_MODE'' True,
          cfg_TrustedProxies = parseCIDRs N (getenv ''TRUSTED_PROXIES''),
          cfg_GeoIPDB = getenv ''GEOIP_DB'',
          cfg_RetentionDays = envInt getenv ''ANALYTICS_RETENTION_DAYS'' 30\<rparr>)"

definition weakSecrets :: "string list" where
  "weakSecrets = [''change-this-secret'', ''change-me-to-a-random-hex-string'']"

datatype secret_error = Secret_unset | Secret_placeholder | Secret_short

definition validateJWTSecret :: "string \<Rightarrow> secret_error option" where
  "validateJWTSecret s =
     (if s = [] then Some Secret_unset
      else if List.member weakSecrets s then Some Secret_placeholder
      else if length s < 32 then Some Secret_short
      else None)"

section \<open>The CORS middleware\<close>

text \<open>The next handler gets the headers set so far.\<close>

definition corsMiddleware ::
  "(string \<Rightarrow> string) \<Rightarrow> (string, bool) gomap \<Rightarrow> (request \<Rightarrow> (string, string) gomap \<Rightarrow> 'b response) \<Rightarrow> request \<Rightarrow> 'b response" where
  "corsMiddleware uni allowed next r =
     (let h0 = [(''Vary'', ''Origin'')];
          origin = header_get r ''Origin'';
          h = (if origin \<noteq> [] \<and> mget False allowed (normOrigin uni origin)
               then h0 @ [(''Access-Control-Allow-Origin'', origin),
                          (''Access-Control-Allow-Credentials'', ''true''),
                          (''Access-Control-Allow-Methods'', ''GET,POST,PUT,PATCH,DELETE,OPTIONS''),
                          (''Access-Control-Allow-Headers'', ''Authorization,Content-Type,X-Requested-With''),
                          (''Access-Control-Expose-Headers'', ''X-Kortex-Cache,X-RateLimit-Remaining''),
                          (''Access-Control-Max-Age'', ''600'')]
               else h0)
      in if rq_Method r = ''OPTIONS'' \<and> header_get r ''Access-Control-Request-Method'' \<noteq> []
         then \<lparr>rs_status = 204, rs_headers = h, rs_body = No_body\<rparr>
         else next r h)"

section \<open>Lemmas\<close>

lemma fold_add_origin:
  "map_of (fold (add_origin uni) os out) k =
     (if k \<noteq> [] \<and> k \<in> normOrigin uni ` set os then Some True else map_of out k)"
  by (induction os arbitrary: out) (auto simp: add_origin_def Let_def)

lemma parseOrigins_iff:
  "mget False (parseOrigins uni raw base) k \<longleftrightarrow> k \<noteq> [] \<and>
     k \<in> normOrigin uni ` set (Split (if TrimSpace raw = []
        then base @ '',http://localhost:3000,http://localhost:8090'' else raw) (CHR '',''))"
  by (simp add: parseOrigins_def Let_def mget_def fold_add_origin)

lemma cidr_loop_eq:
  "cidr_loop N ss out = out @ List.map_filter (parse_cidr N) (filter (\<lambda>s. s \<noteq> []) (map TrimSpace ss))"
  by (induction ss arbitrary: out) (auto simp: map_filter_simps split: option.splits)

section \<open>Properties\<close>

text \<open>C27: credentialed cross-origin access is granted only to allow-listed origins.  For every handler
  that sets no CORS headers of its own, the response carries \<^verbatim>\<open>Access-Control-Allow-Origin\<close>
  exactly when the normalised \<^verbatim>\<open>Origin\<close> is one of the normalised entries of the configured
  list (the public base URL and the two local servers when none is configured), it then
  echoes that origin, and \<^verbatim>\<open>Access-Control-Allow-Credentials\<close> is present in just those
  responses; a preflight request is answered with 204 and never reaches the handler.\<close>

theorem cors_allow_listed:
  assumes handler: "\<And>r h k. k \<in> {''Access-Control-Allow-Origin'', ''Access-Control-Allow-Credentials''} \<Longrightarrow>
      map_of (rs_headers (next r h)) k = map_of h k"
  shows "let allowed = parseOrigins uni raw base;
             w = corsMiddleware uni allowed next r;
             origins = Split (if TrimSpace raw = [] then base @ '',http://localhost:3000,http://localhost:8090'' else raw) (CHR '','');
             granted = (header_get r ''Origin'' \<noteq> [] \<and> normOrigin uni (header_get r ''Origin'') \<noteq> []
               \<and> normOrigin uni (header_get r ''Origin'') \<in> normOrigin uni ` set origins)
         in map_of (rs_headers w) ''Access-Control-Allow-Origin'' = (if granted then Some (header_get r ''Origin'') else None)
          \<and> map_of (rs_headers w) ''Access-Control-Allow-Credentials'' = (if granted then Some ''true'' else None)
          \<and> (rq_Method r = ''OPTIONS'' \<and> header_get r ''Access-Control-Request-Method'' \<noteq> [] \<longrightarrow>
               rs_status w = 204 \<and> (\<forall>next'. corsMiddleware uni allowed next' r = w))"
  unfolding Let_def corsMiddleware_def
  by (auto simp: parseOrigins_iff handler)

definition demo_handler :: "request \<Rightarrow> (string, string) gomap \<Rightarrow> unit response" where
  "demo_handler r h = \<lparr>rs_status = 200, rs_headers = h, rs_body = No_body\<rparr>"

theorem cors_allow_listed_witness:
  "map_of (rs_headers (corsMiddleware id (parseOrigins id '''' ''https://A.com/'') demo_handler
      (demo_request\<lparr>rq_header := [(''Origin'', [''https://a.com''])]\<rparr>))) ''Access-Control-Allow-Origin'' = Some ''https://a.com''"
proof -
  let ?r = "demo_request\<lparr>rq_header := [(''Origin'', [''https://a.com''])]\<rparr>"
  have o: "header_get ?r ''Origin'' = ''https://a.com''" by code_simp
  have g: "normOrigin id ''https://a.com'' \<noteq> []" "TrimSpace '''' = []"
    "normOrigin id ''https://a.com'' \<in>
       normOrigin id ` set (Split (''https://A.com/'' @ '',http://localhost:3000,http://localhost:8090'') (CHR '',''))"
    by code_simp+
  have h: "map_of (rs_headers (demo_handler r h)) k = map_of h k" for r h k by (simp add: demo_handler_def)
  from cors_allow_listed [of demo_handler id "''''" "''https://A.com/''" ?r, OF h] g show ?thesis
    unfolding Let_def o by simp
qed

end
