(* ===== verification/Links.thy ===== *)
theory Links
  imports Pg_Spec Bloom Olap_Query Useragent Config
begin

text \<open>
  The request handlers around a link: \<^verbatim>\<open>backend/handlers_links.go\<close> (the write path),
  \<^verbatim>\<open>backend/handlers_redirect.go\<close> (the read path), and of \<^verbatim>\<open>backend/main.go\<close> the application
  struct and the warm-up.  A handler is a function on the application state that returns the
  response; \<^const>\<open>None\<close> is a panic, or a clock trace too short for the identifier generator.  The
  outside world is one argument \<open>ext\<close>.  The measured durations that the write path reports are
  left out.
\<close>

section \<open>The application\<close>

record ('r, 'db, 'u, 'a, 'p, 'i) ext =
  x_redis :: "'r redis"
  x_json :: json_api
  x_pg :: "'db pg"
  x_url :: "'u url_api"
  x_lower :: "string \<Rightarrow> string"
  x_upper :: "string \<Rightarrow> string"
  x_fold :: "string \<Rightarrow> string \<Rightarrow> bool"
  x_netip :: "('a, 'p) netip"
  x_geo :: "'i geo_reader option"
  x_sort :: "link list \<Rightarrow> link list"
  x_qr :: "string \<Rightarrow> string option"
  x_static :: "string \<Rightarrow> string option"

record ('r, 'db, 'p) app =
  a_cfg :: "'p config"
  a_ids :: snowflake
  a_store :: "'db store"
  a_cache :: "'r cache"
  a_bus :: broker
  a_olap :: olap
  a_bloom :: bloom
  a_static :: string
  demoCodes :: "(string, bool) gomap"
  demoUserID :: int
  adminID :: int
  benchLinks :: "string list"
  redirects :: u64
  unknownCodes :: u64

record alias_check =
  ac_Alias :: string
  ac_Valid :: bool
  ac_Reserved :: bool
  ac_BloomMaybe :: bool
  ac_BloomBits :: "u64 list"
  ac_DBChecked :: bool
  ac_Available :: bool
  ac_Reason :: string

record resolve_view =
  rv_hit :: bool
  rv_active :: bool
  rv_expired :: bool
  rv_expires_at :: "int option"
  rv_status :: string
  rv_target :: "(string \<times> int) option"

datatype json_body =
    J_shorten link string string snowflake_parts
  | J_items "(link \<times> nat \<times> nat \<times> int \<times> bool) list" nat
  | J_link link snowflake_parts bool
  | J_deleted
  | J_toggled string bool
  | J_alias alias_check
  | J_resolve resolve_view

type_synonym ('r, 'db, 'p) handled = "(json_body response \<times> ('r, 'db, 'p) app) option"

definition reply :: "json_body response \<Rightarrow> ('r, 'db, 'p) app \<Rightarrow> ('r, 'db, 'p) handled" where
  "reply w a = Some (w, a)"

definition em_dash :: string where "em_dash = [CHR 0xE2, CHR 0x80, CHR 0x94]"

section \<open>The Bloom filter in front of the shards\<close>

definition bloomRulesOut :: "string \<Rightarrow> ('r, 'db, 'p) app \<Rightarrow> (bool \<times> ('r, 'db, 'p) app) option" where
  "bloomRulesOut code a =
     (let b = a_bloom a\<lparr>Queries := Queries (a_bloom a) + 1\<rparr>
      in case MayContain b code of
           None \<Rightarrow> None
         | Some False \<Rightarrow> Some (True, a\<lparr>a_bloom := b\<lparr>Skipped := Skipped b + 1\<rparr>\<rparr>)
         | Some True \<Rightarrow> Some (False, a\<lparr>a_bloom := b\<lparr>Probes := Probes b + 1\<rparr>\<rparr>))"

definition false_positive :: "('r, 'db, 'p) app \<Rightarrow> ('r, 'db, 'p) app" where
  "false_positive a = a\<lparr>a_bloom := a_bloom a\<lparr>FalsePos := FalsePos (a_bloom a) + 1\<rparr>\<rparr>"

definition bloom_add :: "string \<Rightarrow> ('r, 'db, 'p) app \<Rightarrow> ('r, 'db, 'p) app option" where
  "bloom_add code a = map_option (\<lambda>b. a\<lparr>a_bloom := b\<rparr>) (Bloom.Add (a_bloom a) code)"

section \<open>The read path\<close>

definition resolve ::
  "('r, 'db, 'u, 'a, 'p, 'i) ext \<Rightarrow> string \<Rightarrow> ('r, 'db, 'p) app \<Rightarrow> ((go_error + cached_link \<times> bool) \<times> ('r, 'db, 'p) app) option" where
  "resolve X code a =
     (if \<not> codeShape code then Some (Inl Err_unknown_code, a)
      else let (hit, c) = Cache.Get (x_redis X) (x_json X) code (a_cache a); a1 = a\<lparr>a_cache := c\<rparr>
           in case hit of
                Some cl \<Rightarrow> Some (Inr (cl, True), a1)
              | None \<Rightarrow>
                  (case bloomRulesOut code a1 of
                     None \<Rightarrow> None
                   | Some (True, a2) \<Rightarrow> Some (Inl Err_unknown_code, a2)
                   | Some (False, a2) \<Rightarrow>
                       let (l, st) = GetByCode (x_pg X) code (a_store a2); a3 = a2\<lparr>a_store := st\<rparr>
                       in (case l of
                             Inl Err_no_rows \<Rightarrow> Some (Inl Err_unknown_code, false_positive a3)
                           | Inl e \<Rightarrow> Some (Inl e, a3)
                           | Inr l \<Rightarrow>
                               Some (Inr (toCached l, False),
                                 a3\<lparr>a_cache := Cache.Set (x_redis X) (x_json X) l (a_cache a3)\<rparr>))))"

definition emitClick ::
  "('r, 'db, 'u, 'a, 'p, 'i) ext \<Rightarrow> int \<Rightarrow> request \<Rightarrow> string \<Rightarrow> int \<Rightarrow> int \<Rightarrow> bool \<Rightarrow> ('r, 'db, 'p) app \<Rightarrow> ('r, 'db, 'p) app" where
  "emitClick X now r code userID status hit a =
     (let ip = clientIP (x_netip X) (cfg_TrustedProxies (a_cfg a)) r;
          info = enrich (x_url X) (x_lower X) (x_upper X) (x_geo X) ip r
      in a\<lparr>a_bus := Produce
           \<lparr>ev_TS = UnixMilli now, ev_Code = code, ev_UserID = userID,
            ev_Country = ci_Country info, ev_City = ci_City info, ev_Ref = ci_Referrer info,
            ev_Device = ci_Device info, ev_Browser = ci_Browser info, ev_OS = ci_OS info, ev_Bot = ci_Bot info,
            ev_Status = status, ev_Hit = hit\<rparr> (a_bus a)\<rparr>)"

definition cacheHeader :: "bool \<Rightarrow> string" where
  "cacheHeader hit = (if hit then ''HIT'' else ''MISS'')"

definition redirectStatus :: "int \<Rightarrow> int" where
  "redirectStatus s = (if s = 301 \<or> s = 302 \<or> s = 307 \<or> s = 308 then s else 302)"

definition acceptsHTML :: "request \<Rightarrow> bool" where
  "acceptsHTML r = Contains (header_get r ''Accept'') ''text/html''"

definition serveIndex :: "('r, 'db, 'u, 'a, 'p, 'i) ext \<Rightarrow> request \<Rightarrow> int \<Rightarrow> json_body response" where
  "serveIndex X r status =
     (case x_static X ''index.html'' of
        None \<Rightarrow> writeErr 404 ''not found''
      | Some b \<Rightarrow>
          \<lparr>rs_status = status,
           rs_headers = [(''Content-Type'', ''text/html; charset=utf-8''), (''Cache-Control'', ''no-cache'')],
           rs_body = (if rq_Method r \<noteq> ''HEAD'' then Bytes b else No_body)\<rparr>)"

text \<open>\<open>now1\<close> is the clock at the expiry check, \<open>now2\<close> at the click event.\<close>

definition redirect ::
  "('r, 'db, 'u, 'a, 'p, 'i) ext \<Rightarrow> int \<Rightarrow> int \<Rightarrow> request \<Rightarrow> string \<Rightarrow> bool \<Rightarrow> ('r, 'db, 'p) app \<Rightarrow> ('r, 'db, 'p) handled" where
  "redirect X now1 now2 r code fromRoot a =
     (let countClick = rq_Method r \<noteq> ''HEAD''
      in case resolve X code a of
           None \<Rightarrow> None
         | Some (Inl Err_unknown_code, a1) \<Rightarrow>
             let a2 = a1\<lparr>unknownCodes := unknownCodes a1 + 1\<rparr>
             in if fromRoot \<and> a_static a2 \<noteq> [] \<and> acceptsHTML r then reply (serveIndex X r 404) a2
                else reply (writeErr 404 ''unknown short code'') a2
         | Some (Inl e, a1) \<Rightarrow> reply (writeErr 503 ''link store unavailable'') a1
         | Some (Inr (cl, hit), a1) \<Rightarrow>
             if \<not> c_Active cl \<or> Expired now1 cl
             then reply (writeErr 410 (if \<not> c_Active cl then ''link disabled'' else ''link expired''))
                    (if countClick then emitClick X now2 r code (c_UserID cl) 410 hit a1 else a1)
             else let a2 = (if countClick
                            then emitClick X now2 r code (c_UserID cl) (c_Redirect cl) hit
                                   (a1\<lparr>a_store := BumpClicks code 1 (a_store a1)\<rparr>)
                            else a1);
                      a3 = a2\<lparr>redirects := redirects a2 + 1\<rparr>
                  in reply \<lparr>rs_status = redirectStatus (c_Redirect cl),
                            rs_headers = [(''Location'', c_LongURL cl), (''Cache-Control'', ''private, max-age=0''),
                                          (''X-Kortex-Cache'', cacheHeader hit)],
                            rs_body = No_body\<rparr> a3)"

definition handleRedirect ::
  "('r, 'db, 'u, 'a, 'p, 'i) ext \<Rightarrow> int \<Rightarrow> int \<Rightarrow> request \<Rightarrow> ('r, 'db, 'p) app \<Rightarrow> ('r, 'db, 'p) handled" where
  "handleRedirect X now1 now2 r a = redirect X now1 now2 r (rq_param r) False a"

definition handleRoot ::
  "('r, 'db, 'u, 'a, 'p, 'i) ext \<Rightarrow> int \<Rightarrow> int \<Rightarrow> request \<Rightarrow> ('r, 'db, 'p) app \<Rightarrow> ('r, 'db, 'p) handled" where
  "handleRoot X now1 now2 r a =
     (let code = rq_param r
      in if a_static a \<noteq> [] \<and> List.member spaRoutes code then reply (serveIndex X r 200) a
         else case (if a_static a \<noteq> [] then x_static X code else None) of
                Some file \<Rightarrow> reply \<lparr>rs_status = 200, rs_headers = [], rs_body = Bytes file\<rparr> a
              | None \<Rightarrow> redirect X now1 now2 r code True a)"

definition handleResolveJSON ::
  "('r, 'db, 'u, 'a, 'p, 'i) ext \<Rightarrow> int \<Rightarrow> request \<Rightarrow> ('r, 'db, 'p) app \<Rightarrow> ('r, 'db, 'p) handled" where
  "handleResolveJSON X now r a =
     (case resolve X (rq_param r) a of
        None \<Rightarrow> None
      | Some (Inl Err_unknown_code, a1) \<Rightarrow> reply (writeErr 404 ''unknown short code'') a1
      | Some (Inl e, a1) \<Rightarrow> reply (writeErr 503 ''link store unavailable'') a1
      | Some (Inr (cl, hit), a1) \<Rightarrow>
          let expired = Expired now cl;
              out = \<lparr>rv_hit = hit, rv_active = c_Active cl, rv_expired = expired,
                     rv_expires_at = (if c_ExpiresAt cl > 0 then Some (c_ExpiresAt cl) else None),
                     rv_status = ''active'', rv_target = None\<rparr>
          in reply (writeJSON 200 (J_resolve
               (if \<not> c_Active cl then out\<lparr>rv_status := ''disabled''\<rparr>
                else if expired then out\<lparr>rv_status := ''expired''\<rparr>
                else out\<lparr>rv_target := Some (c_LongURL cl, c_Redirect cl)\<rparr>))) a1)"

section \<open>The write path\<close>

record shorten_req =
  sr_URL :: string
  sr_Alias :: string
  sr_Title :: string
  sr_ExpiresIn :: string
  sr_Permanent :: bool

definition shortenPerMinute :: int where "shortenPerMinute = 40"
definition maxTitleLen :: nat where "maxTitleLen = 200"

definition expiryOptions :: "(string, int) gomap" where
  "expiryOptions = (let hour = 3600 * 1000000000
     in [(''1h'', hour), (''24h'', 24 * hour), (''7d'', 7 * 24 * hour), (''30d'', 30 * 24 * hour)])"

definition isSelfURL :: "('r, 'db, 'u, 'a, 'p, 'i) ext \<Rightarrow> ('r, 'db, 'p) app \<Rightarrow> string \<Rightarrow> bool" where
  "isSelfURL X a long =
     (if cfg_PublicBase (a_cfg a) = [] then False
      else case (url_Parse (x_url X) long, url_Parse (x_url X) (cfg_PublicBase (a_cfg a))) of
             (Some u, Some b) \<Rightarrow> EqualFold (x_fold X) (url_Hostname (x_url X) u) (url_Hostname (x_url X) b)
           | _ \<Rightarrow> False)"

definition validateTarget ::
  "('r, 'db, 'u, 'a, 'p, 'i) ext \<Rightarrow> ('r, 'db, 'p) app \<Rightarrow> string \<Rightarrow> string \<Rightarrow> go_error + string \<times> string" where
  "validateTarget X a rawURL rawTitle =
     (if length (TrimSpace rawURL) > maxURLLen then Inl (errStatus 400 ''URL must be at most 2048 characters'')
      else case validURL (x_url X) (x_lower X) rawURL of
             None \<Rightarrow> Inl (errStatus 400 ''that doesn't look like a valid http(s) URL'')
           | Some long \<Rightarrow>
               if isSelfURL X a long
               then Inl (errStatus 400 ''can't shorten a link to this service (redirect loop)'')
               else let title = TrimSpace rawTitle
                    in if RuneCount title > maxTitleLen
                       then Inl (errStatus 400 ''title must be at most 200 characters'')
                       else Inr (long, if title = [] then hostOf (x_url X) (x_lower X) long else title))"

definition checkAliasFree ::
  "('r, 'db, 'u, 'a, 'p, 'i) ext \<Rightarrow> string \<Rightarrow> ('r, 'db, 'p) app \<Rightarrow> (go_error option \<times> ('r, 'db, 'p) app) option" where
  "checkAliasFree X alias a =
     (if \<not> validAlias alias then Some (Some (errStatus 400 ''alias must be 3-32 chars: letters, digits, - or _''), a)
      else if isReservedAlias (x_lower X) alias then Some (Some (errStatus 409 ''that alias is reserved''), a)
      else case bloomRulesOut alias a of
             None \<Rightarrow> None
           | Some (True, a1) \<Rightarrow> Some (None, a1)
           | Some (False, a1) \<Rightarrow>
               let (r, st) = CodeExists (x_pg X) alias (a_store a1); a2 = a1\<lparr>a_store := st\<rparr>
               in (case r of
                     Inl e \<Rightarrow> Some (Some e, a2)
                   | Inr True \<Rightarrow> Some (Some (errStatus 409 ''alias already taken''), a2)
                   | Inr False \<Rightarrow> Some (None, false_positive a2)))"

definition publicBase :: "('r, 'db, 'u, 'a, 'p, 'i) ext \<Rightarrow> ('r, 'db, 'p) app \<Rightarrow> request \<Rightarrow> string" where
  "publicBase X a r =
     (let orig = normOrigin (x_lower X) (header_get r ''Origin'')
      in if cfg_PublicBase (a_cfg a) \<noteq> [] then cfg_PublicBase (a_cfg a)
         else if mget False (cfg_CORSOrigins (a_cfg a)) orig then orig
         else (if rq_TLS r then ''https'' else ''http'') @ ''://'' @ rq_Host r)"

text \<open>The code of a new link: the encoded identifier, or the alias if one is asked for and free.\<close>

definition choose_code ::
  "('r, 'db, 'u, 'a, 'p, 'i) ext \<Rightarrow> i64 \<Rightarrow> string \<Rightarrow> ('r, 'db, 'p) app \<Rightarrow> ((go_error + string \<times> bool) \<times> ('r, 'db, 'p) app) option" where
  "choose_code X i rawAlias a =
     (case encodeCode i of
        None \<Rightarrow> None
      | Some code \<Rightarrow>
          let alias = TrimSpace rawAlias
          in if alias = [] then Some (Inr (code, False), a)
             else (case checkAliasFree X alias a of
                     None \<Rightarrow> None
                   | Some (Some e, a1) \<Rightarrow> Some (Inl e, a1)
                   | Some (None, a1) \<Rightarrow> Some (Inr (alias, True), a1)))"

definition new_link :: "shorten_req \<Rightarrow> i64 \<Rightarrow> string \<Rightarrow> bool \<Rightarrow> string \<Rightarrow> string \<Rightarrow> int \<Rightarrow> int \<Rightarrow> int \<Rightarrow> link" where
  "new_link req i code custom long title userID now1 now2 =
     \<lparr>l_ID = sint i, l_Code = code, l_LongURL = long, l_Title = title, l_UserID = userID, l_Custom = custom,
      l_Redirect = (if sr_Permanent req then 301 else 302),
      l_ExpiresAt = (case map_of expiryOptions (sr_ExpiresIn req) of None \<Rightarrow> None | Some d \<Rightarrow> Some (now2 + d)),
      l_CreatedAt = now1, l_Clicks = 0, l_Active = True, l_Shard = 0\<rparr>"

definition store_link ::
  "('r, 'db, 'u, 'a, 'p, 'i) ext \<Rightarrow> request \<Rightarrow> i64 \<Rightarrow> link \<Rightarrow> ('r, 'db, 'p) app \<Rightarrow> ('r, 'db, 'p) handled" where
  "store_link X r i l0 a =
     (let ((err, l), st) = InsertLink (x_pg X) l0 (a_store a); a1 = a\<lparr>a_store := st\<rparr>
      in case err of
           Some e \<Rightarrow>
             if isUniqueViolation e \<and> l_Custom l then reply (writeErr 409 ''alias already taken'') a1
             else if isUniqueViolation e then reply (writeErr 409 (''code collision '' @ em_dash @ '' retry'')) a1
             else reply internalErr a1
         | None \<Rightarrow>
             let a2 = a1\<lparr>a_cache := Cache.Set (x_redis X) (x_json X) l (a_cache a1)\<rparr>;
                 base = publicBase X a2 r
             in (case bloom_add (l_Code l) a2 of
                   None \<Rightarrow> None
                 | Some a3 \<Rightarrow>
                     reply (writeJSON 201 (J_shorten l (base @ ''/api/r/'' @ l_Code l) (base @ ''/'' @ l_Code l) (explodeID i))) a3))"

text \<open>The body is \<^const>\<open>None\<close> when it does not decode; \<open>clock\<close> drives the identifier generator, and
  \<open>now1\<close>, \<open>now2\<close> are the later readings of the clock.\<close>

definition handleShorten ::
  "('r, 'db, 'u, 'a, 'p, 'i) ext \<Rightarrow> user \<Rightarrow> shorten_req option \<Rightarrow> i64 list \<Rightarrow> int \<Rightarrow> int \<Rightarrow> request \<Rightarrow> ('r, 'db, 'p) app
     \<Rightarrow> ('r, 'db, 'p) handled" where
  "handleShorten X u body clock now1 now2 r a =
     (case body of
        None \<Rightarrow> reply (writeErr 400 ''invalid payload'') a
      | Some req \<Rightarrow>
          let ((ok, remaining, reset), c) =
                RateLimit (x_redis X) (''shorten:'' @ itoa (u_ID u)) shortenPerMinute 60000 (a_cache a);
              a1 = a\<lparr>a_cache := c\<rparr>;
              with_limit = map_option (\<lambda>(w, a'). (set_header ''X-RateLimit-Remaining'' (itoa remaining) w, a'))
          in with_limit
            (if \<not> ok
             then reply (writeErr 429 (''rate limit exceeded: 40 links/min '' @ em_dash @ '' resets in '' @ itoa reset @ ''s'')) a1
             else case validateTarget X a1 (sr_URL req) (sr_Title req) of
                    Inl e \<Rightarrow> reply (fail_response e) a1
                  | Inr (long, title) \<Rightarrow>
                      (case Next (a_ids a1) clock of
                         None \<Rightarrow> None
                       | Some (i, sf, _) \<Rightarrow>
                           let a2 = a1\<lparr>a_ids := sf\<rparr>
                           in (case choose_code X i (sr_Alias req) a2 of
                                 None \<Rightarrow> None
                               | Some (Inl e, a3) \<Rightarrow> reply (fail_response e) a3
                               | Some (Inr (code, custom), a3) \<Rightarrow>
                                   store_link X r i (new_link req i code custom long title (u_ID u) now1 now2) a3))))"

definition isDemo :: "('r, 'db, 'p) app \<Rightarrow> string \<Rightarrow> bool" where
  "isDemo a code = (cfg_DemoMode (a_cfg a) \<and> mget False (demoCodes a) code)"

fun code_ids :: "string list \<Rightarrow> olap \<Rightarrow> u32 list \<times> olap" where
  "code_ids [] ol = ([], ol)"
| "code_ids (c # cs) ol = (let (i, ol1) = CodeID c ol; (is, ol2) = code_ids cs ol1 in (i # is, ol2))"

definition handleListLinks ::
  "('r, 'db, 'u, 'a, 'p, 'i) ext \<Rightarrow> user \<Rightarrow> int \<Rightarrow> request \<Rightarrow> ('r, 'db, 'p) app \<Rightarrow> ('r, 'db, 'p) handled" where
  "handleListLinks X u now r a =
     (let (res, st) = ListByUser (x_pg X) (x_sort X) (u_ID u) (qLimit r 200) (a_store a); a1 = a\<lparr>a_store := st\<rparr>
      in case res of
           Inl e \<Rightarrow> reply internalErr a1
         | Inr links \<Rightarrow>
             let (is, ol) = code_ids (map l_Code links) (a_olap a1);
                 a2 = a1\<lparr>a_olap := ol\<rparr>;
                 sums = SummaryBatch now is ol;
                 items = map2 (\<lambda>l s. (l, Last24 s, Total s, Last s, isDemo a2 (l_Code l))) links sums
             in reply (writeJSON 200 (J_items items (length items))) a2)"

definition ownedLink ::
  "('r, 'db, 'u, 'a, 'p, 'i) ext \<Rightarrow> user \<Rightarrow> string \<Rightarrow> ('r, 'db, 'p) app \<Rightarrow> (go_error + link) \<times> ('r, 'db, 'p) app" where
  "ownedLink X u code a =
     (let (r, st) = GetByCode (x_pg X) code (a_store a); a1 = a\<lparr>a_store := st\<rparr>
      in (case r of
            Inl Err_no_rows \<Rightarrow> Inl (errStatus 404 ''link not found'')
          | Inl e \<Rightarrow> Inl e
          | Inr l \<Rightarrow> if l_UserID l \<noteq> u_ID u then Inl (errStatus 404 ''link not found'') else Inr l, a1))"

definition handleGetLink ::
  "('r, 'db, 'u, 'a, 'p, 'i) ext \<Rightarrow> user \<Rightarrow> request \<Rightarrow> ('r, 'db, 'p) app \<Rightarrow> ('r, 'db, 'p) handled" where
  "handleGetLink X u r a =
     (case ownedLink X u (rq_param r) a of
        (Inl e, a1) \<Rightarrow> reply (fail_response e) a1
      | (Inr l, a1) \<Rightarrow> reply (writeJSON 200 (J_link l (explodeID (word_of_int (l_ID l))) (isDemo a1 (l_Code l)))) a1)"

definition handleDeleteLink ::
  "('r, 'db, 'u, 'a, 'p, 'i) ext \<Rightarrow> user \<Rightarrow> request \<Rightarrow> ('r, 'db, 'p) app \<Rightarrow> ('r, 'db, 'p) handled" where
  "handleDeleteLink X u r a =
     (let code = rq_param r
      in if isDemo a code then reply (writeErr 403 ''demo links are protected'') a
         else let (res, st) = DeleteLink (x_pg X) code (u_ID u) (a_store a); a1 = a\<lparr>a_store := st\<rparr>
              in (case res of
                    Inl e \<Rightarrow> reply internalErr a1
                  | Inr False \<Rightarrow> reply (writeErr 404 ''link not found'') a1
                  | Inr True \<Rightarrow>
                      let a2 = a1\<lparr>a_cache := Del (x_redis X) code (a_cache a1)\<rparr>;
                          a3 = a2\<lparr>a_store := DropPending code (a_store a2)\<rparr>;
                          a4 = a3\<lparr>a_olap := snd (Purge code (a_olap a3))\<rparr>
                      in reply (writeJSON 200 J_deleted) a4))"

definition handleToggleLink ::
  "('r, 'db, 'u, 'a, 'p, 'i) ext \<Rightarrow> user \<Rightarrow> request \<Rightarrow> ('r, 'db, 'p) app \<Rightarrow> ('r, 'db, 'p) handled" where
  "handleToggleLink X u r a =
     (let code = rq_param r
      in if isDemo a code then reply (writeErr 403 ''demo links are protected'') a
         else let (res, st) = ToggleActive (x_pg X) code (u_ID u) (a_store a); a1 = a\<lparr>a_store := st\<rparr>
              in (case res of
                    Inl Err_no_rows \<Rightarrow> reply (writeErr 404 ''link not found'') a1
                  | Inl e \<Rightarrow> reply internalErr a1
                  | Inr l \<Rightarrow>
                      reply (writeJSON 200 (J_toggled code (l_Active l)))
                        (a1\<lparr>a_cache := Cache.Set (x_redis X) (x_json X) l (a_cache a1)\<rparr>)))"

definition handleCheckAlias ::
  "('r, 'db, 'u, 'a, 'p, 'i) ext \<Rightarrow> request \<Rightarrow> ('r, 'db, 'p) app \<Rightarrow> ('r, 'db, 'p) handled" where
  "handleCheckAlias X r a =
     (let alias = TrimSpace (query_get r ''alias'');
          res = \<lparr>ac_Alias = alias, ac_Valid = False, ac_Reserved = False, ac_BloomMaybe = False, ac_BloomBits = [],
                 ac_DBChecked = False, ac_Available = False, ac_Reason = []\<rparr>;
          answer = (\<lambda>res. reply (writeJSON 200 (J_alias res)))
      in if \<not> validAlias alias then answer (res\<lparr>ac_Reason := ''3-32 chars, letters/digits/-/_ only''\<rparr>) a
         else if isReservedAlias (x_lower X) alias
         then answer (res\<lparr>ac_Valid := True, ac_Reserved := True, ac_Reason := ''reserved path''\<rparr>) a
         else case bloomRulesOut alias a of
                None \<Rightarrow> None
              | Some (ruledOut, a1) \<Rightarrow>
                  (case SetBits (a_bloom a1) alias of
                     None \<Rightarrow> None
                   | Some bits \<Rightarrow>
                       let res1 = res\<lparr>ac_Valid := True, ac_BloomMaybe := \<not> ruledOut, ac_BloomBits := bits\<rparr>
                       in if ruledOut
                          then answer (res1\<lparr>ac_Available := True,
                                 ac_Reason := ''bloom says definitely-not-present '' @ em_dash @ '' Postgres round trip skipped''\<rparr>) a1
                          else let (ex, st) = CodeExists (x_pg X) alias (a_store a1); a2 = a1\<lparr>a_store := st\<rparr>;
                                   res2 = res1\<lparr>ac_DBChecked := True\<rparr>
                               in (case ex of
                                     Inl e \<Rightarrow> answer (res2\<lparr>ac_Reason := ''shard lookup error''\<rparr>) a2
                                   | Inr True \<Rightarrow> answer (res2\<lparr>ac_Reason := ''confirmed taken in shard '' @ itoa (ShardFor (a_store a2) alias)\<rparr>) a2
                                   | Inr False \<Rightarrow>
                                       answer (res2\<lparr>ac_Available := True,
                                         ac_Reason := ''bloom false positive '' @ em_dash @ '' shard confirmed free''\<rparr>) (false_positive a2))))"

definition handleQR ::
  "('r, 'db, 'u, 'a, 'p, 'i) ext \<Rightarrow> request \<Rightarrow> ('r, 'db, 'p) app \<Rightarrow> ('r, 'db, 'p) handled" where
  "handleQR X r a =
     (let q = query_get r ''url'';
          target = (if q = [] then publicBase X a r @ ''/'' @ rq_param r else q)
      in if length target > maxURLLen then reply (writeErr 400 ''url too long'') a
         else case x_qr X target of
                None \<Rightarrow> reply (writeErr 500 ''qr encode failed'') a
              | Some png \<Rightarrow>
                  reply \<lparr>rs_status = 200,
                         rs_headers = [(''Content-Type'', ''image/png''), (''Cache-Control'', ''public, max-age=86400'')],
                         rs_body = Bytes png\<rparr> a)"

section \<open>Boot\<close>

definition cacheWarmLinks :: nat where "cacheWarmLinks = 5000"

fun bloom_all :: "link list \<Rightarrow> ('r, 'db, 'p) app \<Rightarrow> ('r, 'db, 'p) app option" where
  "bloom_all [] a = Some a"
| "bloom_all (l # ls) a = (case bloom_add (l_Code l) a of None \<Rightarrow> None | Some a' \<Rightarrow> bloom_all ls a')"

definition warmUp :: "('r, 'db, 'u, 'a, 'p, 'i) ext \<Rightarrow> ('r, 'db, 'p) app \<Rightarrow> ('r, 'db, 'p) app option" where
  "warmUp X a =
     (let (res, st) = AllCodes (x_pg X) (a_store a); a1 = a\<lparr>a_store := st\<rparr>
      in case res of
           Inl e \<Rightarrow> Some a1
         | Inr links \<Rightarrow>
             bloom_all links (a1\<lparr>a_cache := snd (Warm (x_redis X) (x_json X) links cacheWarmLinks (a_cache a1))\<rparr>))"

end
