(* ===== verification/Testbed.thy ===== *)
theory Testbed
  imports Links_Spec
begin

text \<open>
  Concrete servers that meet the contracts of \<open>Cache\<close> and \<open>Pg_Spec\<close>: a Redis that is an association
  list without expiry, and an encoding of cached links.  With the database of \<open>Pg_Spec\<close> they
  give the closed instances of the theorems about the whole service.
\<close>

section \<open>A Redis\<close>

type_synonym mem_redis = "(string, string) gomap"

definition mem_incr :: "string \<Rightarrow> mem_redis \<Rightarrow> (int \<times> mem_redis) option" where
  "mem_incr k s =
     (let n = fst (ParseInt (mget ''0'' s k)) + 1 in Some (n, mput k (itoa n) s))"

definition mem_server :: "mem_redis redis" where
  "mem_server =
     \<lparr>r_get = (\<lambda>k s. (case map_of s k of None \<Rightarrow> Reply_nil | Some v \<Rightarrow> Reply v, s)),
      r_set = (\<lambda>k v t s. (True, mput k v s)),
      r_del = mdel,
      r_pipeline = (\<lambda>kvs s. fold (\<lambda>(k, v, t). mput k v) kvs s),
      r_setnx = (\<lambda>k v t s. if map_of s k = None then (Reply True, mput k v s) else (Reply False, s)),
      r_exists = (\<lambda>k s. (Reply (if map_of s k = None then 0 else 1), s)),
      r_incr = mem_incr,
      r_pttl = (\<lambda>k s. -1),
      r_pexpire = (\<lambda>k w s. s),
      r_script = (\<lambda>f s. case f s of None \<Rightarrow> (Reply_err, s) | Some (xs, s') \<Rightarrow> (Reply xs, s')),
      r_dbsize = (\<lambda>s. Reply (int (length s))),
      r_info = (\<lambda>s. Reply_err),
      r_config_get = (\<lambda>k s. Reply_err)\<rparr>"

lemma mem_pipeline: "map_of (fold (\<lambda>(k, v, t). mput k v) kvs s) = fold (\<lambda>(k, v, t) m. m(k \<mapsto> v)) kvs (map_of s)"
  by (induction kvs arbitrary: s) (auto simp del: fun_upd_apply)

lemma mem_serves: "redis_serves mem_server map_of"
  by (auto simp: redis_serves_def mem_server_def mem_pipeline incrWindow_def mem_incr_def Let_def split: option.splits)

lemma mem_setnx: "setnx_atomic mem_server map_of"
  by (auto simp: setnx_atomic_def mem_server_def)

section \<open>An encoding of links\<close>

fun enc_str :: "string \<Rightarrow> string" where
  "enc_str [] = ''0''"
| "enc_str (c # cs) = CHR ''1'' # c # enc_str cs"

fun dec_str :: "string \<Rightarrow> (string \<times> string) option" where
  "dec_str [] = None"
| "dec_str (m # r) =
     (if m \<noteq> CHR ''1'' then Some ([], r)
      else case r of [] \<Rightarrow> None | c # r' \<Rightarrow> map_option (map_prod ((#) c) id) (dec_str r'))"

lemma dec_enc_str [simp]: "dec_str (enc_str s @ r) = Some (s, r)"
  by (induction s) auto

definition int_text :: "int \<Rightarrow> string" where
  "int_text i = (if i < 0 then CHR ''-'' else CHR ''+'') # replicate (nat \<bar>i\<bar>) (CHR ''1'')"

definition text_int :: "string \<Rightarrow> int" where
  "text_int s = (case s of [] \<Rightarrow> 0 | c # cs \<Rightarrow> (if c = CHR ''-'' then - int (length cs) else int (length cs)))"

lemma text_int_text [simp]: "text_int (int_text i) = i"
  by (simp add: text_int_def int_text_def)

definition link_fields :: "cached_link \<Rightarrow> string list" where
  "link_fields cl = [c_Code cl, c_LongURL cl, int_text (c_UserID cl), int_text (c_Redirect cl),
     int_text (c_ExpiresAt cl), if c_Active cl then ''t'' else ''f'']"

definition enc_link :: "cached_link \<Rightarrow> string" where
  "enc_link cl = concat (map enc_str (link_fields cl))"

fun dec_fields :: "nat \<Rightarrow> string \<Rightarrow> string list option" where
  "dec_fields 0 s = Some []"
| "dec_fields (Suc n) s = (case dec_str s of None \<Rightarrow> None | Some (x, r) \<Rightarrow> map_option ((#) x) (dec_fields n r))"

definition dec_link :: "string \<Rightarrow> cached_link option" where
  "dec_link s =
     (case dec_fields 6 s of
        Some [c, u, i, d, e, b] \<Rightarrow>
          Some \<lparr>c_Code = c, c_LongURL = u, c_UserID = text_int i, c_Redirect = text_int d, c_ExpiresAt = text_int e,
                c_Active = (b = ''t'')\<rparr>
      | _ \<Rightarrow> None)"

lemma dec_fields_enc: "dec_fields (length xs) (concat (map enc_str xs)) = Some xs"
  by (induction xs) auto

definition mem_json :: json_api where
  "mem_json = \<lparr>marshal_link = enc_link, unmarshal_link = dec_link\<rparr>"

lemma mem_roundtrip: "json_roundtrip mem_json"
proof -
  have "dec_fields 6 (enc_link cl) = Some (link_fields cl)" for cl
  proof -
    have "length (link_fields cl) = 6" by (simp add: link_fields_def)
    with dec_fields_enc [of "link_fields cl"] show ?thesis by (simp only: enc_link_def)
  qed
  then have "dec_link (enc_link cl) = Some cl" for cl by (simp add: dec_link_def link_fields_def)
  then show ?thesis by (simp add: json_roundtrip_def mem_json_def)
qed

section \<open>The world\<close>

definition demo_ext :: "(mem_redis, mem_db, string \<times> string, string, string, unit) ext" where
  "demo_ext = \<lparr>x_redis = mem_server, x_json = mem_json, x_pg = mem_exec, x_url = demo_url, x_lower = id, x_upper = id,
     x_fold = (=), x_netip = demo_netip, x_geo = None, x_sort = insert_desc l_CreatedAt,
     x_qr = (\<lambda>_. None), x_static = (\<lambda>_. None)\<rparr>"

lemma demo_world: "world_ok demo_ext mem_tables map_of"
  by (simp add: world_ok_def demo_ext_def mem_serves mem_roundtrip mem_pg_ok)

end
