(* ===== verification/Service.thy ===== *)
theory Service
  imports Testbed
begin

text \<open>
  The service as a whole: boot (\<^verbatim>\<open>warmUp\<close> of \<^verbatim>\<open>backend/main.go\<close>) followed by any sequence of requests,
  click flushes and evictions.  The abstract view is a map from codes to links; each request is
  one step on it.
\<close>

section \<open>Requests\<close>

datatype action =
    A_shorten user "shorten_req option" "i64 list" int int
  | A_delete user
  | A_toggle user
  | A_redirect int int
  | A_root int int
  | A_resolve int
  | A_alias
  | A_list user int
  | A_get user
  | A_qr

fun serve :: "('r, 'db, 'u, 'a, 'p, 'i) ext \<Rightarrow> action \<Rightarrow> request \<Rightarrow> ('r, 'db, 'p) app \<Rightarrow> ('r, 'db, 'p) handled" where
  "serve X (A_shorten u body clock now1 now2) r a = handleShorten X u body clock now1 now2 r a"
| "serve X (A_delete u) r a = handleDeleteLink X u r a"
| "serve X (A_toggle u) r a = handleToggleLink X u r a"
| "serve X (A_redirect now1 now2) r a = handleRedirect X now1 now2 r a"
| "serve X (A_root now1 now2) r a = handleRoot X now1 now2 r a"
| "serve X (A_resolve now) r a = handleResolveJSON X now r a"
| "serve X A_alias r a = handleCheckAlias X r a"
| "serve X (A_list u now) r a = handleListLinks X u now r a"
| "serve X (A_get u) r a = handleGetLink X u r a"
| "serve X A_qr r a = handleQR X r a"

text \<open>The abstract service: what a response says happened to the map.\<close>

fun table_spec ::
  "action \<Rightarrow> request \<Rightarrow> (string \<Rightarrow> cached_link option) \<Rightarrow> json_body response \<Rightarrow> (string \<Rightarrow> cached_link option) \<Rightarrow> bool" where
  "table_spec (A_shorten u _ _ _ _) r rows w rows' = shorten_spec u rows w rows'"
| "table_spec (A_delete u) r rows w rows' = delete_spec u (rq_param r) rows w rows'"
| "table_spec (A_toggle u) r rows w rows' = toggle_spec u (rq_param r) rows w rows'"
| "table_spec (A_redirect now _) r rows w rows' = (rows' = rows \<and> redirect_spec now (rq_param r) rows w)"
| "table_spec A_alias r rows w rows' =
     (rows' = rows \<and> (shown_available (rs_body w) \<longrightarrow> rows (TrimSpace (query_get r ''alias'')) = None))"
| "table_spec _ r rows w rows' = (rows' = rows)"

lemma handleQR_same: "handleQR X r a = Some (w, a') \<Longrightarrow> a' = a"
  by (auto simp: handleQR_def Let_def reply_def split: if_splits option.splits)

lemma serve_refines:
  assumes world: "world_ok X tabs live" and coh: "coherent X tabs live a" and run: "serve X act r a = Some (w, a')"
  shows "coherent X tabs live a' \<and> table_spec act r (stored tabs (a_store a)) w (stored tabs (a_store a'))"
proof (cases act)
  case (A_shorten u body clock now1 now2)
  then show ?thesis using handleShorten_ok [OF world coh] run by simp
next
  case (A_delete u)
  then show ?thesis using handleDeleteLink_ok [OF world coh] run by simp
next
  case (A_toggle u)
  then show ?thesis using handleToggleLink_ok [OF world coh] run by simp
next
  case (A_redirect now1 now2)
  then show ?thesis using redirect_ok [OF world coh, of now1 now2 r "rq_param r" False] run
    by (auto simp: handleRedirect_def steady_def)
next
  case (A_root now1 now2)
  then show ?thesis using handleRoot_ok [OF world coh, of now1 now2 r] run by (auto simp: steady_def)
next
  case (A_resolve now)
  then show ?thesis using handleResolveJSON_ok [OF world coh, of now r] run by (auto simp: steady_def)
next
  case A_alias
  then show ?thesis using handleCheckAlias_ok [OF world coh, of r] run by (auto simp: steady_def)
next
  case (A_list u now)
  then show ?thesis using handleListLinks_ok [OF world coh, of u now r] run by (auto simp: steady_def)
next
  case (A_get u)
  then show ?thesis using handleGetLink_ok [OF world coh, of u r] run by (auto simp: steady_def)
next
  case A_qr
  then show ?thesis using handleQR_same run coh by fastforce
qed

section \<open>Runs\<close>

inductive service_step ::
  "('r, 'db, 'u, 'a, 'p, 'i) ext \<Rightarrow> ('r \<Rightarrow> string \<rightharpoonup> string) \<Rightarrow> ('r, 'db, 'p) app \<Rightarrow> ('r, 'db, 'p) app \<Rightarrow> bool"
  for X live where
  step_serve: "serve X act r a = Some (w, a') \<Longrightarrow> service_step X live a a'"
| step_flush: "permutes_map order \<Longrightarrow>
    service_step X live a (a\<lparr>a_store := flushClicks (x_pg X) order (a_store a)\<rparr>)"
| step_evict: "live s \<subseteq>\<^sub>m live (rdb (a_cache a)) \<Longrightarrow> service_step X live a (a\<lparr>a_cache := a_cache a\<lparr>rdb := s\<rparr>\<rparr>)"
| step_consume: "service_step X live a (a\<lparr>a_bus := b, a_olap := ol\<rparr>)"

inductive service_run ::
  "('r, 'db, 'u, 'a, 'p, 'i) ext \<Rightarrow> ('r \<Rightarrow> string \<rightharpoonup> string) \<Rightarrow> ('r, 'db, 'p) app \<Rightarrow> ('r, 'db, 'p) app \<Rightarrow> bool"
  for X live a0 where
  run_boot: "warmUp X a0 = Some a \<Longrightarrow> service_run X live a0 a"
| run_step: "service_run X live a0 a \<Longrightarrow> service_step X live a a' \<Longrightarrow> service_run X live a0 a'"

lemma service_step_coherent:
  assumes "world_ok X tabs live"
  shows "service_step X live a a' \<Longrightarrow> coherent X tabs live a \<Longrightarrow> coherent X tabs live a'"
proof (induction rule: service_step.induct)
  case (step_serve act r a w a')
  then show ?case using serve_refines [OF assms] by blast
next
  case (step_flush order a)
  then show ?case using flush_steady [OF assms] steady_coherent by blast
next
  case (step_evict s a)
  then show ?case using evict_steady [of X tabs live, THEN steady_coherent] by blast
qed (simp add: coherent_def)

section \<open>Boot\<close>

text \<open>Every row is in the table of its shard.\<close>

definition placed :: "('db \<Rightarrow> tables) \<Rightarrow> 'db store \<Rightarrow> bool" where
  "placed tabs st \<longleftrightarrow> (\<forall>i l. 0 \<le> i \<and> i < ShardCount (st_ring st) \<and> l \<in> set (tabs (db st) (shardTable i)) \<longrightarrow> ShardFor st (l_Code l) = i)"

definition boots ::
  "('r, 'db, 'u, 'a, 'p, 'i) ext \<Rightarrow> ('db \<Rightarrow> tables) \<Rightarrow> ('r \<Rightarrow> string \<rightharpoonup> string) \<Rightarrow> ('r, 'db, 'p) app \<Rightarrow> bool" where
  "boots X tabs live a \<longleftrightarrow> bloom_ok (a_bloom a) \<and> (\<exists>n vn. 0 < n \<and> st_ring (a_store a) = NewRing n vn)
     \<and> placed tabs (a_store a) \<and> unique_codes tabs (a_store a)
     \<and> cache_agrees (x_json X) (live (rdb (a_cache a))) (stored tabs (a_store a))"

lemma find_member: "distinct (map l_Code ls) \<Longrightarrow> x \<in> set ls \<Longrightarrow> find (\<lambda>y. l_Code y = l_Code x) ls = Some x"
  by (induction ls) (auto simp: image_iff)

lemma every_shard_all:
  assumes "pg_ok srv tabs" "every_shard srv Select_all_links shs out st = (Inr ls, st')"
  shows "set ls = set out \<union> (\<Union>sh\<in>set shs. scanLink sh ` set (tabs (db st) (shardTable sh)))"
  using assms(2)
proof (induction shs arbitrary: out st)
  case (Cons sh shs)
  let ?q = "Select_all_links (shardTable sh)"
  obtain r s where run: "run_sql srv ?q st = (r, s)" by (cases "run_sql srv ?q st")
  then obtain rows where r: "r = Inr (sql_reply.Rows rows)" and
    rest: "every_shard srv Select_all_links shs (out @ map (scanLink sh) rows) s = (Inr ls, st')"
    using Cons.prems by (auto split: sum.splits sql_reply.splits)
  have "mset rows = mset (tabs (db st) (shardTable sh))" and v: "tabs (db s) = tabs (db st)"
    using run_sql_reply [OF assms(1) run [unfolded r]] by auto
  then have "set rows = set (tabs (db st) (shardTable sh))" by (metis set_mset_mset)
  then show ?case using Cons.IH [OF rest] v by auto
qed simp

lemma AllCodes_rows:
  assumes pg: "pg_ok srv tabs" and b: "0 < n" "st_ring st = NewRing n vn" and all: "AllCodes srv st = (res, st')"
  shows "tabs (db st') = tabs (db st)" "ShardFor st' = ShardFor st"
    and "res = Inr ls \<Longrightarrow> row_of tabs st code = Some row \<Longrightarrow> \<exists>l\<in>set ls. l_Code l = code"
    and "res = Inr ls \<Longrightarrow> placed tabs st \<Longrightarrow> unique_codes tabs st \<Longrightarrow> l \<in> set ls \<Longrightarrow> stored tabs st (l_Code l) = Some (toCached l)"
proof -
  have c: "ShardCount (st_ring st) = n" using b by (simp add: ShardCount_NewRing)
  have q: "every_shard srv Select_all_links [0..n - 1] [] st = (res, st')"
    using all by (simp add: AllCodes_def queryEveryShard_def c)
  show "tabs (db st') = tabs (db st)" "ShardFor st' = ShardFor st"
    using every_shard_reads [OF pg _ q] by auto
  note ls = every_shard_all [OF pg, of "[0..n - 1]" "[]" st]
  show "\<exists>l\<in>set ls. l_Code l = code" if r: "res = Inr ls" "row_of tabs st code = Some row"
  proof -
    have sh: "0 \<le> ShardFor st code" "ShardFor st code < n" using Get_range [OF b(1)] by (simp_all add: ShardFor_def b(2))
    have "row \<in> set (tabs (db st) (shardTable (ShardFor st code)))"
      using that(2) by (metis row_of_def find_Some_iff nth_mem)
    then have "scanLink (ShardFor st code) row \<in> set ls" using ls q r(1) sh by auto
    then show ?thesis using row_of_code [OF r(2)] by (auto simp: scanLink_def intro!: bexI [of _ "scanLink (ShardFor st code) row"])
  qed
  show "stored tabs st (l_Code l) = Some (toCached l)"
    if r: "res = Inr ls" "placed tabs st" "unique_codes tabs st" "l \<in> set ls"
  proof -
    obtain sh x where x: "0 \<le> sh" "sh < n" "x \<in> set (tabs (db st) (shardTable sh))" "l = scanLink sh x"
      using ls q r(1,4) by auto
    have code: "l_Code l = l_Code x" by (simp add: x(4) scanLink_def)
    have "ShardFor st (l_Code x) = sh" using r(2) x c by (auto simp: placed_def)
    moreover have "find (\<lambda>y. l_Code y = l_Code x) (tabs (db st) (shardTable sh)) = Some x"
      using r(3) x(3) by (auto simp: unique_codes_def intro: find_member)
    ultimately show ?thesis by (simp add: stored_def row_of_def x(4)) (simp add: scanLink_def)
  qed
qed


lemma bloom_all_ok:
  assumes "bloom_ok (a_bloom a)"
  shows "\<exists>b. bloom_all ls a = Some (a\<lparr>a_bloom := b\<rparr>) \<and> bloom_ok b \<and> (\<forall>l\<in>set ls. MayContain b (l_Code l) = Some True)
    \<and> (\<forall>s. MayContain (a_bloom a) s = Some True \<longrightarrow> MayContain b s = Some True)"
  using assms
proof (induction ls arbitrary: a)
  case Nil
  then show ?case by (auto intro: exI [of _ "a_bloom a"])
next
  case (Cons l ls)
  from bloom_add_ok [OF Cons.prems, of "l_Code l"] obtain b where b: "bloom_add (l_Code l) a = Some (a\<lparr>a_bloom := b\<rparr>)" "bloom_ok b"
    "MayContain b (l_Code l) = Some True" "\<forall>s. MayContain (a_bloom a) s = Some True \<longrightarrow> MayContain b s = Some True" by blast
  from Cons.IH [of "a\<lparr>a_bloom := b\<rparr>"] b(2) show ?case using b by auto
qed

lemma bloom_all_store: "bloom_all ls a = Some a' \<Longrightarrow> a_store a' = a_store a \<and> demoCodes a' = demoCodes a"
  by (induction ls arbitrary: a) (auto simp: bloom_add_def split: option.splits)

lemma same_but_bloom_demo:
  assumes "same_but_bloom a a'"
  shows "demoCodes a' = demoCodes a"
proof -
  from assms obtain b where "a' = a\<lparr>a_bloom := b\<rparr>" unfolding same_but_bloom_def by blast
  then show ?thesis by simp
qed

text \<open>The cache may be behind on the codes in \<open>S\<close>; warming brings the codes it writes up to date.\<close>

definition agrees_off :: "string set \<Rightarrow> json_api \<Rightarrow> (string \<rightharpoonup> string) \<Rightarrow> (string \<Rightarrow> cached_link option) \<Rightarrow> bool" where
  "agrees_off S J m rows \<longleftrightarrow>
     (\<forall>code v. code \<notin> S \<and> m (linkKey code) = Some v \<longrightarrow> map_option (marshal_link J) (rows code) = Some v)"

lemma agrees_off_none [simp]: "agrees_off {} J m rows = cache_agrees J m rows"
  by (simp add: agrees_off_def cache_agrees_def)

lemma agrees_off_put:
  "agrees_off S J m rows \<Longrightarrow> rows c = Some cl \<Longrightarrow> agrees_off (S - {c}) J (m(linkKey c \<mapsto> marshal_link J cl)) rows"
  by (auto simp: agrees_off_def)

lemma warm_agrees:
  assumes "\<forall>l\<in>set ls. rows (l_Code l) = Some (toCached l)" "agrees_off S J m rows"
  shows "agrees_off (S - l_Code ` set ls) J
    (fold (\<lambda>(k, v, t) m. m(k \<mapsto> v)) (map (\<lambda>l. (linkKey (l_Code l), marshal_link J (toCached l), tt)) ls) m) rows"
  using assms
proof (induction ls arbitrary: m S)
  case (Cons l ls)
  have "agrees_off (S - {l_Code l}) J (m(linkKey (l_Code l) \<mapsto> marshal_link J (toCached l))) rows"
    by (rule agrees_off_put) (use Cons.prems in simp_all)
  moreover have "S - {l_Code l} - l_Code ` set ls = S - l_Code ` set (l # ls)" by auto
  ultimately show ?case using Cons.IH [of "S - {l_Code l}"] Cons.prems(1) by (simp del: fun_upd_apply)
qed simp

lemma warmUp_refreshes:
  assumes world: "world_ok X tabs live" and bloom: "bloom_ok (a_bloom a)" and ring: "0 < n" "st_ring (a_store a) = NewRing n vn"
    and shards: "placed tabs (a_store a)" "unique_codes tabs (a_store a)"
    and cache: "agrees_off S (x_json X) (live (rdb (a_cache a))) (stored tabs (a_store a))" "S \<subseteq> dom (stored tabs (a_store a))"
    and codes: "AllCodes (x_pg X) (a_store a) = (Inr ls, st)" "S = {} \<or> length ls \<le> cacheWarmLinks"
  shows "\<exists>a'. warmUp X a = Some a' \<and> coherent X tabs live a' \<and> stored tabs (a_store a') = stored tabs (a_store a)"
proof -
  have pg: "pg_ok (x_pg X) tabs" and R: "redis_serves (x_redis X) live" using world by (simp_all add: world_ok_def)
  note all = AllCodes_rows [OF pg ring codes(1)]
  let ?rows = "stored tabs (a_store a)" and ?warm = "take (min cacheWarmLinks (length ls)) ls"
  let ?c = "snd (Warm (x_redis X) (x_json X) ls cacheWarmLinks (a_cache a))"
  let ?a1 = "a\<lparr>a_store := st, a_cache := ?c\<rparr>"
  have s: "stored tabs st = ?rows" by (rule stored_cong [of tabs, OF all(1,2)])
  have rows: "\<forall>l\<in>set ls. ?rows (l_Code l) = Some (toCached l)" using all(4) shards by auto
  have known: "c \<in> l_Code ` set ls" if "?rows c \<noteq> None" for c
    using all(3) [of ls c] that unfolding stored_def by (metis image_eqI not_None_eq option.map_disc_iff)
  have live: "live (rdb ?c) = fold (\<lambda>(k, v, t) m. m(k \<mapsto> v))
      (map (\<lambda>l. (linkKey (l_Code l), marshal_link (x_json X) (toCached l), ttl (a_cache a))) ?warm) (live (rdb (a_cache a)))"
    using R by (simp add: Warm_def Let_def redis_serves_def)
  have "\<forall>l\<in>set ?warm. ?rows (l_Code l) = Some (toCached l)" using rows by (meson in_set_takeD)
  from warm_agrees [OF this cache(1)] have "agrees_off (S - l_Code ` set ?warm) (x_json X) (live (rdb ?c)) ?rows"
    unfolding live .
  moreover have "S - l_Code ` set ?warm = {}" using codes(2) known cache(2) by auto
  ultimately have agrees: "cache_agrees (x_json X) (live (rdb ?c)) ?rows" by simp
  have "bloom_ok (a_bloom ?a1)" using bloom by simp
  from bloom_all_ok [OF this, of ls] obtain b where b: "bloom_all ls ?a1 = Some (?a1\<lparr>a_bloom := b\<rparr>)" "bloom_ok b"
    "\<forall>l\<in>set ls. MayContain b (l_Code l) = Some True" by blast
  have "filter_covers b ?rows" using known b(3) by (auto simp: filter_covers_def)
  then have "coherent X tabs live (?a1\<lparr>a_bloom := b\<rparr>)"
    using shards b(2) agrees s all(1) by (simp add: coherent_def unique_codes_def)
  then show ?thesis using b(1) s by (auto simp: warmUp_def codes(1) Let_def)
qed

lemma warmUp_coherent:
  assumes world: "world_ok X tabs live" and boot: "boots X tabs live a"
    and codes: "AllCodes (x_pg X) (a_store a) = (Inr ls, st)"
  shows "\<exists>a'. warmUp X a = Some a' \<and> coherent X tabs live a' \<and> stored tabs (a_store a') = stored tabs (a_store a)"
  using boot warmUp_refreshes [OF world, of a _ _ "{}" ls st] codes by (auto simp: boots_def)

lemma run_coherent:
  assumes world: "world_ok X tabs live" and boot: "boots X tabs live a0"
    and codes: "AllCodes (x_pg X) (a_store a0) = (Inr ls, st)"
  shows "service_run X live a0 a \<Longrightarrow> coherent X tabs live a"
proof (induction rule: service_run.induct)
  case (run_boot a)
  then show ?case using warmUp_coherent [OF assms] by auto
next
  case (run_step a a')
  then show ?case using service_step_coherent [OF world] by blast
qed


section \<open>The application at start\<close>

definition busRetention :: nat where "busRetention = 200000"

text \<open>
  \<^verbatim>\<open>newApp\<close> with the connections that \<^verbatim>\<open>main\<close> adds.  \<open>mEst\<close> and \<open>kEst\<close> are the floating-point estimates
  for a million codes, and \<open>index\<close> says whether the static directory holds an index page.
\<close>

definition newApp ::
  "'p config \<Rightarrow> u64 \<Rightarrow> (u64 \<Rightarrow> u64) \<Rightarrow> bool \<Rightarrow> 'db \<Rightarrow> 'r \<Rightarrow> ('r, 'db, 'p) app" where
  "newApp cfg mEst kEst index d s =
     \<lparr>a_cfg = cfg, a_ids = NewSnowflake (word_of_int (cfg_NodeID cfg)),
      a_store = \<lparr>db = d, st_ring = NewRing (cfg_ShardCount cfg) (cfg_VNodes cfg), pendingClicks = [], shardStats = None\<rparr>,
      a_cache = \<lparr>rdb = s, ttl = cfg_CacheTTL cfg * 1000, Hits = 0, Misses = 0, Sets = 0, Errors = 0, Warmed = 0,
                 serverAt = None, serverSnap = zero_stats\<rparr>,
      a_bus = NewBroker ''clicks'' (nat (cfg_Partitions cfg)) busRetention,
      a_olap = NewOLAP (cfg_RetentionDays cfg), a_bloom = NewBloom mEst kEst,
      a_static = (if index then cfg_StaticDir cfg else []),
      demoCodes = [], demoUserID = 0, adminID = 0, benchLinks = [], redirects = 0, unknownCodes = 0\<rparr>"

lemma newApp_boots:
  fixes cfg mEst kEst index d s
  defines "a \<equiv> newApp cfg mEst kEst index d s"
  assumes "mEst \<le> 0x8000000000000000" "0 < cfg_ShardCount cfg" "placed tabs (a_store a)" "unique_codes tabs (a_store a)"
    and "cache_agrees (x_json X) (live s) (stored tabs (a_store a))"
  shows "boots X tabs live a"
  using assms(2-) NewBloom_ok(1) [OF assms(2), of kEst] unfolding a_def by (auto simp: boots_def newApp_def)

section \<open>The two halves of a cache fill\<close>

text \<open>\<^verbatim>\<open>resolve\<close> up to the answer of the shard, and the write to Redis that follows it.\<close>

definition resolve_read ::
  "('r, 'db, 'u, 'a, 'p, 'i) ext \<Rightarrow> string \<Rightarrow> ('r, 'db, 'p) app
     \<Rightarrow> (((go_error + cached_link \<times> bool) + link) \<times> ('r, 'db, 'p) app) option" where
  "resolve_read X code a =
     (if \<not> codeShape code then Some (Inl (Inl Err_unknown_code), a)
      else let (hit, c) = Cache.Get (x_redis X) (x_json X) code (a_cache a); a1 = a\<lparr>a_cache := c\<rparr>
           in case hit of
                Some cl \<Rightarrow> Some (Inl (Inr (cl, True)), a1)
              | None \<Rightarrow>
                  (case bloomRulesOut code a1 of
                     None \<Rightarrow> None
                   | Some (True, a2) \<Rightarrow> Some (Inl (Inl Err_unknown_code), a2)
                   | Some (False, a2) \<Rightarrow>
                       let (l, st) = GetByCode (x_pg X) code (a_store a2); a3 = a2\<lparr>a_store := st\<rparr>
                       in (case l of
                             Inl Err_no_rows \<Rightarrow> Some (Inl (Inl Err_unknown_code), false_positive a3)
                           | Inl e \<Rightarrow> Some (Inl (Inl e), a3)
                           | Inr l \<Rightarrow> Some (Inr l, a3))))"

definition fill :: "('r, 'db, 'u, 'a, 'p, 'i) ext \<Rightarrow> link \<Rightarrow> ('r, 'db, 'p) app \<Rightarrow> ('r, 'db, 'p) app" where
  "fill X l a = a\<lparr>a_cache := Cache.Set (x_redis X) (x_json X) l (a_cache a)\<rparr>"

lemma resolve_split:
  "resolve X code a =
     map_option (\<lambda>(r, a'). case r of Inl res \<Rightarrow> (res, a') | Inr l \<Rightarrow> (Inr (toCached l, False), fill X l a')) (resolve_read X code a)"
  by (simp add: resolve_def resolve_read_def Let_def fill_def split: prod.split option.split bool.split sum.split go_error.split)

lemma resolve_read_coherent:
  assumes world: "world_ok X tabs live" and coh: "coherent X tabs live a" and r: "resolve_read X code a = Some (Inr l, a1)"
  shows "coherent X tabs live a1" "l_Code l = code" "codeShape code"
proof -
  show shape: "codeShape code" using r by (auto simp: resolve_read_def split: if_splits)
  let ?get = "Cache.Get (x_redis X) (x_json X) code (a_cache a)"
  obtain hit c where get: "?get = (hit, c)" by (cases ?get)
  have agr: "cache_agrees (x_json X) (live (rdb (a_cache a))) (stored tabs (a_store a))" using coh by (simp add: coherent_def)
  have coh1: "coherent X tabs live (a\<lparr>a_cache := c\<rparr>)" using coh Get_agrees(1) [OF world agr get] by (simp add: coherent_def)
  have miss: "hit = None" using r shape get by (cases hit) (auto simp: resolve_read_def Let_def)
  obtain b a2 where b: "bloomRulesOut code (a\<lparr>a_cache := c\<rparr>) = Some (b, a2)" "steady X tabs live (a\<lparr>a_cache := c\<rparr>) a2"
    by (rule bloomRulesOut_steady [where code = code, OF coh1])
  obtain v st where q: "GetByCode (x_pg X) code (a_store a2) = (v, st)" by (cases "GetByCode (x_pg X) code (a_store a2)")
  have a1: "v = Inr l" "a1 = a2\<lparr>a_store := st\<rparr>"
    using r shape get miss b(1) q by (auto simp: resolve_read_def Let_def split: bool.splits sum.splits go_error.splits)
  show "coherent X tabs live a1" using resolve_db(2) [OF world steady_coherent [OF b(2)] q] a1 by simp
  have pg: "pg_ok (x_pg X) tabs" using world by (simp add: world_ok_def)
  from GetByCode_row(4) [OF pg q a1(1)] show "l_Code l = code" by (auto simp: scanLink_def row_of_code)
qed


section \<open>Properties\<close>

text \<open>The service implements a table of links.  From boot on, whatever requests were served, clicks
  flushed, keys evicted from Redis and statements refused by a shard, each response is what an
  abstract map from codes to links would give: a link is created only under a free code, by
  and for its owner; deleted or toggled only by its owner; a redirect goes to the stored target
  exactly when the link is stored, enabled and not expired; a refused request changes nothing;
  and no other request changes the map.\<close>

theorem service_refines:
  assumes "world_ok X tabs live" "boots X tabs live a0" "AllCodes (x_pg X) (a_store a0) = (Inr ls, st)"
    and "service_run X live a0 a" "serve X act r a = Some (w, a')"
  shows "table_spec act r (stored tabs (a_store a)) w (stored tabs (a_store a'))"
  using serve_refines [OF assms(1) run_coherent [OF assms(1-4)] assms(5)] by blast

definition demo_env :: environment where
  "demo_env k = (if k = ''SHARD_COUNT'' then ''1'' else if k = ''RING_VNODES'' then ''0'' else [])"

definition demo_db :: mem_db where
  "demo_db = ([(''links_s0'', [demo_link\<lparr>l_Code := ''docs1''\<rparr>])], [])"

definition demo_app :: "(mem_redis, mem_db, string) app" where
  "demo_app = newApp (loadConfig demo_netip id demo_env) 128 (\<lambda>_. 3) False demo_db []"

lemma demo_config: "cfg_ShardCount (loadConfig demo_netip id demo_env) = 1"
proof -
  have "envInt demo_env ''SHARD_COUNT'' 4 = 1" by code_simp
  then show ?thesis by (simp add: loadConfig_def Let_def)
qed

lemma demo_store_of [simp]: "db (a_store demo_app) = demo_db" "ShardFor (a_store demo_app) c = 0"
  using Get_range [of 1 "cfg_VNodes (loadConfig demo_netip id demo_env)" c]
  by (simp_all add: demo_app_def newApp_def ShardFor_def demo_config)

lemma demo_tables: "mem_tables demo_db t = (if t = ''links_s0'' then [demo_link\<lparr>l_Code := ''docs1''\<rparr>] else [])"
  by (simp add: mem_tables_def demo_db_def mget_def)

lemma demo_boots: "boots demo_ext mem_tables map_of demo_app"
  unfolding demo_app_def
proof (rule newApp_boots, fold demo_app_def)
  show "placed mem_tables (a_store demo_app)"
    by (auto simp: placed_def) (simp add: demo_app_def newApp_def demo_config ShardCount_NewRing)
  show "unique_codes mem_tables (a_store demo_app)" by (simp add: unique_codes_def demo_tables)
qed (simp_all add: cache_agrees_def demo_config)

lemma demo_shard_count: "ShardCount (st_ring (a_store demo_app)) = 1"
  by (simp add: demo_app_def newApp_def demo_config ShardCount_NewRing)

lemma demo_store_db [simp]: "a_store demo_app\<lparr>db := demo_db\<rparr> = a_store demo_app"
  by (simp add: demo_app_def newApp_def)

lemma demo_exec: "mem_exec q demo_db = (fst (mem_sql q (fst demo_db)), (snd (mem_sql q (fst demo_db)), []))"
  by (simp add: demo_db_def split: prod.split)

lemma demo_db_pair [simp]: "(fst demo_db, []) = demo_db"
  by (simp add: demo_db_def)

lemma demo_codes: "\<exists>ls. AllCodes (x_pg demo_ext) (a_store demo_app) = (Inr ls, a_store demo_app)"
  by (simp add: AllCodes_def queryEveryShard_def demo_shard_count demo_ext_def upto_rec1 run_sql_def demo_exec)

lemma demo_stored: "stored mem_tables (a_store demo_app) ''docs1'' = Some (toCached (demo_link\<lparr>l_Code := ''docs1''\<rparr>))"
proof -
  have "shardTable 0 = ''links_s0''" by code_simp
  then show ?thesis by (simp add: stored_def row_of_def demo_tables)
qed

lemma demo_boot_run:
  obtains a where "warmUp demo_ext demo_app = Some a" "coherent demo_ext mem_tables map_of a"
    "a_store a = a_store demo_app" "demoCodes a = []"
proof -
  from demo_codes obtain ls where c: "AllCodes (x_pg demo_ext) (a_store demo_app) = (Inr ls, a_store demo_app)" by blast
  from warmUp_coherent [OF demo_world demo_boots c] obtain a where
    a: "warmUp demo_ext demo_app = Some a" "coherent demo_ext mem_tables map_of a" by blast
  have "demoCodes demo_app = []" by (simp add: demo_app_def newApp_def)
  moreover have "a_store a = a_store demo_app \<and> demoCodes a = demoCodes demo_app"
    using a(1) by (auto simp: warmUp_def c Let_def dest!: bloom_all_store)
  ultimately show thesis using that a by simp
qed

theorem service_refines_witness:
  "\<exists>a w a'. service_run demo_ext map_of demo_app a
     \<and> serve demo_ext (A_redirect 0 0) (demo_request\<lparr>rq_param := ''docs1''\<rparr>) a = Some (w, a')
     \<and> (rs_status w = 503 \<or> rs_status w = 302 \<and> mget [] (rs_headers w) ''Location'' = ''https://x.y'')"
proof -
  let ?r = "demo_request\<lparr>rq_param := ''docs1''\<rparr>"
  obtain a where a: "warmUp demo_ext demo_app = Some a" "coherent demo_ext mem_tables map_of a"
    "a_store a = a_store demo_app" by (rule demo_boot_run)
  from demo_codes obtain ls where c: "AllCodes (x_pg demo_ext) (a_store demo_app) = (Inr ls, a_store demo_app)" by blast
  have run: "service_run demo_ext map_of demo_app a" by (rule run_boot [OF a(1)])
  obtain w a' where w: "serve demo_ext (A_redirect 0 0) ?r a = Some (w, a')"
    using redirect_ok [OF demo_world a(2), of 0 0 ?r "''docs1''" False] by (auto simp: handleRedirect_def)
  have "codeShape ''docs1''" by code_simp
  with service_refines [OF demo_world demo_boots c run w] a(3) demo_stored
  have "rs_status w = 503 \<or> rs_status w = 302 \<and> mget [] (rs_headers w) ''Location'' = ''https://x.y''"
    by (auto simp: redirect_spec_def demo_request_def demo_link_def toCached_def Expired_def redirectStatus_def)
  with run w show ?thesis by blast
qed



text \<open>The alias preview and the check made when a link is created agree.  For the same state they call
  an alias available in exactly the same cases, leave the same state behind (the filter's
  counters included), and panic in the same cases.\<close>

theorem alias_preview_agrees:
  "map_option (map_prod (shown_available \<circ> rs_body) id) (handleCheckAlias X r a) =
     map_option (map_prod (\<lambda>e. e = None) id) (checkAliasFree X (TrimSpace (query_get r ''alias'')) a)"
  by (rule preview_agrees)

text \<open>A failed warm-up hides every link.  When the listing at boot fails, the warm-up is skipped and the
  service starts with an empty Bloom filter: every well-formed code that is not in Redis
  resolves as unknown, without asking its shard, whatever the shard stores.\<close>

theorem warmUp_failure_hides_links:
  assumes "redis_serves (x_redis X) live" "AllCodes (x_pg X) (a_store a) = (Inl e, st)"
    and "a_bloom a = NewBloom mEst kEst" "mEst \<le> 0x8000000000000000"
    and "codeShape code" "live (rdb (a_cache a)) (linkKey code) = None"
  shows "\<exists>a1 a2. warmUp X a = Some a1 \<and> resolve X code a1 = Some (Inl Err_unknown_code, a2)
    \<and> a_store a1 = st \<and> a_store a2 = st"
proof -
  let ?a1 = "a\<lparr>a_store := st\<rparr>"
  let ?get = "Cache.Get (x_redis X) (x_json X) code (a_cache a)"
  obtain hit c where get: "?get = (hit, c)" by (cases ?get)
  have miss: "hit = None" using Get_live [OF assms(1), of "x_json X" code "a_cache a"] get assms(6) by simp
  note nb = NewBloom_ok [OF assms(4), of kEst]
  have "key_positions (NewBloom mEst kEst) code \<noteq> {}" using positions_ok [OF nb(1), of code] by auto
  then have "MayContain (NewBloom mEst kEst) code = Some False"
    using MayContain_ok [OF nb(1), of code] nb(2) by simp
  then have rule: "\<exists>a2. bloomRulesOut code (?a1\<lparr>a_cache := c\<rparr>) = Some (True, a2) \<and> a_store a2 = st"
    using bloomRulesOut_ok [of "?a1\<lparr>a_cache := c\<rparr>" code] same_but_bloom_store nb(1) assms(3) by fastforce
  then show ?thesis using assms(2,5) get miss by (auto simp: warmUp_def resolve_def Let_def)
qed


theorem warmUp_failure_hides_links_witness:
  "\<exists>a1 a2. warmUp demo_ext (demo_app\<lparr>a_store := a_store demo_app\<lparr>db := (fst demo_db, [True])\<rparr>\<rparr>) = Some a1
     \<and> stored mem_tables (a_store a1) ''docs1'' \<noteq> None
     \<and> resolve demo_ext ''docs1'' a1 = Some (Inl Err_unknown_code, a2)"
proof -
  let ?a = "demo_app\<lparr>a_store := a_store demo_app\<lparr>db := (fst demo_db, [True])\<rparr>\<rparr>"
  let ?st = "a_store demo_app\<lparr>db := (fst demo_db, [])\<rparr>"
  have c: "AllCodes (x_pg demo_ext) (a_store ?a) = (Inl (Err_other ''connection lost''), ?st)"
    by (simp add: AllCodes_def queryEveryShard_def demo_shard_count demo_ext_def upto_rec1 run_sql_def)
  have s: "stored mem_tables ?st = stored mem_tables (a_store demo_app)"
    by (rule stored_cong) (simp_all add: mem_tables_def ShardFor_def fun_eq_iff)
  have "codeShape ''docs1''" by code_simp
  from warmUp_failure_hides_links [OF _ c _ _ this, of map_of 128 "\<lambda>_. 3"] mem_serves
  obtain a1 a2 where "warmUp demo_ext ?a = Some a1" "resolve demo_ext ''docs1'' a1 = Some (Inl Err_unknown_code, a2)" "a_store a1 = ?st"
    by (auto simp: demo_ext_def demo_app_def newApp_def)
  then show ?thesis using demo_stored s by auto
qed

text \<open>C39: a deletion can be undone in Redis.  The comment on \<^verbatim>\<open>handleDeleteLink\<close> says that every place a code
  lives is cleared.  If the deletion is served between the shard lookup of a concurrent
  resolve and the cache fill that ends it, the fill puts the deleted link back: no shard has
  the code any more, and yet the next resolve finds it in Redis.\<close>

theorem late_fill_revives_deleted:
  assumes world: "world_ok X tabs live" and coh: "coherent X tabs live a"
    and reader: "resolve_read X code a = Some (Inr l, a1)"
    and delete: "handleDeleteLink X u r a1 = Some (w, a2)" "rq_param r = code" "rs_body w = JSON J_deleted"
  shows "stored tabs (a_store (fill X l a2)) code = None
    \<and> (\<exists>a3. resolve X code (fill X l a2) = Some (Inr (toCached l, True), a3))"
proof -
  note r = resolve_read_coherent [OF world coh reader]
  have R: "redis_serves (x_redis X) live" and J: "json_roundtrip (x_json X)" using world by (simp_all add: world_ok_def)
  have "delete_spec u code (stored tabs (a_store a1)) w (stored tabs (a_store a2))"
    using handleDeleteLink_ok [OF world r(1) delete(1)] delete(2) by simp
  then have gone: "stored tabs (a_store (fill X l a2)) code = None" using delete(3) by (simp add: delete_spec_def fill_def)
  let ?c = "Cache.Set (x_redis X) (x_json X) l (a_cache a2)"
  have "fst (Cache.Get (x_redis X) (x_json X) code ?c) = Some (toCached l)"
    using Get_live [OF R, of "x_json X" code ?c] J by (simp add: Set_live [OF R] r(2) json_roundtrip_def)
  then obtain c' where "Cache.Get (x_redis X) (x_json X) code ?c = (Some (toCached l), c')" by (metis prod.collapse)
  then show ?thesis using gone r(3) by (simp add: resolve_def fill_def)
qed


theorem late_fill_revives_deleted_witness:
  "\<exists>a a1 l w a2 a3. coherent demo_ext mem_tables map_of a \<and> resolve_read demo_ext ''docs1'' a = Some (Inr l, a1)
     \<and> handleDeleteLink demo_ext \<lparr>u_ID = 7, u_Email = [], u_Name = [], u_Role = [], u_CreatedAt = 0\<rparr>
         (demo_request\<lparr>rq_param := ''docs1''\<rparr>) a1 = Some (w, a2) \<and> rs_body w = JSON J_deleted
     \<and> stored mem_tables (a_store (fill demo_ext l a2)) ''docs1'' = None
     \<and> resolve demo_ext ''docs1'' (fill demo_ext l a2) = Some (Inr (toCached l, True), a3)"
proof -
  let ?u = "\<lparr>u_ID = 7, u_Email = [], u_Name = [], u_Role = [], u_CreatedAt = 0\<rparr>" and ?r = "demo_request\<lparr>rq_param := ''docs1''\<rparr>"
  obtain b where b: "coherent demo_ext mem_tables map_of b" "a_store b = a_store demo_app" "demoCodes b = []" by (rule demo_boot_run)
  define a where "a = b\<lparr>a_cache := a_cache b\<lparr>rdb := []\<rparr>\<rparr>"
  have a: "coherent demo_ext mem_tables map_of a" "a_store a = a_store demo_app" "demoCodes a = []" "rdb (a_cache a) = []"
    using evict_steady [OF b(1), of "[]", THEN steady_coherent] b by (simp_all add: a_def)
  have shape: "codeShape ''docs1''" by code_simp
  let ?get = "Cache.Get (x_redis demo_ext) (x_json demo_ext) ''docs1'' (a_cache a)"
  obtain hit c where get: "?get = (hit, c)" by (cases ?get)
  have miss: "hit = None" using Get_live [OF mem_serves, of "x_json demo_ext" "''docs1''" "a_cache a"] get a(4)
    by (simp add: demo_ext_def)
  have ok: "bloom_ok (a_bloom (a\<lparr>a_cache := c\<rparr>))" and may: "MayContain (a_bloom a) ''docs1'' = Some True"
    using a(1) demo_stored unfolding coherent_def filter_covers_def a(2) by auto
  from bloomRulesOut_ok [OF ok, of "''docs1''"] may obtain a' where
    rule: "bloomRulesOut ''docs1'' (a\<lparr>a_cache := c\<rparr>) = Some (False, a')" and same: "same_but_bloom (a\<lparr>a_cache := c\<rparr>) a'"
    by auto
  then have st: "a_store a' = a_store demo_app" "demoCodes a' = []"
    using same_but_bloom_store [OF same] same_but_bloom_demo [OF same] a(2,3) by simp_all
  have t0: "shardTable 0 = ''links_s0''" by code_simp
  have rows: "mget [] (fst demo_db) ''links_s0'' = [demo_link\<lparr>l_Code := ''docs1''\<rparr>]" by (simp add: demo_db_def mget_def)
  let ?l = "scanLink 0 (demo_link\<lparr>l_Code := ''docs1''\<rparr>)"
  have q: "GetByCode (x_pg demo_ext) ''docs1'' (a_store demo_app) = (Inr ?l, a_store demo_app)"
    by (simp add: GetByCode_def run_sql_def demo_ext_def t0 link_row_def scan_first_def demo_exec rows)
  then have reader: "resolve_read demo_ext ''docs1'' a = Some (Inr ?l, a')"
    using shape get miss rule st by (simp add: resolve_read_def)
  obtain st' where "DeleteLink (x_pg demo_ext) ''docs1'' 7 (a_store demo_app) = (Inr True, st')"
    by (simp add: DeleteLink_def run_sql_def demo_ext_def t0 demo_exec rows) (simp add: demo_link_def)
  then obtain w a2 where del: "handleDeleteLink demo_ext ?u ?r a' = Some (w, a2)" "rs_body w = JSON J_deleted"
    using st by (simp add: handleDeleteLink_def isDemo_def reply_def Let_def)
  from late_fill_revives_deleted [OF demo_world a(1) reader del(1) _ del(2)] a(1) reader del show ?thesis
    by (auto simp: demo_request_def)
qed

end
