(* ===== verification/Auth.thy ===== *)
theory Auth
  imports Service
begin

text \<open>
  \<^verbatim>\<open>backend/auth.go\<close> and \<^verbatim>\<open>backend/handlers_auth.go\<close>: passwords, session tokens, the \<^verbatim>\<open>requireAuth\<close>
  middleware and the account handlers.  The packages for bcrypt, JWT and mail addresses are an
  argument (\<open>auth_api\<close>), as are the instants a handler reads and the random bytes it draws.
  Instants and durations are nanoseconds.  The contract on Redis in the second half has a
  clock and deadlines, so that the expiry of a revocation is part of the statements.
\<close>

section \<open>Constants\<close>

definition accessTTL :: int where "accessTTL = 12 * 3600 * 1000000000"
definition refreshTTL :: int where "refreshTTL = 7 * 24 * 3600 * 1000000000"
definition accessCookie :: string where "accessCookie = ''kortex_access''"
definition refreshCookie :: string where "refreshCookie = ''kortex_refresh''"
definition refreshPath :: string where "refreshPath = ''/api/auth''"
definition tokenIssuer :: string where "tokenIssuer = ''kortex''"
definition bcryptCost :: nat where "bcryptCost = 11"
definition kindAccess :: string where "kindAccess = ''access''"
definition kindRefresh :: string where "kindRefresh = ''refresh''"

definition authPerMinute :: int where "authPerMinute = 10"
definition maxFailedLogins :: int where "maxFailedLogins = 5"
definition maxNameLen :: nat where "maxNameLen = 80"
definition maxPassBytes :: nat where "maxPassBytes = 72"
definition minPassBytes :: nat where "minPassBytes = 8"
definition maxEmailLen :: nat where "maxEmailLen = 254"
definition msgAccountExists :: string where "msgAccountExists = ''an account with this email already exists''"

section \<open>Packages\<close>

record claims =
  cl_Email :: string
  cl_Kind :: string
  cl_ID :: string
  cl_Subject :: string
  cl_ExpiresAt :: "int option"
  cl_IssuedAt :: "int option"
  cl_Issuer :: string

record parse_options =
  po_methods :: "string list"
  po_issuer :: string
  po_exp_required :: bool

text \<open>
  \<open>bc_generate\<close> takes the password, the cost and the salt it draws; \<open>jwt_parse\<close> the secret, the
  options, the current time and the token, and gives the claims if they have the requested
  type, and the \<^verbatim>\<open>Valid\<close> flag.
\<close>

record auth_api =
  bc_generate :: "string \<Rightarrow> nat \<Rightarrow> string \<Rightarrow> go_error + string"
  bc_compare :: "string \<Rightarrow> string \<Rightarrow> bool"
  jwt_sign :: "string \<Rightarrow> claims \<Rightarrow> string \<Rightarrow> go_error + string"
  jwt_parse :: "string \<Rightarrow> parse_options \<Rightarrow> int \<Rightarrow> string \<Rightarrow> go_error + (claims option \<times> bool)"
  mail_ParseAddress :: "string \<Rightarrow> string option"

section \<open>Passwords and random identifiers\<close>

definition hashPassword :: "auth_api \<Rightarrow> string \<Rightarrow> string \<Rightarrow> go_error + string" where
  "hashPassword A p salt = bc_generate A p bcryptCost salt"

definition verifyPassword :: "auth_api \<Rightarrow> string \<Rightarrow> string \<Rightarrow> bool" where
  "verifyPassword A plain hashed = bc_compare A hashed plain"

definition dummyHash :: "auth_api \<Rightarrow> string \<Rightarrow> string" where
  "dummyHash A salt = (case hashPassword A ''kortex-timing-equaliser'' salt of Inl _ \<Rightarrow> [] | Inr h \<Rightarrow> h)"

definition hex_digit :: "nat \<Rightarrow> char" where
  "hex_digit n = ''0123456789abcdef'' ! n"

definition EncodeToString :: "char list \<Rightarrow> string" where
  "EncodeToString bs = concat (map (\<lambda>c. [hex_digit (of_char c div 16), hex_digit (of_char c mod 16)]) bs)"

text \<open>The argument is what \<^verbatim>\<open>crypto/rand\<close> delivers.\<close>

definition randomHex :: "char list \<Rightarrow> string" where
  "randomHex rnd = EncodeToString (take 16 rnd)"

section \<open>Tokens\<close>

text \<open>\<^verbatim>\<open>jwt.NewNumericDate\<close> cuts an instant to whole seconds.\<close>

definition NewNumericDate :: "int \<Rightarrow> int" where
  "NewNumericDate t = t div 1000000000 * 1000000000"

definition issueToken ::
  "auth_api \<Rightarrow> 'p config \<Rightarrow> user \<Rightarrow> string \<Rightarrow> int \<Rightarrow> int \<times> char list \<Rightarrow> go_error + string" where
  "issueToken A cfg u kind lifetime = (\<lambda>(now, rnd).
     jwt_sign A ''HS256''
       \<lparr>cl_Email = u_Email u, cl_Kind = kind, cl_ID = randomHex rnd, cl_Subject = itoa (u_ID u),
        cl_ExpiresAt = Some (NewNumericDate (now + lifetime)), cl_IssuedAt = Some (NewNumericDate now),
        cl_Issuer = tokenIssuer\<rparr> (cfg_JWTSecret cfg))"

definition parse_opts :: parse_options where
  "parse_opts = \<lparr>po_methods = [''HS256''], po_issuer = tokenIssuer, po_exp_required = True\<rparr>"

definition parseToken :: "auth_api \<Rightarrow> 'p config \<Rightarrow> int \<Rightarrow> string \<Rightarrow> string \<Rightarrow> go_error + claims" where
  "parseToken A cfg now tok kind =
     (case jwt_parse A (cfg_JWTSecret cfg) parse_opts now tok of
        Inl e \<Rightarrow> Inl e
      | Inr (None, _) \<Rightarrow> Inl (Err_other ''invalid token'')
      | Inr (Some c, valid) \<Rightarrow>
          if \<not> valid then Inl (Err_other ''invalid token'')
          else if cl_Kind c \<noteq> kind \<or> cl_ID c = [] then Inl (Err_other ''wrong token kind'')
          else Inr c)"

definition timeLeft :: "int \<Rightarrow> claims \<Rightarrow> int" where
  "timeLeft now c = (case cl_ExpiresAt c of None \<Rightarrow> 1000000000 | Some t \<Rightarrow> t - now)"

text \<open>The client library sends a duration in milliseconds, at least one.\<close>

definition redis_ms :: "int \<Rightarrow> int" where
  "redis_ms t = (if 0 < t \<and> t < 1000000 then 1 else t div 1000000)"

definition bearer :: "(string \<Rightarrow> string \<Rightarrow> bool) \<Rightarrow> request \<Rightarrow> string" where
  "bearer fold_uni r =
     (let h = header_get r ''Authorization''
      in if length h > 7 \<and> EqualFold fold_uni (take 7 h) ''Bearer '' then TrimSpace (drop 7 h)
         else case map_of (rq_cookies r) accessCookie of Some v \<Rightarrow> v | None \<Rightarrow> [])"

section \<open>The middleware\<close>

definition userFromRequest ::
  "('r, 'db, 'u, 'a, 'p, 'i) ext \<Rightarrow> auth_api \<Rightarrow> int \<Rightarrow> request \<Rightarrow> ('r, 'db, 'p) app \<Rightarrow> (go_error + user) \<times> ('r, 'db, 'p) app" where
  "userFromRequest X A now r a =
     (let tok = bearer (x_fold X) r
      in if tok = [] then (Inl (Err_other ''not authenticated''), a)
         else case parseToken A (a_cfg a) now tok kindAccess of
                Inl e \<Rightarrow> (Inl e, a)
              | Inr c \<Rightarrow>
                  let (revoked, ca) = IsRevoked (x_redis X) (cl_ID c) (a_cache a); a1 = a\<lparr>a_cache := ca\<rparr>
                  in if revoked then (Inl (Err_other ''token revoked''), a1)
                     else (case atoi64 (cl_Subject c) of
                             (_, Some _) \<Rightarrow> (Inl (Err_other ''invalid syntax''), a1)
                           | (i, None) \<Rightarrow>
                               let (u, st) = GetUserByID (x_pg X) i (a_store a1) in (u, a1\<lparr>a_store := st\<rparr>)))"

text \<open>The next handler gets the user from the request's context.\<close>

definition requireAuth ::
  "('r, 'db, 'u, 'a, 'p, 'i) ext \<Rightarrow> auth_api \<Rightarrow> int \<Rightarrow> (user \<Rightarrow> request \<Rightarrow> ('r, 'db, 'p) app \<Rightarrow> ('b response \<times> ('r, 'db, 'p) app) option)
     \<Rightarrow> request \<Rightarrow> ('r, 'db, 'p) app \<Rightarrow> ('b response \<times> ('r, 'db, 'p) app) option" where
  "requireAuth X A now next r a =
     (case userFromRequest X A now r a of
        (Inl e, a1) \<Rightarrow> Some (writeErr 401 ''not authenticated'', a1)
      | (Inr u, a1) \<Rightarrow> next u r a1)"

section \<open>Cookies\<close>

record cookie =
  ck_Name :: string
  ck_Value :: string
  ck_Path :: string
  ck_MaxAge :: int
  ck_HttpOnly :: bool
  ck_Secure :: bool
  ck_SameSite :: string

datatype auth_body = J_session user | J_ok | J_me user

type_synonym auth_reply = "auth_body response \<times> cookie list"

definition app_cookie :: "'p config \<Rightarrow> string \<Rightarrow> string \<Rightarrow> string \<Rightarrow> int \<Rightarrow> cookie" where
  "app_cookie cfg name val path maxAge =
     \<lparr>ck_Name = name, ck_Value = val, ck_Path = path, ck_MaxAge = maxAge,
      ck_HttpOnly = True, ck_Secure = cfg_CookieSecure cfg, ck_SameSite = ''Lax''\<rparr>"

definition clearAuthCookies :: "'p config \<Rightarrow> cookie list" where
  "clearAuthCookies cfg =
     [app_cookie cfg accessCookie [] ''/'' (-1), app_cookie cfg refreshCookie [] refreshPath (-1),
      app_cookie cfg refreshCookie [] ''/'' (-1)]"

definition emitAuth :: "auth_api \<Rightarrow> 'p config \<Rightarrow> user \<Rightarrow> int \<times> char list \<Rightarrow> int \<times> char list \<Rightarrow> auth_reply" where
  "emitAuth A cfg u e1 e2 =
     (case (issueToken A cfg u kindAccess accessTTL e1, issueToken A cfg u kindRefresh refreshTTL e2) of
        (Inr access, Inr refresh) \<Rightarrow>
          (writeJSON 200 (J_session u),
           [app_cookie cfg accessCookie access ''/'' (accessTTL div 1000000000),
            app_cookie cfg refreshCookie refresh refreshPath (refreshTTL div 1000000000)])
      | _ \<Rightarrow> (writeErr 500 ''could not issue session'', []))"

section \<open>Accounts\<close>

definition createUser ::
  "('r, 'db, 'u, 'a, 'p, 'i) ext \<Rightarrow> auth_api \<Rightarrow> string \<Rightarrow> string \<Rightarrow> string \<Rightarrow> string \<Rightarrow> string \<Rightarrow> i64 list \<Rightarrow> int
     \<Rightarrow> ('r, 'db, 'p) app \<Rightarrow> ((go_error + user) \<times> ('r, 'db, 'p) app) option" where
  "createUser X A email password name role salt clock now a =
     (case hashPassword A password salt of
        Inl e \<Rightarrow> Some (Inl e, a)
      | Inr h \<Rightarrow>
          (case Next (a_ids a) clock of
             None \<Rightarrow> None
           | Some (i, sf, _) \<Rightarrow>
               let u = \<lparr>u_ID = sint i, u_Email = normEmail (x_lower X) email, u_Name = name, u_Role = role, u_CreatedAt = now\<rparr>;
                   (err, st) = InsertUser (x_pg X) u h (a_store a);
                   a1 = a\<lparr>a_ids := sf, a_store := st\<rparr>
               in Some (case err of Some e \<Rightarrow> Inl e | None \<Rightarrow> Inr u, a1)))"

record credentials =
  cr_Email :: string
  cr_Password :: string
  cr_Name :: string

definition authRateLimited ::
  "('r, 'db, 'u, 'a, 'p, 'i) ext \<Rightarrow> request \<Rightarrow> string \<Rightarrow> ('r, 'db, 'p) app \<Rightarrow> auth_reply option \<times> ('r, 'db, 'p) app" where
  "authRateLimited X r action a =
     (let ((ok, _, reset), c) =
            RateLimit (x_redis X) (action @ '':'' @ clientIP (x_netip X) (cfg_TrustedProxies (a_cfg a)) r) authPerMinute 60000 (a_cache a)
      in (if ok then None
          else Some (writeErr 429 (''too many attempts '' @ em_dash @ '' try again in '' @ itoa reset @ ''s''), []), a\<lparr>a_cache := c\<rparr>))"

definition validEmail :: "auth_api \<Rightarrow> string \<Rightarrow> bool" where
  "validEmail A email =
     (case mail_ParseAddress A email of
        None \<Rightarrow> False
      | Some addr \<Rightarrow>
          addr = email \<and> length email \<le> maxEmailLen
          \<and> Contains (rev (takeWhile (\<lambda>c. c \<noteq> CHR ''@'') (rev email))) ''.'')"

text \<open>What a handler reads of the world: the salt of a hash, the clock of the identifier generator, an
  instant, and the instants and random bytes of the two tokens.\<close>

record draw =
  d_salt :: string
  d_clock :: "i64 list"
  d_now :: int
  d_access :: "int \<times> char list"
  d_refresh :: "int \<times> char list"

definition emit :: "auth_api \<Rightarrow> draw \<Rightarrow> user \<Rightarrow> ('r, 'db, 'p) app \<Rightarrow> auth_reply \<times> ('r, 'db, 'p) app" where
  "emit A d u a = (emitAuth A (a_cfg a) u (d_access d) (d_refresh d), a)"

definition handleRegister ::
  "('r, 'db, 'u, 'a, 'p, 'i) ext \<Rightarrow> auth_api \<Rightarrow> draw \<Rightarrow> credentials option \<Rightarrow> request \<Rightarrow> ('r, 'db, 'p) app
     \<Rightarrow> (auth_reply \<times> ('r, 'db, 'p) app) option" where
  "handleRegister X A d body r a =
     (case authRateLimited X r ''register'' a of
        (Some w, a1) \<Rightarrow> Some (w, a1)
      | (None, a1) \<Rightarrow>
          (case body of
             None \<Rightarrow> Some ((writeErr 400 ''invalid payload'', []), a1)
           | Some req \<Rightarrow>
               let email = normEmail (x_lower X) (cr_Email req); trimmed = TrimSpace (cr_Name req)
               in if \<not> validEmail A email then Some ((writeErr 400 ''a valid email address is required'', []), a1)
                  else if length (cr_Password req) < minPassBytes \<or> length (cr_Password req) > maxPassBytes
                  then Some ((writeErr 400 ''password must be 8-72 characters'', []), a1)
                  else if RuneCount trimmed > maxNameLen then Some ((writeErr 400 ''name must be at most 80 characters'', []), a1)
                  else let name = (if trimmed = [] then hd (Split email (CHR ''@'')) else trimmed);
                           (found, st) = GetUserByEmail (x_pg X) (x_lower X) email (a_store a1); a2 = a1\<lparr>a_store := st\<rparr>
                       in (case found of
                             Inr _ \<Rightarrow> Some ((writeErr 409 msgAccountExists, []), a2)
                           | Inl _ \<Rightarrow>
                               (case createUser X A email (cr_Password req) name ''user'' (d_salt d) (d_clock d) (d_now d) a2 of
                                  None \<Rightarrow> None
                                | Some (Inl e, a3) \<Rightarrow>
                                    Some ((if isUniqueViolation e then writeErr 409 msgAccountExists else internalErr, []), a3)
                                | Some (Inr u, a3) \<Rightarrow> Some (emit A d u a3)))))"

text \<open>\<open>dummy\<close> is the value that \<^const>\<open>dummyHash\<close> computed once.\<close>

definition handleLogin ::
  "('r, 'db, 'u, 'a, 'p, 'i) ext \<Rightarrow> auth_api \<Rightarrow> draw \<Rightarrow> string \<Rightarrow> credentials option \<Rightarrow> request \<Rightarrow> ('r, 'db, 'p) app
     \<Rightarrow> auth_reply \<times> ('r, 'db, 'p) app" where
  "handleLogin X A d dummy body r a =
     (case authRateLimited X r ''login'' a of
        (Some w, a1) \<Rightarrow> (w, a1)
      | (None, a1) \<Rightarrow>
          (case body of
             None \<Rightarrow> ((writeErr 400 ''invalid payload'', []), a1)
           | Some req \<Rightarrow>
               let email = normEmail (x_lower X) (cr_Email req);
                   lockKey = clientIP (x_netip X) (cfg_TrustedProxies (a_cfg a1)) r @ '':'' @ email;
                   (failures, c) = FailedLogins (x_redis X) lockKey (a_cache a1); a2 = a1\<lparr>a_cache := c\<rparr>
               in if failures \<ge> maxFailedLogins
                  then ((writeErr 429 (''too many failed attempts '' @ em_dash @ '' locked for 15 minutes''), []), a2)
                  else let (found, st) = GetUserByEmail (x_pg X) (x_lower X) email (a_store a2); a3 = a2\<lparr>a_store := st\<rparr>;
                           bad = ((writeErr 401 ''invalid email or password'', []),
                                  a3\<lparr>a_cache := snd (BumpFailedLogin (x_redis X) lockKey (a_cache a3))\<rparr>)
                       in (case found of
                             Inl Err_no_rows \<Rightarrow> (let _ = verifyPassword A (cr_Password req) dummy in bad)
                           | Inl e \<Rightarrow> ((internalErr, []), a3)
                           | Inr (u, hash) \<Rightarrow>
                               if \<not> verifyPassword A (cr_Password req) hash then bad
                               else emit A d u (a3\<lparr>a_cache := ClearFailedLogin (x_redis X) lockKey (a_cache a3)\<rparr>))))"

definition handleDemoLogin ::
  "('r, 'db, 'u, 'a, 'p, 'i) ext \<Rightarrow> auth_api \<Rightarrow> draw \<Rightarrow> request \<Rightarrow> ('r, 'db, 'p) app \<Rightarrow> auth_reply \<times> ('r, 'db, 'p) app" where
  "handleDemoLogin X A d r a =
     (if \<not> cfg_DemoMode (a_cfg a) \<or> demoUserID a = 0 then ((writeErr 404 ''demo mode is off'', []), a)
      else case authRateLimited X r ''demo'' a of
             (Some w, a1) \<Rightarrow> (w, a1)
           | (None, a1) \<Rightarrow>
               let (u, st) = GetUserByID (x_pg X) (demoUserID a1) (a_store a1); a2 = a1\<lparr>a_store := st\<rparr>
               in (case u of Inl e \<Rightarrow> ((internalErr, []), a2) | Inr u \<Rightarrow> emit A d u a2))"

definition handleMe :: "user \<Rightarrow> auth_reply" where
  "handleMe u = (writeJSON 200 (J_me u), [])"

definition revoke_token ::
  "('r, 'db, 'u, 'a, 'p, 'i) ext \<Rightarrow> auth_api \<Rightarrow> int \<Rightarrow> int \<Rightarrow> string \<Rightarrow> string \<Rightarrow> ('r, 'db, 'p) app \<Rightarrow> ('r, 'db, 'p) app" where
  "revoke_token X A now1 now2 tok kind a =
     (case parseToken A (a_cfg a) now1 tok kind of
        Inl e \<Rightarrow> a
      | Inr c \<Rightarrow> a\<lparr>a_cache := snd (Revoke (x_redis X) (cl_ID c) (redis_ms (timeLeft now2 c)) (a_cache a))\<rparr>)"

text \<open>Each token is parsed at one instant and its remaining time read at a later one.\<close>

definition handleLogout ::
  "('r, 'db, 'u, 'a, 'p, 'i) ext \<Rightarrow> auth_api \<Rightarrow> int \<times> int \<Rightarrow> int \<times> int \<Rightarrow> request \<Rightarrow> ('r, 'db, 'p) app \<Rightarrow> auth_reply \<times> ('r, 'db, 'p) app" where
  "handleLogout X A n1 n2 r a =
     (let a1 = (case map_of (rq_cookies r) refreshCookie of
                  None \<Rightarrow> a | Some v \<Rightarrow> revoke_token X A (fst n1) (snd n1) v kindRefresh a);
          tok = bearer (x_fold X) r;
          a2 = (if tok \<noteq> [] then revoke_token X A (fst n2) (snd n2) tok kindAccess a1 else a1)
      in ((writeJSON 200 J_ok, clearAuthCookies (a_cfg a2)), a2))"

definition handleRefresh ::
  "('r, 'db, 'u, 'a, 'p, 'i) ext \<Rightarrow> auth_api \<Rightarrow> draw \<Rightarrow> int \<Rightarrow> int \<Rightarrow> request \<Rightarrow> ('r, 'db, 'p) app \<Rightarrow> auth_reply \<times> ('r, 'db, 'p) app" where
  "handleRefresh X A d now1 now2 r a =
     (case map_of (rq_cookies r) refreshCookie of
        None \<Rightarrow> ((writeErr 401 ''invalid refresh token'', []), a)
      | Some v \<Rightarrow>
          (case parseToken A (a_cfg a) now1 v kindRefresh of
             Inl e \<Rightarrow> ((writeErr 401 ''invalid refresh token'', clearAuthCookies (a_cfg a)), a)
           | Inr c \<Rightarrow>
               let (firstUse, ca) = Revoke (x_redis X) (cl_ID c) (redis_ms (timeLeft now2 c)) (a_cache a); a1 = a\<lparr>a_cache := ca\<rparr>
               in (case firstUse of
                     Reply False \<Rightarrow> ((writeErr 401 ''refresh token already used'', clearAuthCookies (a_cfg a1)), a1)
                   | Reply True \<Rightarrow>
                       let (u, st) = GetUserByID (x_pg X) (fst (atoi64 (cl_Subject c))) (a_store a1); a2 = a1\<lparr>a_store := st\<rparr>
                       in (case u of
                             Inl e \<Rightarrow> ((writeErr 401 ''user not found'', clearAuthCookies (a_cfg a2)), a2)
                           | Inr u \<Rightarrow> emit A d u a2)
                   | _ \<Rightarrow> ((writeErr 503 ''session store unavailable'', []), a1))))"

end
