(* ===== verification/Histogram.thy ===== *)
theory Histogram
  imports Olap_Query
begin

text \<open>
  The latency histogram of \<^verbatim>\<open>backend/bench.go\<close>.  Every field is an atomic counter: \<^verbatim>\<open>Observe\<close> is a
  sequence of atomic steps that many goroutines take at once.  Latencies are microseconds, and
  \<^verbatim>\<open>Percentile\<close> gives microseconds here instead of the floating-point milliseconds; its rank, the
  floating-point product of the total and the fraction cut to an integer, is an argument.
\<close>

section \<open>Definitions\<close>

definition histBucketUS :: int where "histBucketUS = 10"
definition histBuckets :: int where "histBuckets = 40000"

record histogram =
  h_buckets :: "int list"
  h_count :: int
  h_sum :: int
  h_max :: int

definition NewHistogram :: histogram where
  "NewHistogram = \<lparr>h_buckets = replicate (nat (histBuckets + 1)) 0, h_count = 0, h_sum = 0, h_max = 0\<rparr>"

text \<open>The bucket of a latency; a negative index would panic.\<close>

definition bucket_of :: "int \<Rightarrow> int" where
  "bucket_of us = min (go_div us histBucketUS) histBuckets"

definition bump_bucket :: "int \<Rightarrow> histogram \<Rightarrow> histogram option" where
  "bump_bucket us h =
     (let i = bucket_of us
      in if i < 0 \<or> int (length (h_buckets h)) \<le> i then None
         else Some (h\<lparr>h_buckets := (h_buckets h)[nat i := h_buckets h ! nat i + 1]\<rparr>))"

definition Observe :: "int \<Rightarrow> histogram \<Rightarrow> histogram option" where
  "Observe us h =
     map_option (\<lambda>h1. h1\<lparr>h_count := h_count h1 + 1, h_sum := h_sum h1 + us,
       h_max := (if us \<le> h_max h1 then h_max h1 else us)\<rparr>) (bump_bucket us h)"

fun observe_all :: "int list \<Rightarrow> histogram \<Rightarrow> histogram option" where
  "observe_all [] h = Some h"
| "observe_all (us # uss) h = (case Observe us h of None \<Rightarrow> None | Some h' \<Rightarrow> observe_all uss h')"

fun walk_buckets :: "int \<Rightarrow> int list \<Rightarrow> nat \<Rightarrow> int \<Rightarrow> nat option" where
  "walk_buckets target [] i seen = None"
| "walk_buckets target (b # bs) i seen =
     (if seen + b \<ge> target then Some i else walk_buckets target bs (i + 1) (seen + b))"

definition MaxUS :: "histogram \<Rightarrow> int" where "MaxUS h = h_max h"

definition Percentile :: "(int \<Rightarrow> int) \<Rightarrow> histogram \<Rightarrow> int" where
  "Percentile rank_of h =
     (if h_count h = 0 then 0
      else case walk_buckets (rank_of (h_count h)) (h_buckets h) 0 0 of
             Some i \<Rightarrow> int i * histBucketUS
           | None \<Rightarrow> MaxUS h)"

text \<open>The mean as its exact numerator and denominator, in microseconds.\<close>

definition Mean :: "histogram \<Rightarrow> int \<times> int" where
  "Mean h = (if h_count h = 0 then (0, 1) else (h_sum h, h_count h))"

section \<open>What a histogram holds\<close>

definition samples_ok :: "int list \<Rightarrow> bool" where
  "samples_ok xs \<longleftrightarrow> (\<forall>x\<in>set xs. 0 \<le> x)"

definition in_bucket :: "int list \<Rightarrow> int \<Rightarrow> int" where
  "in_bucket xs i = int (length (filter (\<lambda>x. bucket_of x = i) xs))"

definition hist_len :: nat where "hist_len = nat (histBuckets + 1)"

lemma hist_len: "i < hist_len \<longleftrightarrow> i \<le> 40000" "int hist_len = 40001"
  by (auto simp: hist_len_def histBuckets_def)

text \<open>The histogram of a list of samples.\<close>

definition hist_of :: "int list \<Rightarrow> histogram" where
  "hist_of xs = \<lparr>h_buckets = map (\<lambda>i. in_bucket xs (int i)) [0..<hist_len], h_count = int (length xs),
     h_sum = sum_list xs, h_max = Max (insert 0 (set xs))\<rparr>"

lemma bucket_of_nonneg:
  assumes "0 \<le> x"
  shows "bucket_of x = min (x div 10) 40000"
proof -
  have "(x - x mod 10) div 10 = x div 10" by presburger
  then show ?thesis using assms by (simp add: bucket_of_def go_div_def go_rem_nonneg histBucketUS_def histBuckets_def)
qed

lemma bucket_range: "0 \<le> x \<Longrightarrow> 0 \<le> bucket_of x \<and> bucket_of x \<le> 40000"
  by (simp add: bucket_of_nonneg)

lemma bucket_of_mono: "0 \<le> x \<Longrightarrow> x \<le> y \<Longrightarrow> bucket_of x \<le> bucket_of y"
  by (simp add: bucket_of_nonneg zdiv_mono1 min.coboundedI1)

lemma hist_of_Nil: "hist_of [] = NewHistogram"
  by (simp add: hist_of_def NewHistogram_def in_bucket_def hist_len_def map_replicate_const)

lemma length_hist_buckets [simp]: "length (h_buckets (hist_of xs)) = hist_len"
  by (simp add: hist_of_def)


lemma Observe_hist:
  assumes "0 \<le> x"
  shows "Observe x (hist_of xs) = Some (hist_of (x # xs))"
proof -
  note b = bucket_range [OF assms]
  have i: "nat (bucket_of x) < hist_len" using b by (auto simp: hist_len)
  have "(map (\<lambda>i. in_bucket xs (int i)) [0..<hist_len])[nat (bucket_of x) := in_bucket xs (bucket_of x) + 1]
      = map (\<lambda>i. in_bucket (x # xs) (int i)) [0..<hist_len]"
    using b by (intro nth_equalityI) (auto simp: nth_list_update in_bucket_def)
  moreover have "Max (insert 0 (set (x # xs))) = (if x \<le> Max (insert 0 (set xs)) then Max (insert 0 (set xs)) else x)"
    by (simp add: insert_commute [of 0 x] max_def)
  ultimately show ?thesis using b i
    by (simp add: Observe_def bump_bucket_def hist_of_def Let_def hist_len)
qed

lemma observe_all_hist: "samples_ok uss \<Longrightarrow> observe_all uss (hist_of xs) = Some (hist_of (rev uss @ xs))"
  by (induction uss arbitrary: xs) (simp_all add: samples_ok_def Observe_hist)

lemma hist_of_mset:
  assumes "mset xs = mset ys"
  shows "hist_of xs = hist_of ys"
proof -
  have "in_bucket xs i = in_bucket ys i" for i unfolding in_bucket_def
    using arg_cong [OF assms, of "\<lambda>m. size (filter_mset (\<lambda>x. bucket_of x = i) m)"] by (simp flip: mset_filter)
  moreover have "set xs = set ys" "length xs = length ys" using assms by (metis set_mset_mset, metis size_mset)
  moreover have "sum_list xs = sum_list ys" using assms by (metis sum_mset_sum_list)
  ultimately show ?thesis by (simp add: hist_of_def)
qed

section \<open>Percentiles\<close>

lemma walk_buckets_sum:
  "walk_buckets t (map f [k..<n]) k seen =
     (if \<exists>i\<in>{k..<n}. t \<le> seen + (\<Sum>j=k..i. f j) then Some (LEAST i. k \<le> i \<and> i < n \<and> t \<le> seen + (\<Sum>j=k..i. f j)) else None)"
proof (induction "n - k" arbitrary: k seen)
  case 0
  then show ?case by simp
next
  case (Suc m)
  then have k: "[k..<n] = k # [Suc k..<n]" "k < n" by (auto simp: upt_conv_Cons)
  show ?case
  proof (cases "t \<le> seen + f k")
    case True
    have "(LEAST i. k \<le> i \<and> i < n \<and> t \<le> seen + (\<Sum>j=k..i. f j)) = k"
      by (rule Least_equality) (use True k in auto)
    then show ?thesis using True k by (auto intro!: bexI [of _ k])
  next
    case False
    have sum: "seen + (\<Sum>j=k..i. f j) = seen + f k + (\<Sum>j=Suc k..i. f j)" if "k \<le> i" for i
      using that by (simp add: sum.atLeast_Suc_atMost)
    have eq: "(k \<le> i \<and> i < n \<and> t \<le> seen + (\<Sum>j=k..i. f j)) = (Suc k \<le> i \<and> i < n \<and> t \<le> seen + f k + (\<Sum>j=Suc k..i. f j))" for i
    proof (cases "i = k")
      case False
      then show ?thesis using sum [of i] by (cases "k \<le> i") auto
    qed (use False in simp)
    then have "(\<exists>i\<in>{k..<n}. t \<le> seen + (\<Sum>j=k..i. f j)) = (\<exists>i\<in>{Suc k..<n}. t \<le> seen + f k + (\<Sum>j=Suc k..i. f j))"
      by (metis atLeastLessThan_iff)
    then show ?thesis using Suc.hyps(1) [of "Suc k" "seen + f k"] Suc.hyps(2) False k eq by simp
  qed
qed

lemma in_buckets_upto:
  assumes "samples_ok xs"
  shows "(\<Sum>j=0..i. in_bucket xs (int j)) = int (length (filter (\<lambda>x. bucket_of x \<le> int i) xs))"
  using assms
proof (induction xs)
  case (Cons x xs)
  obtain k where k: "bucket_of x = int k" using Cons.prems bucket_range [of x] nonneg_int_cases by (auto simp: samples_ok_def)
  have "(\<Sum>j=0..i. if bucket_of x = int j then 1 else (0::int)) = (if bucket_of x \<le> int i then 1 else 0)"
    by (simp add: k)
  moreover have "in_bucket (x # xs) j = in_bucket xs j + (if bucket_of x = j then 1 else 0)" for j by (simp add: in_bucket_def)
  ultimately show ?case using Cons by (simp add: sum.distrib samples_ok_def)
qed (simp add: in_bucket_def)

lemma count_sorted:
  assumes "sorted s" "\<And>x y. x \<in> set s \<Longrightarrow> y \<in> set s \<Longrightarrow> x \<le> y \<Longrightarrow> P y \<Longrightarrow> P x" "n < length s"
  shows "n < length (filter P s) \<longleftrightarrow> P (s ! n)"
  using assms
proof (induction s arbitrary: n)
  case (Cons a s)
  show ?case
  proof (cases "P a")
    case True
    show ?thesis
    proof (cases n)
      case (Suc m)
      have "m < length (filter P s) \<longleftrightarrow> P (s ! m)"
        by (rule Cons.IH) (use Cons.prems Suc in \<open>auto intro: Cons.prems(2)\<close>)
      then show ?thesis using True Suc by simp
    qed (use True in simp)
  next
    case False
    have "\<not> P y" if "y \<in> set (a # s)" for y
      using Cons.prems(1) Cons.prems(2) [of a y] that False by auto
    then have "filter P (a # s) = []" "\<not> P ((a # s) ! n)" using Cons.prems(3) nth_mem by (blast intro: filter_False)+
    then show ?thesis by simp
  qed
qed simp


text \<open>The number of samples at or below a bucket reaches \<open>n + 1\<close> at the bucket of the sample of rank \<open>n\<close>.\<close>

lemma rank_bucket:
  assumes "samples_ok xs" "n < length xs"
  shows "int n < int (length (filter (\<lambda>x. bucket_of x \<le> i) xs)) \<longleftrightarrow> bucket_of (sort xs ! n) \<le> i"
proof -
  have "length (filter (\<lambda>x. bucket_of x \<le> i) xs) = length (filter (\<lambda>x. bucket_of x \<le> i) (sort xs))"
    by (metis mset_filter mset_sort size_mset)
  moreover have "n < length (filter (\<lambda>x. bucket_of x \<le> i) (sort xs)) \<longleftrightarrow> bucket_of (sort xs ! n) \<le> i"
    by (rule count_sorted) (use assms bucket_of_mono in \<open>auto simp: samples_ok_def intro: order_trans\<close>)
  ultimately show ?thesis by simp
qed

lemma Percentile_hist:
  assumes ok: "samples_ok xs" and t: "0 < rank_of (int (length xs))" "rank_of (int (length xs)) \<le> int (length xs)"
  shows "Percentile rank_of (hist_of xs) = bucket_of (sort xs ! nat (rank_of (int (length xs)) - 1)) * 10"
proof -
  define r where "r = rank_of (int (length xs))"
  define n where "n = nat (r - 1)"
  have n: "n < length xs" "r = int n + 1" using t by (auto simp: n_def r_def)
  obtain k where k: "bucket_of (sort xs ! n) = int k"
    using bucket_range [of "sort xs ! n"] ok n nth_mem [of n "sort xs"] nonneg_int_cases
    by (metis length_sort samples_ok_def set_sort)
  have k': "k < hist_len" using bucket_range [of "sort xs ! n"] ok n nth_mem [of n "sort xs"] k by (auto simp: samples_ok_def hist_len)
  have reach: "r \<le> 0 + (\<Sum>j=0..i. in_bucket xs (int j)) \<longleftrightarrow> k \<le> i" for i
    using rank_bucket [OF ok n(1), of "int i"] by (simp add: in_buckets_upto [OF ok] n(2) k) linarith
  have "(LEAST i. 0 \<le> i \<and> i < hist_len \<and> r \<le> 0 + (\<Sum>j=0..i. in_bucket xs (int j))) = k"
    unfolding reach by (rule Least_equality) (use k' in auto)
  moreover have "\<exists>i\<in>{0..<hist_len}. r \<le> 0 + (\<Sum>j=0..i. in_bucket xs (int j))" unfolding reach using k' by (intro bexI [of _ k]) auto
  ultimately have "walk_buckets r (map (\<lambda>i. in_bucket xs (int i)) [0..<hist_len]) 0 0 = Some k"
    unfolding walk_buckets_sum by simp
  moreover have "length xs \<noteq> 0" using n by auto
  ultimately show ?thesis
    by (simp add: Percentile_def hist_of_def r_def [symmetric] histBucketUS_def n_def [symmetric] k)
qed


section \<open>Concurrent recording\<close>

text \<open>A goroutine inside \<^verbatim>\<open>Observe\<close>: before each of the three additions, before the load of the maximum,
  and between the load and the compare-and-swap, with the value that was loaded.\<close>

datatype obs_pc = O_bucket | O_count | O_sum | O_load | O_cas int | O_done

type_synonym obs_state = "histogram \<times> (int \<times> obs_pc) list"

inductive obs_step :: "obs_state \<Rightarrow> obs_state \<Rightarrow> bool" where
  s_bucket: "i < length ps \<Longrightarrow> ps ! i = (us, O_bucket) \<Longrightarrow> bump_bucket us h = Some h' \<Longrightarrow> obs_step (h, ps) (h', ps[i := (us, O_count)])"
| s_count: "i < length ps \<Longrightarrow> ps ! i = (us, O_count) \<Longrightarrow> obs_step (h, ps) (h\<lparr>h_count := h_count h + 1\<rparr>, ps[i := (us, O_sum)])"
| s_sum: "i < length ps \<Longrightarrow> ps ! i = (us, O_sum) \<Longrightarrow> obs_step (h, ps) (h\<lparr>h_sum := h_sum h + us\<rparr>, ps[i := (us, O_load)])"
| s_load: "i < length ps \<Longrightarrow> ps ! i = (us, O_load) \<Longrightarrow>
    obs_step (h, ps) (h, ps[i := (us, if us \<le> h_max h then O_done else O_cas (h_max h))])"
| s_cas: "i < length ps \<Longrightarrow> ps ! i = (us, O_cas cur) \<Longrightarrow> h_max h = cur \<Longrightarrow> obs_step (h, ps) (h\<lparr>h_max := us\<rparr>, ps[i := (us, O_done)])"
| s_retry: "i < length ps \<Longrightarrow> ps ! i = (us, O_cas cur) \<Longrightarrow> h_max h \<noteq> cur \<Longrightarrow> obs_step (h, ps) (h, ps[i := (us, O_load)])"

fun stage :: "obs_pc \<Rightarrow> nat" where
  "stage O_bucket = 0"
| "stage O_count = 1"
| "stage O_sum = 2"
| "stage O_load = 3"
| "stage (O_cas _) = 3"
| "stage O_done = 4"

definition reached :: "nat \<Rightarrow> (int \<times> obs_pc) list \<Rightarrow> int multiset" where
  "reached k ps = image_mset fst (filter_mset (\<lambda>p. k \<le> stage (snd p)) (mset ps))"

lemma reached_update:
  assumes "i < length ps" "ps ! i = (us, pc)" "stage pc \<le> stage pc'"
  shows "reached k (ps[i := (us, pc')]) = (if stage pc < k \<and> k \<le> stage pc' then add_mset us (reached k ps) else reached k ps)"
proof -
  obtain M where M: "mset ps = add_mset (us, pc) M" using assms(1,2) by (metis mset_add nth_mem_mset)
  then have "mset (ps[i := (us, pc')]) = add_mset (us, pc') M" using assms(1,2) by (simp add: mset_update)
  then show ?thesis using M assms(3) by (auto simp: reached_def)
qed

definition count_in :: "int multiset \<Rightarrow> int \<Rightarrow> int" where
  "count_in M i = int (size (filter_mset (\<lambda>x. bucket_of x = i) M))"

definition obs_inv :: "obs_state \<Rightarrow> bool" where
  "obs_inv s \<longleftrightarrow>
     (case s of (h, ps) \<Rightarrow>
        (\<forall>p\<in>set ps. 0 \<le> fst p)
      \<and> h_buckets h = map (\<lambda>i. count_in (reached 1 ps) (int i)) [0..<hist_len]
      \<and> h_count h = int (size (reached 2 ps)) \<and> h_sum h = sum_mset (reached 3 ps)
      \<and> h_max h \<in> insert 0 (fst ` set ps) \<and> (\<forall>us\<in>#reached 4 ps. us \<le> h_max h) \<and> 0 \<le> h_max h
      \<and> (\<forall>us cur. (us, O_cas cur) \<in> set ps \<longrightarrow> cur < us))"

lemma obs_inv_start: "samples_ok uss \<Longrightarrow> obs_inv (NewHistogram, map (\<lambda>us. (us, O_bucket)) uss)"
proof -
  have r: "reached k (map (\<lambda>us. (us, O_bucket)) uss) = {#}" if "0 < k" for k using that by (simp add: reached_def filter_mset_eq_conv) 
  assume "samples_ok uss"
  then show ?thesis by (auto simp: obs_inv_def r NewHistogram_def samples_ok_def count_in_def hist_len_def map_replicate_const)
qed

lemma update_set:
  assumes "i < length ps" "ps ! i = (us, pc)"
  shows "fst ` set (ps[i := (us, pc')]) = fst ` set ps" "p \<in> set (ps[i := (us, pc')]) \<Longrightarrow> p = (us, pc') \<or> p \<in> set ps"
proof -
  have "map fst (ps[i := (us, pc')]) = map fst ps" using assms by (auto simp: map_update intro!: list_update_same_conv [THEN iffD2])
  then show "fst ` set (ps[i := (us, pc')]) = fst ` set ps" by (metis list.set_map)
  show "p \<in> set (ps[i := (us, pc')]) \<Longrightarrow> p = (us, pc') \<or> p \<in> set ps" using set_update_subset_insert by fastforce
qed


lemma obs_invD:
  assumes "obs_inv (h, ps)"
  shows "p \<in> set ps \<Longrightarrow> 0 \<le> fst p" "h_buckets h = map (\<lambda>i. count_in (reached 1 ps) (int i)) [0..<hist_len]"
    and "h_count h = int (size (reached 2 ps))" "h_sum h = sum_mset (reached 3 ps)"
    and "h_max h \<in> insert 0 (fst ` set ps)" "us \<in># reached 4 ps \<Longrightarrow> us \<le> h_max h" "0 \<le> h_max h"
    and "(us, O_cas cur) \<in> set ps \<Longrightarrow> cur < us"
  using assms by (simp_all add: obs_inv_def)

text \<open>One step for all: the counters change with what the goroutine has passed.\<close>

lemma obs_inv_move:
  assumes inv: "obs_inv (h, ps)" and i: "i < length ps" "ps ! i = (us, pc)" "stage pc \<le> stage pc'"
    and buckets: "h_buckets h' = (if stage pc = 0 \<and> 0 < stage pc'
        then map (\<lambda>j. count_in (add_mset us (reached 1 ps)) (int j)) [0..<hist_len] else h_buckets h)"
    and cnt: "h_count h' = h_count h + (if stage pc < 2 \<and> 2 \<le> stage pc' then 1 else 0)"
    and sm: "h_sum h' = h_sum h + (if stage pc < 3 \<and> 3 \<le> stage pc' then us else 0)"
    and mx: "h_max h' \<in> insert (h_max h) {us}" "h_max h \<le> h_max h'" "stage pc' = 4 \<Longrightarrow> us \<le> h_max h'"
    and cas: "\<And>cur. pc' = O_cas cur \<Longrightarrow> cur < us"
  shows "obs_inv (h', ps[i := (us, pc')])"
proof -
  note r = reached_update [OF i] and I = obs_invD [OF inv]
  have us: "us \<in> fst ` set ps" using i(1,2) nth_mem by force
  have f: "fst ` set (ps[i := (us, pc')]) = fst ` set ps" by (rule update_set(1) [OF i(1,2)])
  have "0 \<le> x" if "x \<in> fst ` set (ps[i := (us, pc')])" for x using that I(1) unfolding f by auto
  then have "\<forall>p\<in>set (ps[i := (us, pc')]). 0 \<le> fst p" by blast
  moreover have "h_buckets h' = map (\<lambda>j. count_in (reached 1 (ps[i := (us, pc')])) (int j)) [0..<hist_len]"
    using I(2) buckets i(3) unfolding r [of 1] by (simp add: Suc_le_eq)
  moreover have "h_count h' = int (size (reached 2 (ps[i := (us, pc')])))" "h_sum h' = sum_mset (reached 3 (ps[i := (us, pc')]))"
    using I(3,4) cnt sm unfolding r [of 2] r [of 3] by simp_all
  moreover have "h_max h' \<in> insert 0 (fst ` set (ps[i := (us, pc')]))" "0 \<le> h_max h'"
    using I(5,7) mx(1,2) us unfolding f by (metis insertE insertI2 singletonD) (use I(7) mx(2) in linarith)
  moreover have "\<forall>u\<in>#reached 4 (ps[i := (us, pc')]). u \<le> h_max h'"
  proof
    fix u assume u: "u \<in># reached 4 (ps[i := (us, pc')])"
    have "stage pc' \<le> 4" by (cases pc') auto
    with u have "u \<in># reached 4 ps \<or> (u = us \<and> stage pc' = 4)" unfolding r [of 4] by (simp split: if_splits) linarith
    then show "u \<le> h_max h'" using I(6) mx(2,3) by force
  qed
  moreover have "cur < u" if "(u, O_cas cur) \<in> set (ps[i := (us, pc')])" for u cur
    using update_set(2) [OF i(1,2) that] I(8) cas by blast
  ultimately show ?thesis unfolding obs_inv_def by simp
qed

lemma obs_inv_step: "obs_step s s' \<Longrightarrow> obs_inv s \<Longrightarrow> obs_inv s'"
proof (induction rule: obs_step.induct)
  case (s_bucket i ps us h h')
  have us: "0 \<le> us" using obs_invD(1) [OF s_bucket(4), of "ps ! i"] nth_mem [OF s_bucket(1)] s_bucket(2) by simp
  note b = bucket_range [OF us]
  have old: "h_buckets h = map (\<lambda>j. count_in (reached 1 ps) (int j)) [0..<hist_len]" by (rule obs_invD(2) [OF s_bucket(4)])
  have "h_buckets h' = (h_buckets h)[nat (bucket_of us) := h_buckets h ! nat (bucket_of us) + 1]"
    "h_count h' = h_count h" "h_sum h' = h_sum h" "h_max h' = h_max h"
    using s_bucket(3) by (auto simp: bump_bucket_def Let_def split: if_splits)
  moreover have "(h_buckets h)[nat (bucket_of us) := h_buckets h ! nat (bucket_of us) + 1]
      = map (\<lambda>j. count_in (add_mset us (reached 1 ps)) (int j)) [0..<hist_len]"
    unfolding old using b by (intro nth_equalityI) (auto simp: nth_list_update count_in_def hist_len)
  ultimately show ?case by (intro obs_inv_move [OF s_bucket(4,1,2)]) simp_all
next
  case (s_count i ps us h)
  then show ?case by (intro obs_inv_move [OF s_count(3,1,2)]) simp_all
next
  case (s_sum i ps us h)
  then show ?case by (intro obs_inv_move [OF s_sum(3,1,2)]) simp_all
next
  case (s_load i ps us h)
  then show ?case by (intro obs_inv_move [OF s_load(3,1,2)]) (auto split: if_splits)
next
  case (s_cas i ps us cur h)
  then have "(us, O_cas cur) \<in> set ps" using nth_mem [OF s_cas(1)] by simp
  then have "cur < us" by (rule obs_invD(8) [OF s_cas(4)])
  then show ?case using s_cas(3) by (intro obs_inv_move [OF s_cas(4,1,2)]) simp_all
next
  case (s_retry i ps us cur h)
  then show ?case by (intro obs_inv_move [OF s_retry(4,1,2)]) simp_all
qed

lemma obs_step_fst: "obs_step s s' \<Longrightarrow> map fst (snd s') = map fst (snd s)"
  by (induction rule: obs_step.induct) (auto simp: map_update intro!: list_update_same_conv [THEN iffD2])

interpretation recording: preserved obs_step "\<lambda>s. obs_inv s \<and> map fst (snd s) = us" for us
  by unfold_locales (simp add: obs_inv_step obs_step_fst)

lemma count_in_mset: "count_in (mset xs) i = in_bucket xs i"
  unfolding count_in_def in_bucket_def by (metis mset_filter size_mset)

lemma obs_inv_done:
  assumes "obs_inv (h, ps)" "\<forall>p\<in>set ps. snd p = O_done"
  shows "h = hist_of (map fst ps)"
proof -
  have r: "reached k ps = mset (map fst ps)" if "k \<le> 4" for k
  proof -
    have "filter_mset (\<lambda>p. k \<le> stage (snd p)) (mset ps) = mset ps"
      using assms(2) that by (auto simp: filter_mset_eq_conv)
    then show ?thesis by (simp add: reached_def)
  qed
  have b: "h_buckets h = map (\<lambda>i. in_bucket (map fst ps) (int i)) [0..<hist_len]"
    using assms(1) r [of 1] by (simp add: obs_inv_def count_in_mset del: mset_map)
  have c: "h_count h = int (length ps)" "h_sum h = sum_list (map fst ps)"
    using assms(1) r [of 2] r [of 3] by (simp_all add: obs_inv_def sum_mset_sum_list flip: mset_map)
  have "h_max h = Max (insert 0 (fst ` set ps))"
    by (rule Max_eqI [symmetric]) (use assms(1) r [of 4] in \<open>auto simp: obs_inv_def\<close>)
  then show ?thesis using b c by (simp add: hist_of_def)
qed

section \<open>Properties\<close>

text \<open>C14: recording is safe without a lock.  Whatever the interleaving of the atomic steps of any number of
  goroutines, once all of them are done the histogram is the one that recording the samples
  one after another gives: no count is lost, the sum is exact, and the maximum is the largest
  sample.\<close>

theorem concurrent_Observe:
  assumes "samples_ok uss" "obs_step\<^sup>*\<^sup>* (NewHistogram, map (\<lambda>us. (us, O_bucket)) uss) (h, ps)" "\<forall>p\<in>set ps. snd p = O_done"
  shows "observe_all uss NewHistogram = Some h"
proof -
  have "obs_inv (h, ps)" "map fst ps = uss"
    using recording.run_keeps [OF assms(2), of uss] obs_inv_start [OF assms(1)] by (simp_all add: comp_def)
  then have "h = hist_of uss" using obs_inv_done assms(3) by blast
  then show ?thesis using observe_all_hist [OF assms(1), of "[]"] hist_of_mset [of "rev uss" uss] by (simp add: hist_of_Nil)
qed

theorem concurrent_Observe_witness:
  "\<exists>h. obs_step\<^sup>*\<^sup>* (NewHistogram, [(7, O_bucket)]) (h, [(7, O_done)]) \<and> observe_all [7] NewHistogram = Some h"
proof -
  let ?h1 = "NewHistogram\<lparr>h_buckets := (h_buckets NewHistogram)[0 := 1]\<rparr>"
  let ?h4 = "?h1\<lparr>h_count := 1, h_sum := 7, h_max := 7\<rparr>"
  have b: "bump_bucket 7 NewHistogram = Some ?h1"
    by (simp add: bump_bucket_def bucket_of_nonneg Let_def NewHistogram_def histBuckets_def)
  have "obs_step\<^sup>*\<^sup>* (NewHistogram, [(7, O_bucket)]) (?h4, [(7, O_done)])"
  proof -
    have 1: "obs_step (NewHistogram, [(7, O_bucket)]) (?h1, [(7, O_count)])"
      using s_bucket [of 0 "[(7, O_bucket)]" 7 NewHistogram ?h1] b by simp
    have 2: "obs_step (?h1, [(7, O_count)]) (?h1\<lparr>h_count := 1\<rparr>, [(7, O_sum)])"
      using s_count [of 0 "[(7, O_count)]" 7 ?h1] by (simp add: NewHistogram_def)
    have 3: "obs_step (?h1\<lparr>h_count := 1\<rparr>, [(7, O_sum)]) (?h1\<lparr>h_count := 1, h_sum := 7\<rparr>, [(7, O_load)])"
      using s_sum [of 0 "[(7, O_sum)]" 7 "?h1\<lparr>h_count := 1\<rparr>"] by (simp add: NewHistogram_def)
    have 4: "obs_step (?h1\<lparr>h_count := 1, h_sum := 7\<rparr>, [(7, O_load)]) (?h1\<lparr>h_count := 1, h_sum := 7\<rparr>, [(7, O_cas 0)])"
      using s_load [of 0 "[(7, O_load)]" 7 "?h1\<lparr>h_count := 1, h_sum := 7\<rparr>"] by (simp add: NewHistogram_def)
    have 5: "obs_step (?h1\<lparr>h_count := 1, h_sum := 7\<rparr>, [(7, O_cas 0)]) (?h4, [(7, O_done)])"
      using s_cas [of 0 "[(7, O_cas 0)]" 7 0 "?h1\<lparr>h_count := 1, h_sum := 7\<rparr>"] by (simp add: NewHistogram_def)
    show ?thesis using 1 2 3 4 5 by (meson converse_rtranclp_into_rtranclp rtranclp.rtrancl_refl)
  qed
  moreover have "observe_all [7] NewHistogram = Some ?h4"
    using concurrent_Observe [of "[7]" ?h4 "[(7, O_done)]"] calculation by (simp add: samples_ok_def)
  ultimately show ?thesis by blast
qed

text \<open>C31: percentiles are exact to a bucket.  For a rank between 1 and the number of samples, \<^verbatim>\<open>Percentile\<close>
  is the lower bound of the bucket of the sample of that rank in sorted order; samples below
  400 ms are off by less than 10 microseconds.\<close>

theorem Percentile_rank:
  assumes "samples_ok uss" "observe_all uss NewHistogram = Some h"
    and "0 < rank_of (int (length uss))" "rank_of (int (length uss)) \<le> int (length uss)"
    and x: "x = sort uss ! nat (rank_of (int (length uss)) - 1)"
  shows "Percentile rank_of h = min (x div 10) 40000 * 10
    \<and> (x < 400000 \<longrightarrow> Percentile rank_of h \<le> x \<and> x < Percentile rank_of h + 10)"
proof -
  have h: "h = hist_of uss"
    using assms(2) observe_all_hist [OF assms(1), of "[]"] hist_of_mset [of "rev uss" uss] by (simp add: hist_of_Nil)
  have "nat (rank_of (int (length uss)) - 1) < length (sort uss)" using assms(3,4) by auto
  then have "x \<in> set uss" unfolding x by (metis nth_mem set_sort)
  then have pos: "0 \<le> x" using assms(1) by (auto simp: samples_ok_def)
  have p: "Percentile rank_of h = min (x div 10) 40000 * 10"
    using Percentile_hist [of uss rank_of, OF assms(1,3,4)] bucket_of_nonneg [OF pos] unfolding h x by simp
  then show ?thesis by auto
qed

theorem Percentile_rank_witness:
  "\<exists>h. observe_all [12, 57, 33] NewHistogram = Some h \<and> Percentile (\<lambda>n. 2) h = 30"
proof -
  have ok: "samples_ok [12, 57, 33]" by (simp add: samples_ok_def)
  then have h: "observe_all [12, 57, 33] NewHistogram = Some (hist_of (rev [12, 57, 33] @ []))"
    using observe_all_hist [OF ok, of "[]"] by (simp add: hist_of_Nil)
  from Percentile_rank [OF ok h, of "\<lambda>n. 2"] h show ?thesis by simp
qed

text \<open>A percentile of few samples is zero.  The rank is cut down, so with \<open>p * n < 1\<close> it is 0 and the
  walk stops at the first bucket: for a single request of any latency, every percentile
  below the maximum is reported as 0.\<close>

theorem Percentile_rank_zero:
  assumes "samples_ok uss" "observe_all uss NewHistogram = Some h" "rank_of (int (length uss)) \<le> 0"
  shows "Percentile rank_of h = 0"
proof -
  have h: "h = hist_of uss"
    using assms(2) observe_all_hist [OF assms(1), of "[]"] hist_of_mset [of "rev uss" uss] by (simp add: hist_of_Nil)
  obtain b bs where b: "h_buckets h = b # bs" "0 \<le> b"
  proof -
    have "h_buckets h = in_bucket uss 0 # map (\<lambda>i. in_bucket uss (int i)) [1..<hist_len]"
      using upt_conv_Cons [of 0 hist_len] hist_len(1) [of 0] by (simp add: h hist_of_def)
    then show thesis using that by (simp add: in_bucket_def)
  qed
  have "h_count h = int (length uss)" by (simp add: h hist_of_def)
  then show ?thesis using assms(3) b by (simp add: Percentile_def)
qed


theorem Percentile_rank_zero_witness:
  "\<exists>h. observe_all [5000] NewHistogram = Some h \<and> Percentile (\<lambda>n. n * 99 div 100) h = 0"
proof -
  have ok: "samples_ok [5000]" by (simp add: samples_ok_def)
  then have h: "observe_all [5000] NewHistogram = Some (hist_of (rev [5000] @ []))"
    using observe_all_hist [OF ok, of "[]"] by (simp add: hist_of_Nil)
  from Percentile_rank_zero [OF ok h, of "\<lambda>n. n * 99 div 100"] h show ?thesis by simp
qed

end
