(* ===== verification/Synthetic.thy ===== *)
theory Synthetic
  imports Kortex_Prelude
begin

text \<open>
  \<^verbatim>\<open>backend/synthetic.go\<close>: the weighted tables behind the synthetic traffic.  The random
  source is the interface \<^verbatim>\<open>randInt\<close> of the code: a generator state \<open>'g\<close> and a function \<open>Intn\<close>
  that returns a number below its argument and the next state.  \<^verbatim>\<open>Intn\<close> panics on a bound
  that is not positive, and so does an index into an empty list.
\<close>

section \<open>Tables\<close>

type_synonym 'g rand_int = "'g \<Rightarrow> int \<Rightarrow> int \<times> 'g"

record country_weight =
  cw_Code :: string
  cw_Cities :: "string list"
  cw_Weight :: int

definition countries :: "country_weight list" where
  "countries =
     [\<lparr>cw_Code = ''IN'', cw_Cities = [''Bengaluru'', ''Mumbai'', ''Delhi'', ''Hyderabad'', ''Pune''], cw_Weight = 28\<rparr>,
      \<lparr>cw_Code = ''US'', cw_Cities = [''San Francisco'', ''New York'', ''Austin'', ''Seattle'', ''Chicago''], cw_Weight = 24\<rparr>,
      \<lparr>cw_Code = ''DE'', cw_Cities = [''Berlin'', ''Munich'', ''Hamburg''], cw_Weight = 8\<rparr>,
      \<lparr>cw_Code = ''GB'', cw_Cities = [''London'', ''Manchester''], cw_Weight = 7\<rparr>,
      \<lparr>cw_Code = ''BR'', cw_Cities = [''S'' @ [CHR 0xC3, CHR 0xA3] @ ''o Paulo'', ''Rio de Janeiro''], cw_Weight = 6\<rparr>,
      \<lparr>cw_Code = ''SG'', cw_Cities = [''Singapore''], cw_Weight = 5\<rparr>,
      \<lparr>cw_Code = ''JP'', cw_Cities = [''Tokyo'', ''Osaka''], cw_Weight = 5\<rparr>,
      \<lparr>cw_Code = ''NG'', cw_Cities = [''Lagos'', ''Abuja''], cw_Weight = 4\<rparr>,
      \<lparr>cw_Code = ''ID'', cw_Cities = [''Jakarta'', ''Bandung''], cw_Weight = 4\<rparr>,
      \<lparr>cw_Code = ''FR'', cw_Cities = [''Paris'', ''Lyon''], cw_Weight = 3\<rparr>,
      \<lparr>cw_Code = ''AU'', cw_Cities = [''Sydney'', ''Melbourne''], cw_Weight = 3\<rparr>,
      \<lparr>cw_Code = ''CA'', cw_Cities = [''Toronto'', ''Vancouver''], cw_Weight = 3\<rparr>]"

definition referrers :: "(string \<times> int) list" where
  "referrers =
     [(''direct'', 30), (''x.com'', 16), (''news.ycombinator.com'', 13), (''google.com'', 12),
      (''linkedin.com'', 9), (''reddit.com'', 7), (''github.com'', 5), (''whatsapp.com'', 4),
      (''t.co'', 2), (''newsletter'', 2)]"

definition devices :: "((string \<times> string \<times> string) \<times> int) list" where
  "devices =
     [((''mobile'', ''Chrome Mobile'', ''Android''), 34),
      ((''mobile'', ''Safari Mobile'', ''iOS''), 20),
      ((''desktop'', ''Chrome'', ''macOS''), 15),
      ((''desktop'', ''Chrome'', ''Windows''), 13),
      ((''desktop'', ''Safari'', ''macOS''), 6),
      ((''desktop'', ''Firefox'', ''Linux''), 5),
      ((''desktop'', ''Edge'', ''Windows''), 4),
      ((''tablet'', ''Safari Mobile'', ''iPadOS''), 3)]"

section \<open>Weighted choice\<close>

fun total_weight :: "('t \<Rightarrow> int) \<Rightarrow> 't list \<Rightarrow> int \<Rightarrow> int" where
  "total_weight weight [] acc = acc"
| "total_weight weight (it # its) acc = total_weight weight its (acc + weight it)"

fun weight_walk :: "('t \<Rightarrow> int) \<Rightarrow> int \<Rightarrow> 't list \<Rightarrow> 't option" where
  "weight_walk weight n [] = None"
| "weight_walk weight n (it # its) =
     (let n' = n - weight it in if n' < 0 then Some it else weight_walk weight n' its)"

definition pickWeighted :: "'g rand_int \<Rightarrow> 'g \<Rightarrow> 't list \<Rightarrow> ('t \<Rightarrow> int) \<Rightarrow> ('t \<times> 'g) option" where
  "pickWeighted Intn g items weight =
     (let t = total_weight weight items 0
      in if t \<le> 0 then None
         else let (n, g') = Intn g t
              in case weight_walk weight n items of
                   Some it \<Rightarrow> Some (it, g')
                 | None \<Rightarrow> if items = [] then None else Some (last items, g'))"

definition pickCountry :: "'g rand_int \<Rightarrow> 'g \<Rightarrow> ((string \<times> string) \<times> 'g) option" where
  "pickCountry Intn g =
     (case pickWeighted Intn g countries cw_Weight of
        None \<Rightarrow> None
      | Some (c, g1) \<Rightarrow>
          let k = int (length (cw_Cities c))
          in if k \<le> 0 then None
             else let (i, g2) = Intn g1 k
                  in if 0 \<le> i \<and> i < k then Some ((cw_Code c, cw_Cities c ! nat i), g2) else None)"

definition pickReferrer :: "'g rand_int \<Rightarrow> 'g \<Rightarrow> (string \<times> 'g) option" where
  "pickReferrer Intn g = map_option (\<lambda>(r, g'). (fst r, g')) (pickWeighted Intn g referrers snd)"

definition pickDevice :: "'g rand_int \<Rightarrow> 'g \<Rightarrow> ((string \<times> string \<times> string) \<times> 'g) option" where
  "pickDevice Intn g = map_option (\<lambda>(d, g'). (fst d, g')) (pickWeighted Intn g devices snd)"

section \<open>Lemmas\<close>

lemma total_weight_sum: "total_weight weight its t = t + (\<Sum>it\<leftarrow>its. weight it)"
  by (induction its arbitrary: t) auto

text \<open>The draws below the total that select an item for which \<open>P\<close> holds.\<close>

definition selecting :: "('t \<Rightarrow> int) \<Rightarrow> 't list \<Rightarrow> ('t \<Rightarrow> bool) \<Rightarrow> int set" where
  "selecting weight its P =
     {n. 0 \<le> n \<and> n < (\<Sum>it\<leftarrow>its. weight it) \<and> (case weight_walk weight n its of None \<Rightarrow> False | Some it \<Rightarrow> P it)}"

lemma sum_weights_nonneg: "\<forall>it\<in>set its. 0 \<le> weight it \<Longrightarrow> (0::int) \<le> (\<Sum>it\<leftarrow>its. weight it)"
  by (rule sum_list_nonneg) auto

lemma selecting_Cons:
  assumes "0 \<le> weight it" "0 \<le> (\<Sum>it\<leftarrow>its. weight it)"
  shows "selecting weight (it # its) P =
    (if P it then {0..<weight it} else {}) \<union> (\<lambda>n. n + weight it) ` selecting weight its P"
proof (rule set_eqI)
  fix n
  show "n \<in> selecting weight (it # its) P \<longleftrightarrow>
      n \<in> (if P it then {0..<weight it} else {}) \<union> (\<lambda>n. n + weight it) ` selecting weight its P"
  proof (cases "n < weight it")
    case True
    then show ?thesis using assms by (auto simp: selecting_def)
  next
    case False
    then have "n \<in> (\<lambda>n. n + weight it) ` selecting weight its P \<longleftrightarrow> n - weight it \<in> selecting weight its P"
      by (auto intro!: image_eqI [where x = "n - weight it"])
    with False assms show ?thesis by (auto simp: selecting_def)
  qed
qed

lemma card_selecting:
  assumes "\<forall>it\<in>set its. 0 \<le> weight it"
  shows "int (card (selecting weight its P)) = (\<Sum>it\<leftarrow>filter P its. weight it) \<and> finite (selecting weight its P)"
  using assms
proof (induction its)
  case Nil
  then show ?case by (simp add: selecting_def)
next
  case (Cons it its)
  let ?S = "selecting weight its P" and ?A = "if P it then {0..<weight it} else {}"
  have w: "0 \<le> weight it" "0 \<le> (\<Sum>it\<leftarrow>its. weight it)" using Cons.prems sum_weights_nonneg [of its] by auto
  have IH: "int (card ?S) = (\<Sum>it\<leftarrow>filter P its. weight it)" "finite ?S" using Cons by auto
  have "?A \<inter> (\<lambda>n. n + weight it) ` ?S = {}" by (auto simp: selecting_def)
  then have "card (?A \<union> (\<lambda>n. n + weight it) ` ?S) = card ?A + card ?S"
    using IH(2) by (subst card_Un_disjoint) (auto simp: card_image inj_on_def)
  then show ?case using IH w by (auto simp: selecting_Cons)
qed

lemma walk_total:
  "\<forall>it\<in>set its. 0 \<le> weight it \<Longrightarrow> n < (\<Sum>it\<leftarrow>its. weight it) \<Longrightarrow> 0 \<le> n \<Longrightarrow>
     \<exists>it\<in>set its. weight_walk weight n its = Some it \<and> 0 < weight it"
proof (induction its arbitrary: n)
  case (Cons it its)
  show ?case
  proof (cases "n < weight it")
    case True
    with Cons.prems show ?thesis by (intro bexI [of _ it]) auto
  next
    case False
    with Cons.IH [of "n - weight it"] Cons.prems show ?thesis by auto
  qed
qed simp

section \<open>Properties\<close>

text \<open>The weighted choice is proportional.  With non-negative weights of positive total, every draw
  below the total yields an item of the list with a positive weight (the fall-back to the
  last item is never taken), and the number of draws that yield an item satisfying \<open>P\<close> is
  the total weight of those items.\<close>

theorem pickWeighted_proportional:
  assumes "\<forall>it\<in>set items. 0 \<le> weight it" "0 < (\<Sum>it\<leftarrow>items. weight it)"
  defines "T \<equiv> \<Sum>it\<leftarrow>items. weight it"
  shows "(\<forall>g. 0 \<le> fst (Intn g T) \<and> fst (Intn g T) < T \<longrightarrow>
            (\<exists>it\<in>set items. pickWeighted Intn g items weight = Some (it, snd (Intn g T)) \<and> 0 < weight it))
    \<and> int (card {n. 0 \<le> n \<and> n < T \<and>
         (\<exists>it g'. pickWeighted (\<lambda>_ _. (n, ())) () items weight = Some (it, g') \<and> P it)}) = (\<Sum>it\<leftarrow>filter P items. weight it)"
proof
  show "\<forall>g. 0 \<le> fst (Intn g T) \<and> fst (Intn g T) < T \<longrightarrow>
      (\<exists>it\<in>set items. pickWeighted Intn g items weight = Some (it, snd (Intn g T)) \<and> 0 < weight it)"
  proof (intro allI impI)
    fix g assume "0 \<le> fst (Intn g T) \<and> fst (Intn g T) < T"
    with walk_total [OF assms(1)] obtain it where
      "it \<in> set items" "weight_walk weight (fst (Intn g T)) items = Some it" "0 < weight it"
      unfolding T_def by blast
    then show "\<exists>it\<in>set items. pickWeighted Intn g items weight = Some (it, snd (Intn g T)) \<and> 0 < weight it"
      using assms(2) unfolding T_def
      by (intro bexI [of _ it]) (auto simp: pickWeighted_def Let_def total_weight_sum split: prod.splits)
  qed
  have "(\<exists>it g'. pickWeighted (\<lambda>_ _. (n, ())) () items weight = Some (it, g') \<and> P it) \<longleftrightarrow>
      (case weight_walk weight n items of None \<Rightarrow> False | Some it \<Rightarrow> P it)" if "0 \<le> n" "n < T" for n
    using walk_total [OF assms(1) that(2) [unfolded T_def] that(1)] assms(2)
    by (auto simp: pickWeighted_def Let_def total_weight_sum split: option.splits)
  then have "{n. 0 \<le> n \<and> n < T \<and> (\<exists>it g'. pickWeighted (\<lambda>_ _. (n, ())) () items weight = Some (it, g') \<and> P it)}
      = selecting weight items P" unfolding selecting_def T_def by blast
  then show "int (card {n. 0 \<le> n \<and> n < T \<and>
         (\<exists>it g'. pickWeighted (\<lambda>_ _. (n, ())) () items weight = Some (it, g') \<and> P it)}) = (\<Sum>it\<leftarrow>filter P items. weight it)"
    using card_selecting [OF assms(1)] by simp
qed

theorem pickWeighted_proportional_witness:
  "int (card {n. 0 \<le> n \<and> n < (\<Sum>it\<leftarrow>referrers. snd it) \<and>
      (\<exists>it g'. pickWeighted (\<lambda>_ _. (n, ())) () referrers snd = Some (it, g') \<and> fst it = ''x.com'')}) = 16"
proof -
  have w: "\<forall>it\<in>set referrers. 0 \<le> snd it" "0 < (\<Sum>it\<leftarrow>referrers. snd it)"
    "(\<Sum>it\<leftarrow>filter (\<lambda>it. fst it = ''x.com'') referrers. snd it) = 16" by code_simp+
  show ?thesis
    using conjunct2 [OF pickWeighted_proportional [OF w(1,2), of "\<lambda>g n. (0, g)" "\<lambda>it. fst it = ''x.com''"]]
    unfolding w(3) .
qed

end
