(* ===== verification/Bench.thy ===== *)
theory Bench
  imports Complex_Main Auth Histogram Synthetic
begin

text \<open>
  \<^verbatim>\<open>backend/bench.go\<close> without the histogram: the state of the benchmarks, the handlers that start, stop
  and watch them, and the loops that record results.  The formatted lines of the run log, an instant, a
  latency and a status are arguments.  Elapsed time, progress and rates are reals.
\<close>

section \<open>State\<close>

record bench_tick =
  bt_T :: real
  bt_RPS :: real
  bt_P99 :: int

record bench_snapshot =
  bs_ID :: string
  bs_Kind :: string
  bs_Running :: bool
  bs_Phase :: string
  bs_StartedAt :: int
  bs_DurationS :: int
  bs_Concurrency :: int
  bs_Elapsed :: real
  bs_Progress :: real
  bs_Requests :: int
  bs_Errors :: int
  bs_RPS :: real
  bs_PeakRPS :: real
  bs_Mean :: "int \<times> int"
  bs_P50 :: int
  bs_P90 :: int
  bs_P95 :: int
  bs_P99 :: int
  bs_Max :: int
  bs_CacheHitRate :: real
  bs_CacheHits :: u64
  bs_CacheMiss :: u64
  bs_EventsQueued :: u64
  bs_EventsStored :: u64
  bs_IngestRate :: real
  bs_Log :: "string list"
  bs_Series :: "bench_tick list"

definition zero_snapshot :: bench_snapshot where
  "zero_snapshot = \<lparr>bs_ID = [], bs_Kind = [], bs_Running = False, bs_Phase = [], bs_StartedAt = 0, bs_DurationS = 0,
     bs_Concurrency = 0, bs_Elapsed = 0, bs_Progress = 0, bs_Requests = 0, bs_Errors = 0, bs_RPS = 0, bs_PeakRPS = 0,
     bs_Mean = (0, 1), bs_P50 = 0, bs_P90 = 0, bs_P95 = 0, bs_P99 = 0, bs_Max = 0, bs_CacheHitRate = 0, bs_CacheHits = 0, bs_CacheMiss = 0,
     bs_EventsQueued = 0, bs_EventsStored = 0, bs_IngestRate = 0, bs_Log = [], bs_Series = []\<rparr>"

text \<open>\<open>b_cancel\<close> is \<^const>\<open>None\<close> before the first run, and then whether its context was cancelled.\<close>

record bench =
  b_snap :: bench_snapshot
  b_last :: "(string, bench_snapshot) gomap"
  b_hist :: histogram
  b_cancel :: "bool option"
  b_running :: bool
  b_reqs :: int
  b_errs :: int

definition benchLogLines :: nat where "benchLogLines = 120"

definition NewBench :: bench where
  "NewBench = \<lparr>b_snap = zero_snapshot\<lparr>bs_Phase := ''idle''\<rparr>, b_last = [], b_hist = NewHistogram, b_cancel = None,
     b_running = False, b_reqs = 0, b_errs = 0\<rparr>"

definition bench_update :: "(bench_snapshot \<Rightarrow> bench_snapshot) \<Rightarrow> bench \<Rightarrow> bench" where
  "bench_update f b = b\<lparr>b_snap := f (b_snap b)\<rparr>"

definition setPhase :: "string \<Rightarrow> bench \<Rightarrow> bench" where
  "setPhase phase = bench_update (\<lambda>s. s\<lparr>bs_Phase := phase\<rparr>)"

definition bench_Stop :: "bench \<Rightarrow> bench" where
  "bench_Stop b = (case b_cancel b of None \<Rightarrow> b | Some _ \<Rightarrow> b\<lparr>b_cancel := Some True\<rparr>)"

text \<open>\<^verbatim>\<open>finish\<close> is two steps: the flag is cleared first, then the snapshot is changed under the lock.\<close>

definition finish_flag :: "bench \<Rightarrow> bench" where
  "finish_flag b = b\<lparr>b_running := False\<rparr>"

definition finish_record :: "bench \<Rightarrow> bench" where
  "finish_record b =
     (let s = b_snap b\<lparr>bs_Running := False, bs_Phase := ''done'', bs_Progress := 1\<rparr>;
          d = s\<lparr>bs_Requests := b_reqs b, bs_Errors := b_errs b, bs_Log := [], bs_Series := []\<rparr>
      in b\<lparr>b_snap := s, b_last := mput (bs_Kind d) d (b_last b)\<rparr>)"

definition finish :: "bench \<Rightarrow> bench" where
  "finish b = finish_record (finish_flag b)"

text \<open>The snapshot, and the last finished run of each kind.\<close>

definition Snapshot :: "bench \<Rightarrow> bench_snapshot \<times> bench_snapshot option \<times> bench_snapshot option" where
  "Snapshot b =
     (b_snap b\<lparr>bs_Requests := b_reqs b, bs_Errors := b_errs b\<rparr>, map_of (b_last b) ''redirect'', map_of (b_last b) ''ingest'')"

definition bench_log :: "string \<Rightarrow> bench \<Rightarrow> bench" where
  "bench_log line = bench_update (\<lambda>s.
     let l = bs_Log s @ [line] in s\<lparr>bs_Log := (if length l > benchLogLines then drop (length l - benchLogLines) l else l)\<rparr>)"

section \<open>Handlers\<close>

record bench_req =
  br_Duration :: int
  br_Concurrency :: int
  br_Kind :: string
  br_Events :: int

definition orDefault :: "int \<Rightarrow> int \<Rightarrow> int" where
  "orDefault v d = (if v = 0 then d else v)"

definition normalize :: "bench_req \<Rightarrow> bench_req" where
  "normalize req =
     \<lparr>br_Duration = clamp (orDefault (br_Duration req) 10) 5 60,
      br_Concurrency = clamp (orDefault (br_Concurrency req) 64) 1 512,
      br_Kind = (if br_Kind req \<noteq> ''ingest'' then ''redirect'' else br_Kind req),
      br_Events = clamp (orDefault (br_Events req) 1000000) 1000 5000000\<rparr>"

datatype bench_body = B_snapshot "bench_snapshot \<times> bench_snapshot option \<times> bench_snapshot option" | B_stopping

definition handleBenchStatus :: "bench \<Rightarrow> bench_body response" where
  "handleBenchStatus b = writeJSON 200 (B_snapshot (Snapshot b))"

definition requireAdmin :: "user option \<Rightarrow> bench_body response option" where
  "requireAdmin u =
     (case u of
        Some u \<Rightarrow> if u_Role u \<noteq> ''admin'' then Some (writeErr 403 ''benchmarks are restricted to the admin account'') else None
      | None \<Rightarrow> Some (writeErr 403 ''benchmarks are restricted to the admin account''))"

definition handleBenchStop :: "user option \<Rightarrow> bench \<Rightarrow> bench_body response \<times> bench" where
  "handleBenchStop u b =
     (case requireAdmin u of Some w \<Rightarrow> (w, b) | None \<Rightarrow> (writeJSON 200 B_stopping, bench_Stop b))"

fun benchCodes_loop ::
  "('r, 'db, 'u, 'a, 'p, 'i) ext \<Rightarrow> string list \<Rightarrow> string list \<Rightarrow> ('r, 'db, 'p) app \<Rightarrow> (go_error + string list) \<times> ('r, 'db, 'p) app" where
  "benchCodes_loop X [] out a = (Inr out, a)"
| "benchCodes_loop X (code # codes) out a =
     (let (res, st) = GetByCode (x_pg X) code (a_store a); a1 = a\<lparr>a_store := st\<rparr>
      in case res of
           Inl Err_no_rows \<Rightarrow> benchCodes_loop X codes out a1
         | Inl e \<Rightarrow> (Inl e, a1)
         | Inr l \<Rightarrow>
             benchCodes_loop X codes
               (if l_UserID l = adminID a1 \<and> l_Active l \<and> l_ExpiresAt l = None then out @ [l_Code l] else out) a1)"

definition benchCodes ::
  "('r, 'db, 'u, 'a, 'p, 'i) ext \<Rightarrow> ('r, 'db, 'p) app \<Rightarrow> (go_error + string list) \<times> ('r, 'db, 'p) app" where
  "benchCodes X a = benchCodes_loop X (benchLinks a) [] a"

text \<open>\<open>fresh\<close> is the new run's identifier and \<open>now\<close> its start.\<close>

definition begin_run :: "bench_req \<Rightarrow> string \<Rightarrow> int \<Rightarrow> bench \<Rightarrow> bench" where
  "begin_run req fresh now b =
     b\<lparr>b_hist := NewHistogram, b_reqs := 0, b_errs := 0, b_cancel := Some False,
       b_snap := zero_snapshot\<lparr>bs_ID := fresh, bs_Kind := br_Kind req, bs_Running := True, bs_Phase := ''warming'',
         bs_StartedAt := UnixMilli now, bs_DurationS := br_Duration req, bs_Concurrency := br_Concurrency req\<rparr>\<rparr>"

definition zero_req :: bench_req where
  "zero_req = \<lparr>br_Duration = 0, br_Concurrency = 0, br_Kind = [], br_Events = 0\<rparr>"

text \<open>The result also says which run is started, and on which codes.\<close>

definition handleBenchStart ::
  "('r, 'db, 'u, 'a, 'p, 'i) ext \<Rightarrow> user option \<Rightarrow> bench_req option \<Rightarrow> string \<Rightarrow> int \<Rightarrow> ('r, 'db, 'p) app \<Rightarrow> bench
     \<Rightarrow> bench_body response \<times> (bench_req \<times> string list) option \<times> ('r, 'db, 'p) app \<times> bench" where
  "handleBenchStart X u body fresh now a b =
     (case requireAdmin u of
        Some w \<Rightarrow> (w, None, a, b)
      | None \<Rightarrow>
          let req = normalize (case body of None \<Rightarrow> zero_req | Some req \<Rightarrow> req)
          in if b_running b then (writeErr 409 ''a benchmark is already running'', None, a, b)
             else let b1 = b\<lparr>b_running := True\<rparr>; (codes, a1) = benchCodes X a
                  in (case codes of
                        Inl e \<Rightarrow> (internalErr, None, a1, b1\<lparr>b_running := False\<rparr>)
                      | Inr [] \<Rightarrow>
                          (writeErr 400 (''the benchmark links are missing or disabled '' @ em_dash
                             @ '' restart the server to re-create them''), None, a1, b1\<lparr>b_running := False\<rparr>)
                      | Inr (c # cs) \<Rightarrow>
                          let b2 = begin_run req fresh now b1
                          in (writeJSON 202 (B_snapshot (Snapshot b2)), Some (req, c # cs), a1, b2)))"

section \<open>Runs\<close>

text \<open>One request of a worker: an error, or the latency in microseconds and the status.\<close>

definition worker_hit :: "(int \<times> int) option \<Rightarrow> bench \<Rightarrow> bench option" where
  "worker_hit res b =
     (case res of
        None \<Rightarrow> Some (b\<lparr>b_errs := b_errs b + 1\<rparr>)
      | Some (latency, status) \<Rightarrow>
          let b1 = (if status \<ge> 400 then b\<lparr>b_errs := b_errs b + 1\<rparr> else b)
          in map_option (\<lambda>h. b1\<lparr>b_hist := h, b_reqs := b_reqs b1 + 1\<rparr>) (Observe latency (b_hist b1)))"

text \<open>
  One tick of \<^verbatim>\<open>sampleProgress\<close>, \<open>dt\<close> seconds after the last one; \<open>r50\<close> and \<open>r99\<close> are the ranks of the
  percentiles.  The second result is \<^verbatim>\<open>lastReqs\<close> for the next tick.
\<close>

definition sample_tick :: "(int \<Rightarrow> int) \<Rightarrow> (int \<Rightarrow> int) \<Rightarrow> int \<Rightarrow> real \<Rightarrow> real \<Rightarrow> int \<Rightarrow> bench \<Rightarrow> bench \<times> int" where
  "sample_tick r50 r99 durationS elapsed dt lastReqs b =
     (let reqs = b_reqs b; rps = of_int (reqs - lastReqs) / dt; h = b_hist b; p99 = Percentile r99 h
      in (bench_update (\<lambda>s. s\<lparr>bs_Elapsed := elapsed, bs_Progress := elapsed / of_int durationS, bs_RPS := rps,
            bs_PeakRPS := max (bs_PeakRPS s) rps, bs_P99 := p99, bs_P50 := Percentile r50 h, bs_Mean := Mean h,
            bs_Series := bs_Series s @ [\<lparr>bt_T = elapsed, bt_RPS = rps, bt_P99 = p99\<rparr>]\<rparr>) b, reqs))"

definition hitRate :: "u64 \<Rightarrow> u64 \<Rightarrow> real" where
  "hitRate hits misses = (if hits + misses = 0 then 0 else of_nat (unat hits) / of_nat (unat (hits + misses)) * 100)"

text \<open>What \<^verbatim>\<open>runRedirectBench\<close> reports; \<open>before\<close> holds the cache counters at the start of the load.\<close>

definition redirect_report ::
  "(int \<Rightarrow> int) \<Rightarrow> (int \<Rightarrow> int) \<Rightarrow> (int \<Rightarrow> int) \<Rightarrow> (int \<Rightarrow> int) \<Rightarrow> real \<Rightarrow> u64 \<times> u64 \<Rightarrow> ('r, 'db, 'p) app \<Rightarrow> bench \<Rightarrow> bench" where
  "redirect_report r50 r90 r95 r99 elapsed before a b =
     (let h = b_hist b; reqs = b_reqs b; hits = Hits (a_cache a) - fst before; misses = Misses (a_cache a) - snd before
      in bench_update (\<lambda>s. s\<lparr>bs_Elapsed := elapsed, bs_RPS := of_int reqs / elapsed, bs_Mean := Mean h,
           bs_P50 := Percentile r50 h, bs_P90 := Percentile r90 h, bs_P95 := Percentile r95 h, bs_P99 := Percentile r99 h,
           bs_Max := MaxUS h, bs_CacheHitRate := hitRate hits misses, bs_CacheHits := hits, bs_CacheMiss := misses,
           bs_EventsQueued := of_int reqs, bs_EventsStored := TotalRows (a_olap a)\<rparr>) b)"

definition ingestBatch :: nat where "ingestBatch = 20000"

text \<open>\<^verbatim>\<open>report\<close> of \<^verbatim>\<open>runIngestBench\<close>, \<open>el\<close> seconds after the start.\<close>

definition ingest_report :: "real \<Rightarrow> nat \<Rightarrow> olap \<Rightarrow> bench \<Rightarrow> bench" where
  "ingest_report el produced s =
     bench_update (\<lambda>sn. sn\<lparr>bs_Elapsed := el, bs_EventsQueued := of_nat produced, bs_EventsStored := TotalRows s,
       bs_IngestRate := of_nat produced / el\<rparr>)"

datatype ingest_line = Il_start | Il_cancelled nat | Il_progress nat | Il_rate | Il_rows | Il_views

text \<open>
  The loop of \<^verbatim>\<open>runIngestBench\<close> over the events it synthesises, \<open>n\<close> in all; \<open>cancelled\<close> tells whether the
  context is done and \<open>el\<close> how long the run has lasted when a number of events was produced, and
  \<open>days\<close> the order in which an insert visits the days of its batch; \<open>say\<close> is the text of a log line.  The results are the
  unwritten batch, the number produced, the store and the benchmark.
\<close>

fun ingest_loop ::
  "(ingest_line \<Rightarrow> string) \<Rightarrow> (nat \<Rightarrow> bool) \<Rightarrow> (nat \<Rightarrow> real) \<Rightarrow> (click_event list \<Rightarrow> string list) \<Rightarrow> nat \<Rightarrow> click_event list \<Rightarrow> click_event list \<Rightarrow> nat \<Rightarrow> olap
     \<Rightarrow> bench \<Rightarrow> click_event list \<times> nat \<times> olap \<times> bench" where
  "ingest_loop say cancelled el days n [] batch produced s b = (batch, produced, s, b)"
| "ingest_loop say cancelled el days n (e # es) batch produced s b =
     (if cancelled produced then ([], produced, s, bench_log (say (Il_cancelled produced)) b)
      else let batch1 = batch @ [e]; produced1 = produced + 1
           in if length batch1 = ingestBatch
              then let s1 = Insert (days batch1) batch1 s;
                       b1 = bench_update (\<lambda>sn. sn\<lparr>bs_Progress := of_nat produced1 / of_nat n\<rparr>) b;
                       b2 = ingest_report (el produced1) produced1 s1 b1
                   in ingest_loop say cancelled el days n es [] produced1 s1
                        (if produced1 mod 200000 = 0 then bench_log (say (Il_progress produced1)) b2 else b2)
              else ingest_loop say cancelled el days n es batch1 produced1 s b)"

definition runIngestBench ::
  "(ingest_line \<Rightarrow> string) \<Rightarrow> (nat \<Rightarrow> bool) \<Rightarrow> (nat \<Rightarrow> real) \<Rightarrow> (click_event list \<Rightarrow> string list) \<Rightarrow> click_event list \<Rightarrow> olap \<Rightarrow> bench \<Rightarrow> olap \<times> bench" where
  "runIngestBench say cancelled el days es s b =
     (let (batch, produced, s1, b1) = ingest_loop say cancelled el days (length es) es [] 0 s (setPhase ''running'' (bench_log (say Il_start) b));
          s2 = Insert (days batch) batch s1;
          b2 = ingest_report (el produced) produced s2 b1
      in (s2, finish (bench_log (say Il_views) (bench_log (say Il_rows) (bench_log (say Il_rate) b2)))))"

text \<open>A synthetic event; \<open>codes\<close> is not empty.\<close>

definition bench_event ::
  "'g rand_int \<Rightarrow> 'g \<Rightarrow> int \<Rightarrow> int \<Rightarrow> string list \<Rightarrow> (click_event \<times> 'g) option" where
  "bench_event rnd g0 now admin codes =
     (case pickCountry rnd g0 of
        None \<Rightarrow> None
      | Some ((country, city), g1) \<Rightarrow>
          (case pickDevice rnd g1 of
             None \<Rightarrow> None
           | Some ((dev, brw, os), g2) \<Rightarrow>
               let (ts, g3) = rnd g2 hourMS; (ci, g4) = rnd g3 (int (length codes))
               in (case pickReferrer rnd g4 of
                     None \<Rightarrow> None
                   | Some (ref, g5) \<Rightarrow>
                       let (bt, g6) = rnd g5 100
                       in Some (\<lparr>ev_TS = now - ts, ev_Code = codes ! nat ci, ev_UserID = admin, ev_Country = country, ev_City = city,
                             ev_Ref = ref, ev_Device = dev, ev_Browser = brw, ev_OS = os, ev_Bot = (bt < 4),
                             ev_Status = 302, ev_Hit = True\<rparr>, g6))))"

lemma bench_log_frame [simp]:
  "b_hist (bench_log l b) = b_hist b" "b_last (bench_log l b) = b_last b" "b_reqs (bench_log l b) = b_reqs b"
  "b_errs (bench_log l b) = b_errs b" "b_running (bench_log l b) = b_running b" "b_cancel (bench_log l b) = b_cancel b"
  "bs_Kind (b_snap (bench_log l b)) = bs_Kind (b_snap b)" "bs_EventsQueued (b_snap (bench_log l b)) = bs_EventsQueued (b_snap b)"
  "bs_EventsStored (b_snap (bench_log l b)) = bs_EventsStored (b_snap b)" "bs_P50 (b_snap (bench_log l b)) = bs_P50 (b_snap b)"
  "bs_P99 (b_snap (bench_log l b)) = bs_P99 (b_snap b)"
  by (simp_all add: bench_log_def bench_update_def Let_def)

section \<open>One benchmark at a time\<close>

text \<open>
  The requests and the runs in progress.  A request that won the compare-and-swap is \<open>Claimed\<close>; its run
  is \<open>Active\<close> until \<^verbatim>\<open>finish\<close> clears the flag, and \<open>Ending\<close> until the snapshot is changed too.
\<close>

datatype runner = Claimed | Active | Ending | Ended

inductive bench_step :: "bench \<times> runner list \<Rightarrow> bench \<times> runner list \<Rightarrow> bool" where
  s_claim: "\<not> b_running b \<Longrightarrow> bench_step (b, rs) (b\<lparr>b_running := True\<rparr>, rs @ [Claimed])"
| s_refuse: "i < length rs \<Longrightarrow> rs ! i = Claimed \<Longrightarrow> bench_step (b, rs) (b\<lparr>b_running := False\<rparr>, rs[i := Ended])"
| s_start: "i < length rs \<Longrightarrow> rs ! i = Claimed \<Longrightarrow> bench_step (b, rs) (begin_run req fresh now b, rs[i := Active])"
| s_hit: "Active \<in> set rs \<Longrightarrow> worker_hit res b = Some b' \<Longrightarrow> bench_step (b, rs) (b', rs)"
| s_write: "Active \<in> set rs \<Longrightarrow> bench_step (b, rs) (bench_update f b, rs)"
| s_stop: "bench_step (b, rs) (bench_Stop b, rs)"
| s_flag: "i < length rs \<Longrightarrow> rs ! i = Active \<Longrightarrow> bench_step (b, rs) (finish_flag b, rs[i := Ending])"
| s_note_done: "i < length rs \<Longrightarrow> rs ! i = Ending \<Longrightarrow> bench_step (b, rs) (finish_record b, rs[i := Ended])"

definition holder :: "runner \<Rightarrow> bool" where
  "holder r = (r = Claimed \<or> r = Active)"

lemma holder_simps [simp]: "holder Claimed" "holder Active" "\<not> holder Ending" "\<not> holder Ended"
  by (simp_all add: holder_def)

lemma filter_update_count:
  "i < length xs \<Longrightarrow> length (filter P (xs[i := x])) + (if P (xs ! i) then 1 else 0) = length (filter P xs) + (if P x then 1 else 0)"
proof (induction xs arbitrary: i)
  case (Cons y ys)
  then show ?case by (cases i) (use Cons.IH in fastforce)+
qed simp

lemma worker_hit_running: "worker_hit res b = Some b' \<Longrightarrow> b_running b' = b_running b"
  by (auto simp: worker_hit_def Let_def split: option.splits prod.splits if_splits)

lemma running_frame [simp]:
  "b_running (begin_run req fresh now b) = b_running b" "b_running (bench_update f b) = b_running b"
  "b_running (bench_Stop b) = b_running b" "b_running (finish_flag b) = False" "b_running (finish_record b) = b_running b"
  by (simp_all add: begin_run_def bench_update_def bench_Stop_def finish_flag_def finish_record_def Let_def split: option.split)

lemma holders_update:
  assumes "i < length rs" "length (filter holder rs) = (if r then 1 else 0)" "holder (rs ! i)"
  shows "length (filter holder (rs[i := x])) = (if holder x then 1 else 0) \<and> r"
proof -
  have "filter holder rs \<noteq> []" using assms(1,3) by (auto simp: filter_empty_conv)
  then show ?thesis using filter_update_count [OF assms(1), of holder x] assms(2,3) by (simp split: if_splits)
qed

lemma holders_keep:
  assumes "i < length rs" "\<not> holder (rs ! i)" "\<not> holder x"
  shows "length (filter holder (rs[i := x])) = length (filter holder rs)"
  using filter_update_count [OF assms(1), of holder x] assms(2,3) by simp

definition one_holder :: "bench \<times> runner list \<Rightarrow> bool" where
  "one_holder s \<longleftrightarrow> length (filter holder (snd s)) = (if b_running (fst s) then 1 else 0)"

lemma bench_step_holders:
  assumes "bench_step s s'" "one_holder s"
  shows "one_holder s'"
  using assms unfolding one_holder_def
proof (induction rule: bench_step.induct)
  case (s_refuse i rs b)
  then show ?case using holders_update [of i rs "b_running b" Ended] by simp
next
  case (s_start i rs b req fresh now)
  then show ?case using holders_update [of i rs "b_running b" Active] by simp
next
  case (s_flag i rs b)
  then show ?case using holders_update [of i rs "b_running b" Ending] by simp
next
  case (s_note_done i rs b)
  then show ?case using holders_keep [of i rs Ended] by simp
qed (simp_all add: worker_hit_running)

interpretation running: preserved bench_step one_holder
  by unfold_locales (rule bench_step_holders)

lemma handleBenchStart_steps:
  assumes "handleBenchStart X u body fresh now a b = (w, run, a', b')"
  shows "\<exists>rs'. bench_step\<^sup>*\<^sup>* (b, rs) (b', rs') \<and> (run \<noteq> None \<longrightarrow> rs' = rs @ [Active])"
proof -
  define b1 where "b1 = b\<lparr>b_running := True\<rparr>"
  have l: "length rs < length (rs @ [Claimed])" "(rs @ [Claimed]) ! length rs = Claimed" by simp_all
  have c: "bench_step (b, rs) (b1, rs @ [Claimed])" if "\<not> b_running b" unfolding b1_def by (rule s_claim [OF that])
  have "bench_step\<^sup>*\<^sup>* (b, rs) (b1\<lparr>b_running := False\<rparr>, (rs @ [Claimed])[length rs := Ended])" if "\<not> b_running b"
    using c [OF that] s_refuse [OF l, of b1] by (metis converse_rtranclp_into_rtranclp r_into_rtranclp)
  moreover have "bench_step\<^sup>*\<^sup>* (b, rs) (begin_run req fresh now b1, (rs @ [Claimed])[length rs := Active])" if "\<not> b_running b" for req
    using c [OF that] s_start [OF l, of b1] by (metis converse_rtranclp_into_rtranclp r_into_rtranclp)
  ultimately show ?thesis
    using assms unfolding handleBenchStart_def b1_def [symmetric]
    by (auto simp: Let_def split: option.splits if_splits prod.splits sum.splits list.splits)
qed

section \<open>Rows of an ingest run\<close>

definition days_ok :: "(click_event list \<Rightarrow> string list) \<Rightarrow> bool" where
  "days_ok days \<longleftrightarrow> (\<forall>batch. distinct (days batch) \<and> set (days batch) = (\<lambda>e. dayKey (ev_TS e)) ` set batch)"

lemma insert_days_TotalRows:
  "TotalRows (fold (\<lambda>dk. insert_day dk (ev dk)) order s) = TotalRows s + of_nat (\<Sum>dk\<leftarrow>order. length (ev dk))"
proof (induction order arbitrary: s)
  case (Cons dk order)
  have "length (fst (event_rows (o_dict s) (ev dk))) = length (ev dk)"
    using event_rows_fields(1) [of "o_dict s" "ev dk"] by (metis length_map)
  with Cons insert_day_frame(2) [of dk "ev dk" s] show ?case by simp
qed simp

lemma Insert_TotalRows:
  assumes "distinct order" "set order = (\<lambda>e. dayKey (ev_TS e)) ` set batch"
  shows "TotalRows (Insert order batch s) = TotalRows s + of_nat (length batch)"
proof -
  have "(\<Sum>dk\<leftarrow>order. length (filter (\<lambda>e. dayKey (ev_TS e) = dk) batch)) = length batch"
    using count_by_day [OF assms(1), where batch = batch and R = "\<lambda>_. True" and g = "\<lambda>e. dayKey (ev_TS e)"] assms(2) by simp
  then show ?thesis by (simp add: Insert_def Let_def byDay_get insert_days_TotalRows)
qed

text \<open>The first number of events, from \<open>p\<close> on, at which a run over \<open>m\<close> more events is cancelled.\<close>

definition stops_at :: "(nat \<Rightarrow> bool) \<Rightarrow> nat \<Rightarrow> nat \<Rightarrow> nat \<Rightarrow> bool" where
  "stops_at cancelled p m k \<longleftrightarrow> p \<le> k \<and> k < p + m \<and> cancelled k \<and> (\<forall>i. p \<le> i \<and> i < k \<longrightarrow> \<not> cancelled i)"

lemma stops_at_0: "\<not> stops_at cancelled p 0 k"
  by (simp add: stops_at_def)

lemma stops_at_Suc:
  "stops_at cancelled p (Suc m) k \<longleftrightarrow> (if cancelled p then k = p else stops_at cancelled (Suc p) m k)"
proof (cases "cancelled p")
  case True
  then show ?thesis unfolding stops_at_def by (auto simp: not_less_eq_eq)
next
  case False
  then have "(\<forall>i. p \<le> i \<and> i < k \<longrightarrow> \<not> cancelled i) \<longleftrightarrow> (\<forall>i. Suc p \<le> i \<and> i < k \<longrightarrow> \<not> cancelled i)"
    by (metis Suc_leD le_neq_implies_less Suc_le_eq)
  moreover have "p \<le> k \<and> cancelled k \<longleftrightarrow> Suc p \<le> k \<and> cancelled k" using False by (auto simp: Suc_le_eq le_less)
  ultimately show ?thesis unfolding stops_at_def using False by auto
qed

lemma batch_full:
  "length batch = p mod ingestBatch \<Longrightarrow>
    (if length (batch @ [e]) = ingestBatch then 0 else length (batch @ [e])) = Suc p mod ingestBatch"
  by (auto simp: mod_Suc)

lemma ingest_loop_rows:
  assumes "days_ok days" "length batch = p mod ingestBatch" "TotalRows s + of_nat (length batch) = t0 + of_nat p"
    and "ingest_loop say cancelled el days n es batch p s b = (batch', p', s', b')"
  shows "((\<forall>k. \<not> stops_at cancelled p (length es) k) \<longrightarrow> p' = p + length es \<and> TotalRows s' + of_nat (length batch') = t0 + of_nat p')
    \<and> (\<forall>k. stops_at cancelled p (length es) k \<longrightarrow> p' = k \<and> batch' = [] \<and> TotalRows s' + of_nat (k mod ingestBatch) = t0 + of_nat k)"
  using assms(2-)
proof (induction es arbitrary: batch p s b)
  case (Cons e es)
  let ?b = "batch @ [e]"
  show ?case
  proof (cases "cancelled p")
    case True
    with Cons.prems show ?thesis by (auto simp: stops_at_Suc)
  next
    case go: False
    show ?thesis
    proof (cases "length ?b = ingestBatch")
      case True
      have "TotalRows (Insert (days ?b) ?b s) = TotalRows s + of_nat (length ?b)"
        using assms(1) by (intro Insert_TotalRows) (auto simp: days_ok_def)
      then have r: "TotalRows (Insert (days ?b) ?b s) = t0 + of_nat (Suc p)" using Cons.prems(2) by (simp add: algebra_simps)
      from go True Cons.prems(3) Cons.IH [where batch = "[]" and p = "Suc p" and s = "Insert (days ?b) ?b s"] r batch_full [OF Cons.prems(1), of e]
      show ?thesis by (simp add: Let_def stops_at_Suc split: if_splits)
    next
      case False
      have r: "TotalRows s + of_nat (length ?b) = t0 + of_nat (Suc p)" using Cons.prems(2) by (simp add: algebra_simps)
      have m: "length ?b = Suc p mod ingestBatch" using batch_full [OF Cons.prems(1), of e] False by simp
      from go False Cons.prems(3) Cons.IH [where batch = ?b and p = "Suc p" and s = s, OF m r]
      show ?thesis by (simp add: Let_def stops_at_Suc)
    qed
  qed
qed (simp add: stops_at_0)

section \<open>Properties\<close>

text \<open>C13: only one benchmark runs at a time: however requests, runs, stops and endings interleave, there
  is exactly one request or run that holds the running flag while it is set and none while it
  is clear.\<close>

theorem bench_exclusive:
  assumes "bench_step\<^sup>*\<^sup>* (NewBench, []) (b, rs)"
  shows "length (filter (\<lambda>r. r = Claimed \<or> r = Active) rs) = (if b_running b then 1 else 0)"
  using running.run_keeps [OF assms] by (simp add: one_holder_def NewBench_def holder_def [abs_def])

theorem bench_exclusive_witness:
  "length (filter (\<lambda>r. r = Claimed \<or> r = Active) [Claimed]) = (if b_running (NewBench\<lparr>b_running := True\<rparr>) then 1 else 0)"
  by (rule bench_exclusive, rule r_into_rtranclp) (use s_claim [of NewBench "[]"] in \<open>simp add: NewBench_def\<close>)

text \<open>C40: the end of one run can mark the next one: as \<^verbatim>\<open>finish\<close> clears the flag before it takes the
  lock, a run that starts in between is shown as done while it is running, and is kept as the
  last finished run of its kind, in place of the run that did finish.\<close>

theorem bench_finish_race:
  "\<exists>b rs. bench_step\<^sup>*\<^sup>* (NewBench, []) (b, rs) \<and> Active \<in> set rs \<and> b_running b
     \<and> (case Snapshot b of (s, lastRedirect, lastIngest) \<Rightarrow>
          bs_ID s = ''second'' \<and> \<not> bs_Running s \<and> bs_Phase s = ''done''
          \<and> lastRedirect = None \<and> map_option bs_ID lastIngest = Some ''second'')"
proof -
  let ?first = "normalize zero_req" and ?second = "(normalize zero_req)\<lparr>br_Kind := ''ingest''\<rparr>"
  define b1 where "b1 = NewBench\<lparr>b_running := True\<rparr>"
  define b2 where "b2 = begin_run ?first ''first'' 0 b1"
  define b3 where "b3 = finish_flag b2"
  define b4 where "b4 = b3\<lparr>b_running := True\<rparr>"
  define b5 where "b5 = begin_run ?second ''second'' 0 b4"
  define b6 where "b6 = finish_record b5"
  have s1: "bench_step (NewBench, []) (b1, [Claimed])" using s_claim [of NewBench "[]"] by (simp add: b1_def NewBench_def)
  have s2: "bench_step (b1, [Claimed]) (b2, [Active])" using s_start [of 0 "[Claimed]" b1] by (simp add: b2_def)
  have s3: "bench_step (b2, [Active]) (b3, [Ending])" using s_flag [of 0 "[Active]" b2] by (simp add: b3_def)
  have s4: "bench_step (b3, [Ending]) (b4, [Ending, Claimed])" using s_claim [of b3 "[Ending]"] by (simp add: b3_def b4_def)
  have s5: "bench_step (b4, [Ending, Claimed]) (b5, [Ending, Active])"
    using s_start [of 1 "[Ending, Claimed]" b4] by (simp add: b5_def)
  have s6: "bench_step (b5, [Ending, Active]) (b6, [Ended, Active])"
    using s_note_done [of 0 "[Ending, Active]" b5] by (simp add: b6_def)
  have "bench_step\<^sup>*\<^sup>* (NewBench, []) (b6, [Ended, Active])"
    using s1 s2 s3 s4 s5 s6 by (meson converse_rtranclp_into_rtranclp r_into_rtranclp)
  moreover have "b_running b6" by (simp add: b6_def b5_def b4_def)
  ultimately show ?thesis
    by (intro exI [of _ b6] exI [of _ "[Ended, Active]"])
      (simp add: Snapshot_def b6_def b5_def b4_def b3_def b2_def b1_def finish_record_def finish_flag_def begin_run_def
        NewBench_def normalize_def zero_req_def zero_snapshot_def Let_def)
qed

text \<open>C32: an ingest run writes every event it reports unless it is cancelled: then the rows it stored are those of
  the whole batches before the cancellation, and the partial batch is dropped although it is counted
  as queued.\<close>

theorem ingest_rows:
  fixes say cancelled el es s b
  assumes "days_ok days"
  defines "r \<equiv> runIngestBench say cancelled el days es s b"
  shows "((\<forall>i < length es. \<not> cancelled i) \<longrightarrow>
           TotalRows (fst r) = TotalRows s + of_nat (length es) \<and> bs_EventsQueued (b_snap (snd r)) = of_nat (length es))
    \<and> (\<forall>k < length es. cancelled k \<and> (\<forall>i<k. \<not> cancelled i) \<longrightarrow>
           TotalRows (fst r) = TotalRows s + of_nat (k - k mod 20000) \<and> bs_EventsQueued (b_snap (snd r)) = of_nat k)
    \<and> bs_EventsStored (b_snap (snd r)) = TotalRows (fst r)"
proof -
  obtain batch p s1 b1 where l: "ingest_loop say cancelled el days (length es) es [] 0 s (setPhase ''running'' (bench_log (say Il_start) b)) = (batch, p, s1, b1)"
    by (metis prod_cases4)
  have f: "TotalRows (fst r) = TotalRows s1 + of_nat (length batch)"
    using assms(1) unfolding r_def runIngestBench_def l by (simp add: Insert_TotalRows days_ok_def Let_def)
  have q: "bs_EventsQueued (b_snap (snd r)) = of_nat p" "bs_EventsStored (b_snap (snd r)) = TotalRows (fst r)"
    unfolding r_def runIngestBench_def l
    by (simp_all add: finish_def finish_flag_def finish_record_def ingest_report_def bench_update_def Let_def)
  have g: "((\<forall>k. \<not> stops_at cancelled 0 (length es) k) \<longrightarrow> p = length es \<and> TotalRows s1 + of_nat (length batch) = TotalRows s + of_nat p)
    \<and> (\<forall>k. stops_at cancelled 0 (length es) k \<longrightarrow> p = k \<and> batch = [] \<and> TotalRows s1 + of_nat (k mod ingestBatch) = TotalRows s + of_nat k)"
    using ingest_loop_rows [OF assms(1) _ _ l, of "TotalRows s"] by simp
  have "TotalRows (fst r) = TotalRows s + of_nat (k - k mod 20000) \<and> bs_EventsQueued (b_snap (snd r)) = of_nat k"
    if "k < length es" "cancelled k" "\<forall>i<k. \<not> cancelled i" for k
  proof -
    have "p = k" "batch = []" "TotalRows s1 + of_nat (k mod ingestBatch) = TotalRows s + of_nat k"
      using g that by (simp_all add: stops_at_def)
    then show ?thesis using f q by (simp add: ingestBatch_def of_nat_diff algebra_simps)
  qed
  moreover have "p = length es \<and> TotalRows s1 + of_nat (length batch) = TotalRows s + of_nat p" if "\<forall>i < length es. \<not> cancelled i"
    using g that unfolding stops_at_def by fastforce
  ultimately show ?thesis using f q by auto
qed

theorem ingest_rows_witness:
  "TotalRows (fst (runIngestBench (\<lambda>_. []) (\<lambda>k. k = 1) (\<lambda>_. 1) (\<lambda>batch. remdups (map (\<lambda>e. dayKey (ev_TS e)) batch)) [zero_event, zero_event] (NewOLAP 30) NewBench)) = 0"
  using ingest_rows [where days = "\<lambda>batch. remdups (map (\<lambda>e. dayKey (ev_TS e)) batch)" and es = "[zero_event, zero_event]"
    and cancelled = "\<lambda>k. k = 1" and el = "\<lambda>_. 1" and s = "NewOLAP 30" and b = NewBench and say = "\<lambda>_. []"]
  by (simp add: days_ok_def NewOLAP_def)

end
