(* ===== verification/Seed.thy ===== *)
theory Seed
  imports Bench
begin

text \<open>
  \<^verbatim>\<open>backend/seed.go\<close>: the accounts, links and click history made at boot.  Floating-point numbers are
  reals, and the random generator is a pair of functions on its state: \<open>flt\<close> for \<^verbatim>\<open>Float64\<close> and
  \<open>intn\<close> for \<^verbatim>\<open>Intn\<close>.  The rejection loop of the backfill has fuel; \<^const>\<open>None\<close> is a panic, a clock trace too short,
  or a loop that is still rejecting.  Log lines are left out.
\<close>

section \<open>Accounts\<close>

definition seedAdmin ::
  "('r, 'db, 'u, 'a, 'p, 'i) ext \<Rightarrow> auth_api \<Rightarrow> string \<Rightarrow> i64 list \<Rightarrow> int \<Rightarrow> ('r, 'db, 'p) app \<Rightarrow> ((go_error + user) \<times> ('r, 'db, 'p) app) option" where
  "seedAdmin X A salt clock now a =
     (let (found, st) = GetUserByEmail (x_pg X) (x_lower X) (cfg_AdminEmail (a_cfg a)) (a_store a); a1 = a\<lparr>a_store := st\<rparr>
      in case found of
           Inl _ \<Rightarrow> createUser X A (cfg_AdminEmail (a_cfg a)) (cfg_AdminPass (a_cfg a)) ''Kortex Admin'' ''admin'' salt clock now a1
         | Inr (u, hash) \<Rightarrow>
             if verifyPassword A (cfg_AdminPass (a_cfg a)) hash then Some (Inr u, a1)
             else (case hashPassword A (cfg_AdminPass (a_cfg a)) salt of
                     Inl e \<Rightarrow> Some (Inl e, a1)
                   | Inr h \<Rightarrow>
                       let (err, st2) = SetPassword (x_pg X) (u_ID u) h (a_store a1); a2 = a1\<lparr>a_store := st2\<rparr>
                       in (case err of Some e \<Rightarrow> Some (Inl e, a2) | None \<Rightarrow> Some (Inr u, a2))))"

text \<open>\<open>rnd1\<close> and \<open>rnd2\<close> are the random bytes of the password.\<close>

definition seedDemoUser ::
  "('r, 'db, 'u, 'a, 'p, 'i) ext \<Rightarrow> auth_api \<Rightarrow> char list \<Rightarrow> char list \<Rightarrow> string \<Rightarrow> i64 list \<Rightarrow> int \<Rightarrow> ('r, 'db, 'p) app
     \<Rightarrow> ((go_error + user) \<times> ('r, 'db, 'p) app) option" where
  "seedDemoUser X A rnd1 rnd2 salt clock now a =
     (let pass = randomHex rnd1 @ randomHex rnd2;
          (found, st) = GetUserByEmail (x_pg X) (x_lower X) (cfg_DemoEmail (a_cfg a)) (a_store a); a1 = a\<lparr>a_store := st\<rparr>
      in case found of
           Inl Err_no_rows \<Rightarrow> createUser X A (cfg_DemoEmail (a_cfg a)) pass ''Demo visitor'' ''demo'' salt clock now a1
         | Inl e \<Rightarrow> Some (Inl e, a1)
         | Inr (u, _) \<Rightarrow>
             (case hashPassword A pass salt of
                Inl e \<Rightarrow> Some (Inl e, a1)
              | Inr h \<Rightarrow>
                  let (err, st2) = SetPasswordAndRole (x_pg X) (u_ID u) h ''demo'' (a_store a1); a2 = a1\<lparr>a_store := st2\<rparr>
                  in (case err of Some e \<Rightarrow> Some (Inl e, a2) | None \<Rightarrow> Some (Inr (u\<lparr>u_Role := ''demo''\<rparr>), a2))))"

section \<open>Links\<close>

record seedLink =
  sl_URL :: string
  sl_Title :: string
  sl_Alias :: string
  sl_Weight :: real

definition seedLinks :: "seedLink list" where
  "seedLinks =
    [\<lparr>sl_URL = ''https://clickhouse.com/docs/en/engines/table-engines/mergetree-family/mergetree'', sl_Title = ''MergeTree engine docs'', sl_Alias = ''mergetree'', sl_Weight = 1\<rparr>,
     \<lparr>sl_URL = ''https://kafka.apache.org/documentation/#design'', sl_Title = ''Kafka design doc'', sl_Alias = ''kafka-design'', sl_Weight = 72 / 100\<rparr>,
     \<lparr>sl_URL = ''https://redis.io/docs/latest/develop/reference/eviction/'', sl_Title = ''Redis eviction policies'', sl_Alias = '''', sl_Weight = 55 / 100\<rparr>,
     \<lparr>sl_URL = ''https://en.wikipedia.org/wiki/Consistent_hashing'', sl_Title = ''Consistent hashing'', sl_Alias = ''hashring'', sl_Weight = 44 / 100\<rparr>,
     \<lparr>sl_URL = ''https://github.com/twitter-archive/snowflake'', sl_Title = ''Twitter Snowflake'', sl_Alias = ''snowflake'', sl_Weight = 38 / 100\<rparr>,
     \<lparr>sl_URL = ''https://www.postgresql.org/docs/current/ddl-partitioning.html'', sl_Title = ''Postgres partitioning'', sl_Alias = '''', sl_Weight = 30 / 100\<rparr>,
     \<lparr>sl_URL = ''https://grafana.com/docs/k6/latest/'', sl_Title = ''k6 load testing'', sl_Alias = ''k6'', sl_Weight = 22 / 100\<rparr>,
     \<lparr>sl_URL = ''https://nginx.org/en/docs/http/ngx_http_upstream_module.html'', sl_Title = ''nginx upstream module'', sl_Alias = '''', sl_Weight = 16 / 100\<rparr>,
     \<lparr>sl_URL = ''https://go.dev/blog/pipelines'', sl_Title = ''Go concurrency pipelines'', sl_Alias = '''', sl_Weight = 11 / 100\<rparr>,
     \<lparr>sl_URL = ''https://sre.google/sre-book/service-level-objectives/'', sl_Title = ''Google SRE: SLOs'', sl_Alias = ''slo'', sl_Weight = 8 / 100\<rparr>]"

definition hourNS :: int where "hourNS = 3600 * 1000000000"

text \<open>\<open>now\<close> is the clock at the creation date and \<open>now'\<close> at the expiry.\<close>

definition newSeedLink :: "i64 \<Rightarrow> seedLink \<Rightarrow> int \<Rightarrow> nat \<Rightarrow> int \<Rightarrow> int \<Rightarrow> link option" where
  "newSeedLink ident sl ownerID i now now' =
     map_option (\<lambda>code.
       \<lparr>l_ID = sint ident, l_Code = (if sl_Alias sl \<noteq> [] then sl_Alias sl else code), l_LongURL = sl_URL sl, l_Title = sl_Title sl,
        l_UserID = ownerID, l_Custom = (sl_Alias sl \<noteq> []), l_Redirect = 302,
        l_ExpiresAt = (if int i = int (length seedLinks) - 1 then Some (now' + 48 * hourNS) else None),
        l_CreatedAt = now - (14 - int i) * 24 * hourNS, l_Clicks = 0, l_Active = True, l_Shard = 0\<rparr>)
       (encodeCode ident)"

fun find_seed :: "seedLink \<Rightarrow> link list \<Rightarrow> link option \<Rightarrow> link option" where
  "find_seed sl [] best = best"
| "find_seed sl (l # ls) best =
     (if sl_Alias sl \<noteq> [] then (if l_Code l = sl_Alias sl then Some l else find_seed sl ls best)
      else find_seed sl ls
             (if \<not> l_Custom l \<and> l_LongURL l = sl_URL sl \<and> (case best of None \<Rightarrow> True | Some b \<Rightarrow> l_CreatedAt l < l_CreatedAt b)
              then Some l else best))"

definition findSeed :: "seedLink \<Rightarrow> link list \<Rightarrow> link option" where
  "findSeed sl links = find_seed sl links None"

text \<open>The lists of the owner and of the other accounts; \<open>x_sort\<close> orders equal creation dates.\<close>

fun list_all_users ::
  "('r, 'db, 'u, 'a, 'p, 'i) ext \<Rightarrow> int list \<Rightarrow> link list \<Rightarrow> ('r, 'db, 'p) app \<Rightarrow> (go_error + link list) \<times> ('r, 'db, 'p) app" where
  "list_all_users X [] existing a = (Inr existing, a)"
| "list_all_users X (u # us) existing a =
     (let (found, st) = ListByUser (x_pg X) (x_sort X) u 500 (a_store a); a1 = a\<lparr>a_store := st\<rparr>
      in case found of Inl e \<Rightarrow> (Inl e, a1) | Inr ls \<Rightarrow> list_all_users X us (existing @ ls) a1)"

text \<open>The loop over the seed entries, with their indices; \<open>now\<close> gives the two clock readings of a new link.\<close>

fun ensure_loop ::
  "('r, 'db, 'u, 'a, 'p, 'i) ext \<Rightarrow> int \<Rightarrow> link list \<Rightarrow> (nat \<Rightarrow> int \<times> int) \<Rightarrow> (nat \<times> seedLink) list \<Rightarrow> i64 list
     \<Rightarrow> link list \<Rightarrow> string list \<Rightarrow> ('r, 'db, 'p) app \<Rightarrow> (link list \<times> string list \<times> ('r, 'db, 'p) app) option" where
  "ensure_loop X own existing now [] clock links mv a = Some (links, mv, a)"
| "ensure_loop X own existing now ((i, sl) # rest) clock links mv a =
     (case findSeed sl existing of
        Some l \<Rightarrow>
          (if l_UserID l \<noteq> own then ensure_loop X own existing now rest clock (links @ [l\<lparr>l_UserID := own\<rparr>]) (mv @ [l_Code l]) a
           else ensure_loop X own existing now rest clock (links @ [l]) mv a)
      | None \<Rightarrow>
          (case Next (a_ids a) clock of
             None \<Rightarrow> None
           | Some (ident, sf, clock') \<Rightarrow>
               (case newSeedLink ident sl own i (fst (now i)) (snd (now i)) of
                  None \<Rightarrow> None
                | Some l0 \<Rightarrow>
                    let ((err, l), st) = InsertLink (x_pg X) l0 (a_store a); a1 = a\<lparr>a_ids := sf, a_store := st\<rparr>
                    in ensure_loop X own existing now rest clock' (case err of None \<Rightarrow> links @ [l] | Some _ \<Rightarrow> links) mv a1)))"

definition ensureSeedLinks ::
  "('r, 'db, 'u, 'a, 'p, 'i) ext \<Rightarrow> ((int, string list) gomap \<Rightarrow> (int, string list) gomap) \<Rightarrow> int \<Rightarrow> int list \<Rightarrow> (nat \<Rightarrow> int \<times> int) \<Rightarrow> i64 list
     \<Rightarrow> ('r, 'db, 'p) app \<Rightarrow> ((go_error + link list) \<times> ('r, 'db, 'p) app) option" where
  "ensureSeedLinks X order own others now clock a =
     (case list_all_users X (own # others) [] a of
        (Inl e, a1) \<Rightarrow> Some (Inl e, a1)
      | (Inr existing, a1) \<Rightarrow>
          (case ensure_loop X own existing now (List.enumerate 0 seedLinks) clock [] [] a1 of
             None \<Rightarrow> None
           | Some (links, mv, a2) \<Rightarrow>
               if mv = [] then Some (Inr links, a2)
               else let (err, st) = ReassignLinks (x_pg X) order mv own (a_store a2); a3 = a2\<lparr>a_store := st\<rparr>
                    in (case err of Some e \<Rightarrow> Some (Inl e, a3) | None \<Rightarrow> Some (Inr links, a3))))"

definition benchLinkCount :: int where "benchLinkCount = 16"

definition bench_code :: "int \<Rightarrow> string" where "bench_code i = benchAliasPrefix @ pad_int 2 i"

definition bench_link :: "i64 \<Rightarrow> int \<Rightarrow> int \<Rightarrow> int \<Rightarrow> link" where
  "bench_link ident i admin now =
     \<lparr>l_ID = sint ident, l_Code = bench_code i, l_LongURL = ''https://example.com/'', l_Title = ''Benchmark target '' @ pad_int 2 i,
      l_UserID = admin, l_Custom = True, l_Redirect = 302, l_ExpiresAt = None, l_CreatedAt = now, l_Clicks = 0, l_Active = True, l_Shard = 0\<rparr>"

text \<open>The end of an iteration: the filter, the cache and the list of targets learn the link.\<close>

definition keep_bench_link ::
  "('r, 'db, 'u, 'a, 'p, 'i) ext \<Rightarrow> link \<Rightarrow> ('r, 'db, 'p) app \<Rightarrow> ('r, 'db, 'p) app option" where
  "keep_bench_link X l a =
     map_option (\<lambda>a1. a1\<lparr>a_cache := Cache.Set (x_redis X) (x_json X) l (a_cache a1), benchLinks := benchLinks a1 @ [l_Code l]\<rparr>)
       (bloom_add (l_Code l) a)"

fun bench_links_loop ::
  "('r, 'db, 'u, 'a, 'p, 'i) ext \<Rightarrow> int \<Rightarrow> (int \<Rightarrow> int) \<Rightarrow> int list \<Rightarrow> i64 list \<Rightarrow> ('r, 'db, 'p) app \<Rightarrow> ('r, 'db, 'p) app option" where
  "bench_links_loop X admin now [] clock a = Some a"
| "bench_links_loop X admin now (i # rest) clock a =
     (let (found, st) = GetByCode (x_pg X) (bench_code i) (a_store a); a1 = a\<lparr>a_store := st\<rparr>
      in case found of
           Inr l \<Rightarrow>
             (if l_UserID l \<noteq> admin then bench_links_loop X admin now rest clock a1
              else Option.bind (keep_bench_link X l a1) (bench_links_loop X admin now rest clock))
         | Inl Err_no_rows \<Rightarrow>
             (case Next (a_ids a1) clock of
                None \<Rightarrow> None
              | Some (ident, sf, clock') \<Rightarrow>
                  let ((err, l), st2) = InsertLink (x_pg X) (bench_link ident i admin (now i)) (a_store a1);
                      a2 = a1\<lparr>a_ids := sf, a_store := st2\<rparr>
                  in (case err of
                        Some _ \<Rightarrow> bench_links_loop X admin now rest clock' a2
                      | None \<Rightarrow> Option.bind (keep_bench_link X l a2) (bench_links_loop X admin now rest clock')))
         | Inl e \<Rightarrow> bench_links_loop X admin now rest clock a1)"

definition seedBenchLinks ::
  "('r, 'db, 'u, 'a, 'p, 'i) ext \<Rightarrow> int \<Rightarrow> (int \<Rightarrow> int) \<Rightarrow> i64 list \<Rightarrow> ('r, 'db, 'p) app \<Rightarrow> ('r, 'db, 'p) app option" where
  "seedBenchLinks X admin now clock a = bench_links_loop X admin now [1..benchLinkCount] clock (a\<lparr>benchLinks := []\<rparr>)"

section \<open>Click history\<close>

record 'g rng =
  flt :: "'g \<Rightarrow> real \<times> 'g"
  intn :: "'g rand_int"

definition backfillDays :: int where "backfillDays = 14"
definition spikeFrom :: int where "spikeFrom = 52 * hourNS"
definition spikeTo :: int where "spikeTo = 44 * hourNS"

definition weekday :: "int \<Rightarrow> int" where
  "weekday ms = (ms div ms_per_day + 4) mod 7"

definition activity :: "int \<Rightarrow> real \<Rightarrow> real" where
  "activity t age =
     (let hour = of_int (hour_of t) + of_int (minute_of t) / 60;
          act = 35 / 100 + 45 / 100 * exp (- (hour - 10)\<^sup>2 / 12) + 55 / 100 * exp (- (hour - 20)\<^sup>2 / 9);
          act' = (if weekday t = 6 \<or> weekday t = 0 then act * (62 / 100) else act)
      in act' * (45 / 100 + 55 / 100 * (1 - age)))"

definition windowMS :: int where "windowMS = backfillDays * dayMS"

definition inSpike :: "int \<Rightarrow> int \<Rightarrow> bool" where
  "inSpike now ts \<longleftrightarrow> UnixMilli (now - spikeFrom) \<le> ts \<and> ts \<le> UnixMilli (now - spikeTo)"

text \<open>The probability bound a draw is compared with.\<close>

definition acceptance :: "int \<Rightarrow> int \<Rightarrow> real" where
  "acceptance now ts =
     (let act = activity ts (of_int (UnixMilli now - ts) / of_int windowMS)
      in (if inSpike now ts then act * (42 / 10) else act) / (19 / 10))"

definition draw_time :: "'g rng \<Rightarrow> int \<Rightarrow> 'g \<Rightarrow> int \<times> 'g" where
  "draw_time R now g = (let (u, g1) = flt R g in (UnixMilli now - windowMS + \<lfloor>u * of_int windowMS\<rfloor>, g1))"

fun sample_time :: "'g rng \<Rightarrow> int \<Rightarrow> nat \<Rightarrow> 'g \<Rightarrow> (int \<times> 'g) option" where
  "sample_time R now 0 g = None"
| "sample_time R now (Suc fuel) g =
     (let (ts, g1) = draw_time R now g; (v, g2) = flt R g1
      in if v < acceptance now ts then Some (ts, g2) else sample_time R now fuel g2)"

definition weightFor :: "string \<Rightarrow> real" where
  "weightFor code = (case find (\<lambda>sl. sl_Alias sl = code) seedLinks of Some sl \<Rightarrow> sl_Weight sl | None \<Rightarrow> 4 / 10)"

fun weight_pick :: "link list \<Rightarrow> real \<Rightarrow> link option" where
  "weight_pick [] n = None"
| "weight_pick (l # ls) n = (let n' = n - weightFor (l_Code l) in if n' \<le> 0 then Some l else weight_pick ls n')"

definition pickLinkByWeight :: "'g rng \<Rightarrow> link list \<Rightarrow> real \<Rightarrow> 'g \<Rightarrow> (link \<times> 'g) option" where
  "pickLinkByWeight R links total' g =
     (let (u, g1) = flt R g
      in case weight_pick links (u * total') of
           Some l \<Rightarrow> Some (l, g1)
         | None \<Rightarrow> (case links of [] \<Rightarrow> None | l # _ \<Rightarrow> Some (l, g1)))"

definition backfill_event :: "'g rng \<Rightarrow> int \<Rightarrow> nat \<Rightarrow> link list \<Rightarrow> real \<Rightarrow> 'g \<Rightarrow> (click_event \<times> 'g) option" where
  "backfill_event R now fuel links total' g0 =
     (case sample_time R now fuel g0 of
        None \<Rightarrow> None
      | Some (ts, g1) \<Rightarrow>
     (case pickLinkByWeight R links total' g1 of
        None \<Rightarrow> None
      | Some (l, g2) \<Rightarrow>
     (case pickCountry (intn R) g2 of
        None \<Rightarrow> None
      | Some ((country, city), g3) \<Rightarrow>
     (case pickDevice (intn R) g3 of
        None \<Rightarrow> None
      | Some ((dev, brw, os), g4) \<Rightarrow>
     (case pickReferrer (intn R) g4 of
        None \<Rightarrow> None
      | Some (ref0, g5) \<Rightarrow>
          let (ref, g6) = (if inSpike now ts
                           then (let (w, g') = flt R g5 in (if w < 6 / 10 then ''news.ycombinator.com'' else ref0, g'))
                           else (ref0, g5));
              (bt, g7) = intn R g6 1000
          in Some (\<lparr>ev_TS = ts, ev_Code = l_Code l, ev_UserID = l_UserID l, ev_Country = country, ev_City = city, ev_Ref = ref,
               ev_Device = dev, ev_Browser = brw, ev_OS = os, ev_Bot = (bt < 38), ev_Status = 302, ev_Hit = True\<rparr>, g7))))))"

fun backfill_loop ::
  "'g rng \<Rightarrow> int \<Rightarrow> nat \<Rightarrow> link list \<Rightarrow> real \<Rightarrow> (click_event list \<Rightarrow> string list) \<Rightarrow> nat \<Rightarrow> click_event list \<Rightarrow> 'g \<Rightarrow> olap
     \<Rightarrow> (click_event list \<times> olap) option" where
  "backfill_loop R now fuel links total' days 0 batch g s = Some (batch, s)"
| "backfill_loop R now fuel links total' days (Suc n) batch g s =
     (case backfill_event R now fuel links total' g of
        None \<Rightarrow> None
      | Some (e, g1) \<Rightarrow>
          let batch1 = batch @ [e]
          in if length batch1 = ingestBatch then backfill_loop R now fuel links total' days n [] g1 (Insert (days batch1) batch1 s)
             else backfill_loop R now fuel links total' days n batch1 g1 s)"

definition backfillClicks ::
  "'g rng \<Rightarrow> 'g \<Rightarrow> int \<Rightarrow> nat \<Rightarrow> (click_event list \<Rightarrow> string list) \<Rightarrow> link list \<Rightarrow> nat \<Rightarrow> olap \<Rightarrow> olap option" where
  "backfillClicks R g0 now fuel days links n s =
     map_option (\<lambda>(batch, s1). Insert (days batch) batch s1)
       (backfill_loop R now fuel links (\<Sum>l\<leftarrow>links. weightFor (l_Code l)) days n [] g0 s)"

section \<open>All the steps\<close>

text \<open>What the outside delivers to the steps of \<^verbatim>\<open>seedDemo\<close>.\<close>

record 'g seed_input =
  si_salt :: "string \<times> string"
  si_rnd :: "char list \<times> char list"
  si_clock_admin :: "i64 list"
  si_clock_demo :: "i64 list"
  si_clock_bench :: "i64 list"
  si_clock_links :: "i64 list"
  si_now :: int
  si_now_bench :: "int \<Rightarrow> int"
  si_now_links :: "nat \<Rightarrow> int \<times> int"
  si_order :: "(int, string list) gomap \<Rightarrow> (int, string list) gomap"
  si_totals :: "(string, int) gomap \<Rightarrow> (string, int) gomap"
  si_rng :: "'g rng"
  si_gen :: 'g
  si_fuel :: nat
  si_days :: "click_event list \<Rightarrow> string list"

fun seed_cache ::
  "('r, 'db, 'u, 'a, 'p, 'i) ext \<Rightarrow> link list \<Rightarrow> ('r, 'db, 'p) app \<Rightarrow> ('r, 'db, 'p) app option" where
  "seed_cache X [] a = Some a"
| "seed_cache X (l # ls) a =
     (case bloom_add (l_Code l) (a\<lparr>demoCodes := mput (l_Code l) True (demoCodes a)\<rparr>) of
        None \<Rightarrow> None
      | Some a1 \<Rightarrow> seed_cache X ls (a1\<lparr>a_cache := Cache.Set (x_redis X) (x_json X) l (a_cache a1)\<rparr>))"

fun seed_totals :: "int \<Rightarrow> link list \<Rightarrow> (string, int) gomap \<Rightarrow> olap \<Rightarrow> (string, int) gomap \<times> olap" where
  "seed_totals now [] totals s = (totals, s)"
| "seed_totals now (l # ls) totals s =
     (let (i, s1) = CodeID (l_Code l) s in seed_totals now ls (mput (l_Code l) (of_nat (Total (Summary now [i] s1))) totals) s1)"

text \<open>The links of the owner: the shared account in demonstration mode, otherwise the administrator.\<close>

definition seed_owner ::
  "('r, 'db, 'u, 'a, 'p, 'i) ext \<Rightarrow> auth_api \<Rightarrow> 'g seed_input \<Rightarrow> user \<Rightarrow> ('r, 'db, 'p) app
     \<Rightarrow> ((go_error + user \<times> int list) \<times> ('r, 'db, 'p) app) option" where
  "seed_owner X A I admin a =
     (if cfg_DemoMode (a_cfg a)
      then (case seedDemoUser X A (fst (si_rnd I)) (snd (si_rnd I)) (snd (si_salt I)) (si_clock_demo I) (si_now I) a of
              None \<Rightarrow> None
            | Some (Inl e, a1) \<Rightarrow> Some (Inl e, a1)
            | Some (Inr demo, a1) \<Rightarrow> Some (Inr (demo, [u_ID admin]), a1\<lparr>demoUserID := u_ID demo\<rparr>))
      else let (found, st) = GetUserByEmail (x_pg X) (x_lower X) (cfg_DemoEmail (a_cfg a)) (a_store a)
           in Some (Inr (admin, case found of Inr (demo, _) \<Rightarrow> [u_ID demo] | Inl _ \<Rightarrow> []), a\<lparr>a_store := st\<rparr>))"

definition seed_history ::
  "('r, 'db, 'u, 'a, 'p, 'i) ext \<Rightarrow> 'g seed_input \<Rightarrow> link list \<Rightarrow> ('r, 'db, 'p) app \<Rightarrow> ('r, 'db, 'p) app option" where
  "seed_history X I links a =
     (if links = [] \<or> TotalRows (a_olap a) \<noteq> 0 \<or> cfg_SeedEvents (a_cfg a) \<le> 0 then Some a
      else case backfillClicks (si_rng I) (si_gen I) (si_now I) (si_fuel I) (si_days I) links (nat (cfg_SeedEvents (a_cfg a))) (a_olap a) of
             None \<Rightarrow> None
           | Some s \<Rightarrow>
               let (totals, s1) = seed_totals (UnixMilli (si_now I)) links [] s;
                   (_, st) = SetClicks (x_pg X) (si_totals I totals) (a_store a)
               in Some (a\<lparr>a_olap := s1, a_store := st\<rparr>))"

definition seedDemo ::
  "('r, 'db, 'u, 'a, 'p, 'i) ext \<Rightarrow> auth_api \<Rightarrow> 'g seed_input \<Rightarrow> ('r, 'db, 'p) app \<Rightarrow> (go_error option \<times> ('r, 'db, 'p) app) option" where
  "seedDemo X A I a =
     (case seedAdmin X A (fst (si_salt I)) (si_clock_admin I) (si_now I) a of
        None \<Rightarrow> None
      | Some (Inl e, a1) \<Rightarrow> Some (Some e, a1)
      | Some (Inr admin, a1) \<Rightarrow>
     (case seedBenchLinks X (u_ID admin) (si_now_bench I) (si_clock_bench I) (a1\<lparr>adminID := u_ID admin\<rparr>) of
        None \<Rightarrow> None
      | Some a2 \<Rightarrow>
     (case seed_owner X A I admin a2 of
        None \<Rightarrow> None
      | Some (Inl e, a3) \<Rightarrow> Some (Some e, a3)
      | Some (Inr (own, others), a3) \<Rightarrow>
     (case ensureSeedLinks X (si_order I) (u_ID own) others (si_now_links I) (si_clock_links I) a3 of
        None \<Rightarrow> None
      | Some (Inl e, a4) \<Rightarrow> Some (Some e, a4)
      | Some (Inr links, a4) \<Rightarrow>
     (case seed_cache X links (a4\<lparr>demoCodes := []\<rparr>) of
        None \<Rightarrow> None
      | Some a5 \<Rightarrow> map_option (Pair None) (seed_history X I links a5))))))"

section \<open>Lemmas\<close>

subsection \<open>The rejection loop\<close>

definition rng_ok :: "'g rng \<Rightarrow> bool" where
  "rng_ok R \<longleftrightarrow> (\<forall>g. 0 \<le> fst (flt R g) \<and> fst (flt R g) < 1) \<and> (\<forall>g n. 0 < n \<longrightarrow> 0 \<le> fst (intn R g n) \<and> fst (intn R g n) < n)"

text \<open>The draw that decides the iteration that starts at \<open>g\<close>, and the generator after it.\<close>

definition decision :: "'g rng \<Rightarrow> 'g \<Rightarrow> real \<times> 'g" where
  "decision R g = flt R (snd (flt R g))"

definition decides_within :: "'g rng \<Rightarrow> nat \<Rightarrow> bool" where
  "decides_within R fuel \<longleftrightarrow> (\<forall>g. \<exists>j<fuel. fst (decision R (((\<lambda>g. snd (decision R g)) ^^ j) g)) < 1 / 20)"

definition in_backfill :: "int \<Rightarrow> int \<Rightarrow> bool" where
  "in_backfill now ts \<longleftrightarrow> UnixMilli now - windowMS \<le> ts \<and> ts < UnixMilli now"

lemma windowMS_pos: "0 < windowMS"
  by (simp add: windowMS_def backfillDays_def dayMS_def hourMS_def minuteMS_def)

lemma activity_floor:
  assumes "0 \<le> age" "age \<le> 1"
  shows "9765 / 100000 \<le> activity t age"
proof -
  define h :: real where "h = of_int (hour_of t) + of_int (minute_of t) / 60"
  define act where "act = 35 / 100 + 45 / 100 * exp (- (h - 10)\<^sup>2 / 12) + 55 / 100 * exp (- (h - 20)\<^sup>2 / 9)"
  define act' where "act' = (if weekday t = 6 \<or> weekday t = 0 then act * (62 / 100) else act)"
  have "0 < exp (- (h - 10)\<^sup>2 / 12)" "0 < exp (- (h - 20)\<^sup>2 / 9)" by simp_all
  then have "35 / 100 \<le> act" unfolding act_def by linarith
  then have a: "217 / 1000 \<le> act'" by (auto simp: act'_def)
  have "217 / 1000 * (45 / 100) \<le> act' * (45 / 100 + 55 / 100 * (1 - age))"
    by (rule mult_mono) (use a assms in auto)
  then show ?thesis unfolding activity_def Let_def h_def [symmetric] act_def [symmetric] act'_def [symmetric] by simp
qed

lemma acceptance_floor:
  assumes "in_backfill now ts"
  shows "1 / 20 < acceptance now ts"
proof -
  let ?age = "of_int (UnixMilli now - ts) / of_int windowMS :: real"
  have "0 \<le> ?age" "?age \<le> 1" using assms windowMS_pos by (auto simp: in_backfill_def)
  from activity_floor [OF this, of ts] show ?thesis by (auto simp: acceptance_def Let_def)
qed

lemma draw_time_window:
  assumes "rng_ok R"
  shows "in_backfill now (fst (draw_time R now g)) \<and> snd (draw_time R now g) = snd (flt R g)"
proof -
  obtain u g1 where f: "flt R g = (u, g1)" by fastforce
  have u: "0 \<le> u" "u < 1" using assms f by (auto simp: rng_ok_def) (metis fst_conv)+
  have "u * of_int windowMS < of_int windowMS" using u windowMS_pos by simp
  then have "\<lfloor>u * of_int windowMS\<rfloor> < windowMS" by (simp add: floor_less_iff)
  moreover have "0 \<le> \<lfloor>u * of_int windowMS\<rfloor>" using u windowMS_pos by simp
  ultimately show ?thesis by (simp add: draw_time_def f in_backfill_def)
qed

lemma sample_time_returns:
  assumes "rng_ok R" "j < fuel" "fst (decision R (((\<lambda>g. snd (decision R g)) ^^ j) g)) < 1 / 20"
  shows "\<exists>ts g'. sample_time R now fuel g = Some (ts, g') \<and> in_backfill now ts"
  using assms(2,3)
proof (induction fuel arbitrary: j g)
  case (Suc fuel)
  obtain ts g1 where d: "draw_time R now g = (ts, g1)" by fastforce
  then have w: "in_backfill now ts" "g1 = snd (flt R g)" using draw_time_window [OF assms(1), of now g] by simp_all
  obtain v g2 where v: "flt R g1 = (v, g2)" by fastforce
  have dec: "decision R g = (v, g2)" using v w(2) by (simp add: decision_def)
  show ?case
  proof (cases "v < acceptance now ts")
    case True
    then show ?thesis using d v w by simp
  next
    case False
    then have "j \<noteq> 0" using Suc.prems(2) acceptance_floor [OF w(1)] dec by (intro notI) simp
    then obtain i where "j = Suc i" by (cases j) auto
    then have "i < fuel" "fst (decision R (((\<lambda>g. snd (decision R g)) ^^ i) g2)) < 1 / 20"
      using Suc.prems dec by (simp_all add: funpow_Suc_right del: funpow.simps(2))
    from Suc.IH [OF this] False d v show ?thesis by simp
  qed
qed simp

subsection \<open>Rows of the backfill\<close>

lemma weight_walk_mem: "weight_walk weight n its = Some it \<Longrightarrow> it \<in> set its"
  by (induction its arbitrary: n) (auto simp: Let_def split: if_splits)

lemma pickWeighted_total:
  assumes "0 < (\<Sum>it\<leftarrow>its. weight it)" "its \<noteq> []"
  shows "\<exists>it g'. pickWeighted rnd g its weight = Some (it, g') \<and> it \<in> set its"
proof -
  obtain n g' where "rnd g (\<Sum>it\<leftarrow>its. weight it) = (n, g')" by fastforce
  then show ?thesis using assms weight_walk_mem [of weight n its]
    by (cases "weight_walk weight n its") (simp_all add: pickWeighted_def total_weight_sum Let_def)
qed

lemma pickDevice_total: "\<exists>d g'. pickDevice rnd g = Some (d, g')"
  and pickReferrer_total: "\<exists>r g'. pickReferrer rnd g = Some (r, g')"
proof -
  have "0 < (\<Sum>it\<leftarrow>devices. snd it)" "0 < (\<Sum>it\<leftarrow>referrers. snd it)" "devices \<noteq> []" "referrers \<noteq> []"
    by (simp_all add: devices_def referrers_def)
  then show "\<exists>d g'. pickDevice rnd g = Some (d, g')" "\<exists>r g'. pickReferrer rnd g = Some (r, g')"
    using pickWeighted_total [of snd devices rnd g] pickWeighted_total [of snd referrers rnd g]
    by (auto simp: pickDevice_def pickReferrer_def)
qed

lemma pickCountry_total:
  assumes "\<forall>g n. 0 < n \<longrightarrow> 0 \<le> fst (rnd g n) \<and> fst (rnd g n) < n"
  shows "\<exists>c g'. pickCountry rnd g = Some (c, g')"
proof -
  have "0 < (\<Sum>it\<leftarrow>countries. cw_Weight it)" "countries \<noteq> []" "\<forall>c\<in>set countries. cw_Cities c \<noteq> []"
    by (simp_all add: countries_def)
  then obtain c g1 where c: "pickWeighted rnd g countries cw_Weight = Some (c, g1)" "cw_Cities c \<noteq> []"
    using pickWeighted_total [of cw_Weight countries rnd g] by auto
  obtain n g2 where n: "rnd g1 (int (length (cw_Cities c))) = (n, g2)" by fastforce
  have "0 \<le> n \<and> n < int (length (cw_Cities c))" using assms [rule_format, of "int (length (cw_Cities c))" g1] c(2) n by simp
  with c n show ?thesis by (simp add: pickCountry_def Let_def)
qed

lemma backfill_event_total:
  assumes "rng_ok R" "decides_within R fuel" "links \<noteq> []"
  shows "\<exists>e g'. backfill_event R now fuel links w g = Some (e, g') \<and> in_backfill now (ev_TS e)"
proof -
  from assms(2) obtain j where "j < fuel" "fst (decision R (((\<lambda>g. snd (decision R g)) ^^ j) g)) < 1 / 20"
    by (auto simp: decides_within_def)
  from sample_time_returns [OF assms(1) this] obtain ts g1 where ts: "sample_time R now fuel g = Some (ts, g1)" "in_backfill now ts" by blast
  obtain l ls where "links = l # ls" using assms(3) by (cases links) auto
  then obtain l' g2 where l: "pickLinkByWeight R links w g1 = Some (l', g2)"
    by (cases "weight_pick links (fst (flt R g1) * w)") (auto simp: pickLinkByWeight_def case_prod_beta')
  obtain c ct g3 where c: "pickCountry (intn R) g2 = Some ((c, ct), g3)"
    using pickCountry_total [of "intn R" g2] assms(1) by (auto simp: rng_ok_def)
  obtain d b os g4 where d: "pickDevice (intn R) g3 = Some ((d, b, os), g4)" using pickDevice_total [of "intn R" g3] by auto
  obtain r g5 where r: "pickReferrer (intn R) g4 = Some (r, g5)" using pickReferrer_total [of "intn R" g4] by auto
  show ?thesis using ts l c d r by (auto simp: backfill_event_def case_prod_beta' Let_def)
qed

lemma backfill_loop_rows:
  assumes "rng_ok R" "decides_within R fuel" "links \<noteq> []" "days_ok days"
  shows "\<exists>batch' s'. backfill_loop R now fuel links w days n batch g s = Some (batch', s')
    \<and> TotalRows s' + of_nat (length batch') = TotalRows s + of_nat (length batch + n)"
proof (induction n arbitrary: batch g s)
  case (Suc n)
  from backfill_event_total [OF assms(1-3), of now w g] obtain e g1 where e: "backfill_event R now fuel links w g = Some (e, g1)" by blast
  let ?b = "batch @ [e]"
  have "TotalRows (Insert (days ?b) ?b s) = TotalRows s + of_nat (length ?b)"
    using assms(4) by (intro Insert_TotalRows) (auto simp: days_ok_def)
  with Suc.IH [of "[]" g1 "Insert (days ?b) ?b s"] Suc.IH [of ?b g1 s] e show ?case
    by (cases "length ?b = ingestBatch") (auto simp: Let_def algebra_simps)
qed simp

subsection \<open>Reusing links\<close>

definition seed_match :: "seedLink \<Rightarrow> link \<Rightarrow> bool" where
  "seed_match sl l \<longleftrightarrow> (if sl_Alias sl \<noteq> [] then l_Code l = sl_Alias sl else \<not> l_Custom l \<and> l_LongURL l = sl_URL sl)"

lemma find_seed_alias: "sl_Alias sl \<noteq> [] \<Longrightarrow> find_seed sl ls None = find (seed_match sl) ls"
  by (induction ls) (auto simp: seed_match_def)

lemma find_seed_oldest:
  assumes "sl_Alias sl = []" "find_seed sl ls best = Some l"
  shows "(l \<in> set ls \<and> seed_match sl l \<or> best = Some l) \<and> (\<forall>x\<in>set ls. seed_match sl x \<longrightarrow> l_CreatedAt l \<le> l_CreatedAt x)
    \<and> (\<forall>b. best = Some b \<longrightarrow> l_CreatedAt l \<le> l_CreatedAt b)"
  using assms(2)
proof (induction ls arbitrary: best)
  case (Cons x ls)
  let ?best = "if \<not> l_Custom x \<and> l_LongURL x = sl_URL sl \<and> (case best of None \<Rightarrow> True | Some b \<Rightarrow> l_CreatedAt x < l_CreatedAt b) then Some x else best"
  have "find_seed sl ls ?best = Some l" using Cons.prems assms(1) by simp
  from Cons.IH [OF this] show ?case using assms(1)
    by (cases best) (auto simp: seed_match_def split: if_splits)
qed (use assms in simp)

lemma findSeed_found:
  assumes "findSeed sl ls = Some l"
  shows "l \<in> set ls \<and> seed_match sl l \<and> (sl_Alias sl = [] \<longrightarrow> (\<forall>x\<in>set ls. seed_match sl x \<longrightarrow> l_CreatedAt l \<le> l_CreatedAt x))"
  using assms find_seed_oldest [of sl ls None l] find_seed_alias [of sl ls]
  by (cases "sl_Alias sl = []") (auto simp: findSeed_def find_Some_iff)

lemma find_seed_total:
  assumes "sl_Alias sl = []" "best \<noteq> None \<or> (\<exists>l\<in>set ls. seed_match sl l)"
  shows "\<exists>l. find_seed sl ls best = Some l"
  using assms(2) by (induction ls arbitrary: best) (use assms(1) in \<open>auto simp: seed_match_def split: option.split\<close>)

lemma findSeed_total:
  assumes "\<exists>l\<in>set ls. seed_match sl l"
  shows "\<exists>l. findSeed sl ls = Some l"
proof (cases "sl_Alias sl = []")
  case True
  then show ?thesis using assms find_seed_total [of sl None ls] by (simp add: findSeed_def)
next
  case False
  then show ?thesis using assms find_seed_alias [of sl ls] find_None_iff [of "seed_match sl" ls]
    by (cases "find (seed_match sl) ls") (auto simp: findSeed_def)
qed

lemma ensure_loop_found:
  assumes "\<forall>(i, sl)\<in>set es. \<exists>l. findSeed sl existing = Some l \<and> l_UserID l = own"
  shows "ensure_loop X own existing now es clock links mv a = Some (links @ map (\<lambda>(i, sl). the (findSeed sl existing)) es, mv, a)"
  using assms
proof (induction es arbitrary: links)
  case (Cons e es)
  then show ?case by (cases e) auto
qed simp

lemma weightFor_generated:
  assumes "length code = 11"
  shows "weightFor code = 4 / 10"
proof -
  have "\<forall>sl\<in>set seedLinks. length (sl_Alias sl) \<noteq> 11" by (simp add: seedLinks_def)
  then have "find (\<lambda>sl. sl_Alias sl = code) seedLinks = None" using assms by (auto simp: find_None_iff)
  then show ?thesis by (simp add: weightFor_def)
qed

section \<open>Properties\<close>

text \<open>C25: the backfill ends and stores exactly the clicks asked for: every rejection round accepts a draw below
  one twentieth, so if the generator delivers such a draw within the fuel from every state, the whole
  backfill returns, and the store then has that many more rows.\<close>

theorem backfill_stores:
  assumes "rng_ok R" "decides_within R fuel" "links \<noteq> []" "days_ok days"
  shows "\<exists>s'. backfillClicks R g now fuel days links n s = Some s' \<and> TotalRows s' = TotalRows s + of_nat n"
proof -
  obtain batch s1 where b: "backfill_loop R now fuel links (\<Sum>l\<leftarrow>links. weightFor (l_Code l)) days n [] g s = Some (batch, s1)"
    "TotalRows s1 + of_nat (length batch) = TotalRows s + of_nat n"
    using backfill_loop_rows [OF assms, of now "\<Sum>l\<leftarrow>links. weightFor (l_Code l)" n "[]" g s] by auto
  have "TotalRows (Insert (days batch) batch s1) = TotalRows s1 + of_nat (length batch)"
    using assms(4) by (intro Insert_TotalRows) (auto simp: days_ok_def)
  with b show ?thesis by (simp add: backfillClicks_def)
qed

text \<open>A generator that always delivers zero.\<close>

definition zero_rng :: "unit rng" where
  "zero_rng = \<lparr>flt = (\<lambda>g. (0, g)), intn = (\<lambda>g n. (0, g))\<rparr>"

theorem backfill_stores_witness:
  "\<exists>s'. backfillClicks zero_rng () 0 1 (\<lambda>batch. remdups (map (\<lambda>e. dayKey (ev_TS e)) batch)) [bench_link 1 1 1 0] 3 (NewOLAP 30) = Some s'
     \<and> TotalRows s' = TotalRows (NewOLAP 30) + of_nat 3"
  by (rule backfill_stores) (auto simp: rng_ok_def decides_within_def decision_def zero_rng_def days_ok_def)

text \<open>Seeding again reuses what is there: when every entry is among the listed links of its owner, nothing is
  written, and each entry gets the link with its alias, or the oldest one with its destination.\<close>

theorem ensureSeedLinks_reuses:
  assumes "list_all_users X (own # others) [] a = (Inr existing, a1)"
    and "\<forall>sl\<in>set seedLinks. \<exists>l. findSeed sl existing = Some l \<and> l_UserID l = own"
  shows "\<exists>links. ensureSeedLinks X order own others now clock a = Some (Inr links, a1) \<and> length links = length seedLinks
    \<and> (\<forall>i < length seedLinks. let sl = seedLinks ! i; l = links ! i in l \<in> set existing
         \<and> (if sl_Alias sl \<noteq> [] then l_Code l = sl_Alias sl
            else l_LongURL l = sl_URL sl \<and> (\<forall>x\<in>set existing. \<not> l_Custom x \<and> l_LongURL x = sl_URL sl \<longrightarrow> l_CreatedAt l \<le> l_CreatedAt x)))"
proof -
  let ?links = "map (\<lambda>sl. the (findSeed sl existing)) seedLinks"
  have "map (\<lambda>(i, sl). the (findSeed sl existing)) (List.enumerate 0 seedLinks) = ?links"
    by (rule nth_equalityI) (simp_all add: nth_enumerate_eq)
  moreover have "\<forall>(i, sl)\<in>set (List.enumerate 0 seedLinks). \<exists>l. findSeed sl existing = Some l \<and> l_UserID l = own"
    using assms(2) by (auto simp: in_set_enumerate_eq)
  ultimately have "ensure_loop X own existing now (List.enumerate 0 seedLinks) clock [] [] a1 = Some (?links, [], a1)"
    by (simp add: ensure_loop_found)
  then have "ensureSeedLinks X order own others now clock a = Some (Inr ?links, a1)"
    using assms(1) by (simp add: ensureSeedLinks_def del: list_all_users.simps)
  moreover have "\<forall>i < length seedLinks. let sl = seedLinks ! i; l = ?links ! i in l \<in> set existing
         \<and> (if sl_Alias sl \<noteq> [] then l_Code l = sl_Alias sl
            else l_LongURL l = sl_URL sl \<and> (\<forall>x\<in>set existing. \<not> l_Custom x \<and> l_LongURL x = sl_URL sl \<longrightarrow> l_CreatedAt l \<le> l_CreatedAt x))"
  proof (intro allI impI)
    fix i assume "i < length seedLinks"
    then obtain l where "findSeed (seedLinks ! i) existing = Some l" using assms(2) nth_mem by blast
    with findSeed_found [OF this] \<open>i < length seedLinks\<close> show "let sl = seedLinks ! i; l = ?links ! i in l \<in> set existing
         \<and> (if sl_Alias sl \<noteq> [] then l_Code l = sl_Alias sl
            else l_LongURL l = sl_URL sl \<and> (\<forall>x\<in>set existing. \<not> l_Custom x \<and> l_LongURL x = sl_URL sl \<longrightarrow> l_CreatedAt l \<le> l_CreatedAt x))"
      by (auto simp: seed_match_def Let_def split: if_splits)
  qed
  ultimately show ?thesis by (intro exI [of _ ?links]) simp
qed

text \<open>A store that lists one link per entry, and answers nothing else.\<close>

definition seeded :: "link list" where
  "seeded = map (\<lambda>sl. (bench_link 1 1 7 0)\<lparr>l_Code := sl_Alias sl, l_LongURL := sl_URL sl, l_Custom := sl_Alias sl \<noteq> []\<rparr>) seedLinks"

definition seeded_pg :: "mem_db pg" where
  "seeded_pg q d = (case q of Select_user_links _ _ _ \<Rightarrow> (Inr (sql_reply.Rows seeded), d) | _ \<Rightarrow> (Inl Err_no_rows, d))"

lemma seeded_listed:
  "list_all_users (demo_ext\<lparr>x_pg := seeded_pg, x_sort := id\<rparr>) [7] [] demo_app = (Inr (map (scanLink 0) seeded), demo_app)"
proof -
  have "length seeded = 10" by (simp add: seeded_def seedLinks_def)
  then show ?thesis
    by (simp add: ListByUser_def queryEveryShard_def demo_shard_count run_sql_def seeded_pg_def Let_def)
qed

lemma seeded_found: "\<forall>sl\<in>set seedLinks. \<exists>l. findSeed sl (map (scanLink 0) seeded) = Some l \<and> l_UserID l = 7"
proof
  fix sl assume "sl \<in> set seedLinks"
  then have "\<exists>l\<in>set (map (scanLink 0) seeded). seed_match sl l" by (auto simp: seeded_def scanLink_def seed_match_def)
  then obtain l where l: "findSeed sl (map (scanLink 0) seeded) = Some l" using findSeed_total by blast
  moreover have "\<forall>l\<in>set (map (scanLink 0) seeded). l_UserID l = 7" by (auto simp: seeded_def scanLink_def bench_link_def)
  ultimately show "\<exists>l. findSeed sl (map (scanLink 0) seeded) = Some l \<and> l_UserID l = 7" using findSeed_found [OF l] by blast
qed

theorem ensureSeedLinks_reuses_witness:
  "\<exists>links. ensureSeedLinks (demo_ext\<lparr>x_pg := seeded_pg, x_sort := id\<rparr>) id 7 [] (\<lambda>_. (0, 0)) [] demo_app = Some (Inr links, demo_app)
     \<and> length links = length seedLinks"
  using ensureSeedLinks_reuses [OF seeded_listed seeded_found, of id "\<lambda>_. (0, 0)" "[]"] by blast

text \<open>The sampling bound is not above the curve: at 20:00 on a weekday, 48 hours before \<open>now\<close> and so inside
  the viral window, the acceptance bound exceeds one.\<close>

theorem spike_exceeds_bound:
  "\<exists>now ts. inSpike now ts \<and> in_backfill now ts \<and> 18 / 10 < acceptance now ts"
proof -
  let ?ts = "20 * hourMS" and ?now = "68 * hourNS"
  have u: "UnixMilli ?now = 68 * hourMS" "UnixMilli (?now - spikeFrom) = 16 * hourMS" "UnixMilli (?now - spikeTo) = 24 * hourMS"
    by (simp_all add: UnixMilli_def hourNS_def hourMS_def minuteMS_def spikeFrom_def spikeTo_def)
  have s: "inSpike ?now ?ts" "in_backfill ?now ?ts"
    unfolding inSpike_def in_backfill_def u by (simp_all add: windowMS_def backfillDays_def dayMS_def hourMS_def minuteMS_def)
  have t: "hour_of ?ts = 20" "minute_of ?ts = 0" "weekday ?ts = 4" by code_simp+
  have w: "of_int (UnixMilli ?now - ?ts) / of_int windowMS = (1 / 7 :: real)"
    unfolding u by (simp add: windowMS_def backfillDays_def dayMS_def hourMS_def minuteMS_def)
  have e: "(0 :: real) < exp (- (25 / 3))" by simp
  have "activity ?ts (1 / 7) = (9 / 10 + 45 / 100 * exp (- (25 / 3))) * (129 / 140)"
    by (simp add: activity_def t Let_def power2_eq_square)
  also have "\<dots> = 1161 / 1400 + exp (- (25 / 3)) * (1161 / 2800)" by (simp add: algebra_simps)
  finally have "82 / 100 < activity ?ts (1 / 7)" using e by linarith
  then have "18 / 10 < acceptance ?now ?ts" unfolding acceptance_def Let_def w using s(1) by simp
  with s show ?thesis by blast
qed

text \<open>The declared share of a seed entry without an alias is not used.\<close>

theorem generated_weight_ignored:
  assumes "newSeedLink ident sl own i now now' = Some l" "sl \<in> set seedLinks" "sl_Alias sl = []"
  shows "weightFor (l_Code l) = 4 / 10 \<and> sl_Weight sl \<noteq> 4 / 10"
proof -
  have "length (l_Code l) = 11" using assms(1,3) encodeCode_eq [of ident] by (auto simp: newSeedLink_def)
  moreover have "sl_Weight sl \<noteq> 4 / 10" using assms(2) by (auto simp: seedLinks_def)
  ultimately show ?thesis by (simp add: weightFor_generated)
qed

end
