(* ===== verification/Lab.thy ===== *)
theory Lab
  imports Complex_Main Service
begin

text \<open>
  \<^verbatim>\<open>backend/handlers_lab.go\<close>: the operations dashboard and the laboratory.  The figures of the Go
  runtime and of the connection pool, the measured durations and the rates derived from them are
  left out.  False-positive rates are reals, and the two floating-point size formulas of \<^verbatim>\<open>NewBloom\<close>
  are arguments: \<open>mEst n p\<close> bits for \<open>n\<close> keys at rate \<open>p\<close>, and \<open>kEst n m\<close> hash functions.
\<close>

section \<open>Operations\<close>

record system_stats =
  sy_cache :: cache_stats
  sy_bus :: broker_stats
  sy_olap :: olap_stats
  sy_bloom :: bloom_stats
  sy_shards :: "shard_stat list"
  sy_shard_count :: int
  sy_issued :: u64
  sy_seq_exhausted :: u64
  sy_clock_backwards :: u64
  sy_node_id :: int
  sy_redirects :: u64
  sy_unknown_codes :: u64
  sy_node_name :: string
  sy_demo_mode :: bool

record decoded_id =
  di_parts :: snowflake_parts
  di_plausible :: bool
  di_input :: string

record id_burst =
  ib_generated :: int
  ib_unique :: nat
  ib_collisions :: nat
  ib_seq_exhausted :: u64
  ib_sample :: "snowflake_parts list"
  ib_max_per_sec :: int

record lab_state =
  ls_stats :: bloom_stats
  ls_preview :: "nat list"
  ls_keys :: "string list"

record lab_test =
  lt_key :: string
  lt_maybe :: bool
  lt_present :: bool
  lt_verdict :: string
  lt_bits :: "u64 list"
  lt_stats :: bloom_stats

record lab_sweep =
  sw_inserts :: int
  sw_probes :: int
  sw_false_positives :: nat
  sw_target_fpr :: real
  sw_m :: u64
  sw_k :: u64

datatype lab_body =
    L_system system_stats
  | L_health bool
  | L_decoded decoded_id
  | L_burst id_burst
  | L_ring ring_counts
  | L_state lab_state
  | L_added lab_state string "u64 list"
  | L_test lab_test
  | L_sweep lab_sweep

text \<open>The instants are the clock at the checks and refreshes of the two cached statistics.\<close>

definition handleSystemStats ::
  "('r, 'db, 'u, 'a, 'p, 'i) ext \<Rightarrow> int \<times> int \<Rightarrow> int \<times> int \<Rightarrow> ('r, 'db, 'p) app \<Rightarrow> lab_body response \<times> ('r, 'db, 'p) app" where
  "handleSystemStats X t1 t2 a =
     (let (cs, c) = Cache.Stats (x_redis X) (fst t1) (snd t1) (a_cache a);
          (sh, st) = ShardDistribution (x_pg X) (fst t2) (snd t2) (a_store a)
      in (writeJSON 200 (L_system
            \<lparr>sy_cache = cs, sy_bus = Bus.Stats (a_bus a), sy_olap = Olap_Query.Stats (a_olap a), sy_bloom = Bloom.Stats (a_bloom a),
             sy_shards = sh, sy_shard_count = cfg_ShardCount (a_cfg a), sy_issued = Issued (a_ids a),
             sy_seq_exhausted = SeqExhausted (a_ids a), sy_clock_backwards = ClockBackwards (a_ids a),
             sy_node_id = cfg_NodeID (a_cfg a), sy_redirects = redirects a, sy_unknown_codes = unknownCodes a,
             sy_node_name = cfg_NodeName (a_cfg a), sy_demo_mode = cfg_DemoMode (a_cfg a)\<rparr>),
          a\<lparr>a_cache := c, a_store := st\<rparr>))"

text \<open>\<open>ping\<close> tells whether Postgres answers.\<close>

definition handleHealth :: "bool \<Rightarrow> lab_body response" where
  "handleHealth ping = writeJSON 200 (L_health ping)"

section \<open>Identifiers\<close>

definition handleDecodeID ::
  "int \<Rightarrow> i64 list \<Rightarrow> request \<Rightarrow> ('r, 'db, 'p) app \<Rightarrow> (lab_body response \<times> ('r, 'db, 'p) app) option" where
  "handleDecodeID now clock r a =
     (let code = TrimSpace (query_get r ''code''); raw = TrimSpace (query_get r ''id'')
      in if code \<noteq> []
         then (case decodeCode code of
                 Inl e \<Rightarrow> Some (writeErr 400 ''not a base62 code'', a)
               | Inr i \<Rightarrow>
                   let p = explodeID i;
                       plausible = sint kortexEpoch < sint (TimestampMS p) \<and> sint (TimestampMS p) < UnixMilli (now + 3600 * 1000000000)
                   in Some (writeJSON 200 (L_decoded \<lparr>di_parts = p, di_plausible = plausible, di_input = code\<rparr>), a))
         else if raw \<noteq> []
         then (case ParseInt raw of
                 (_, Some e) \<Rightarrow> Some (writeErr 400 ''id must be an integer'', a)
               | (i, None) \<Rightarrow>
                   Some (writeJSON 200 (L_decoded \<lparr>di_parts = explodeID (word_of_int i), di_plausible = True, di_input = raw\<rparr>), a))
         else (case Next (a_ids a) clock of
                 None \<Rightarrow> None
               | Some (i, g, _) \<Rightarrow>
                   Some (writeJSON 200 (L_decoded \<lparr>di_parts = explodeID i, di_plausible = True, di_input = ''generated''\<rparr>),
                     a\<lparr>a_ids := g\<rparr>)))"

text \<open>The loop of \<^verbatim>\<open>handleIDBurst\<close> from iteration \<open>i\<close> on; \<open>seen\<close> has no duplicates.\<close>

fun burst ::
  "nat \<Rightarrow> nat \<Rightarrow> i64 list \<Rightarrow> nat \<Rightarrow> snowflake_parts list \<Rightarrow> snowflake \<Rightarrow> i64 list
     \<Rightarrow> (i64 list \<times> nat \<times> snowflake_parts list \<times> snowflake) option" where
  "burst 0 i seen collisions sample gen clock = Some (seen, collisions, sample, gen)"
| "burst (Suc n) i seen collisions sample gen clock =
     (case Next gen clock of
        None \<Rightarrow> None
      | Some (ident, gen', clock') \<Rightarrow>
          burst n (i + 1) (List.insert ident seen) (if ident \<in> set seen then collisions + 1 else collisions)
            (if i < 6 then sample @ [explodeID ident] else sample) gen' clock')"

definition handleIDBurst :: "i64 list \<Rightarrow> request \<Rightarrow> 'p config \<Rightarrow> lab_body response option" where
  "handleIDBurst clock r cfg =
     (let n = clamp (qInt r ''n'' 50000) 1 500000
      in case burst (nat n) 0 [] 0 [] (NewSnowflake (word_of_int (cfg_NodeID cfg))) clock of
           None \<Rightarrow> None
         | Some (seen, collisions, sample, gen) \<Rightarrow>
             Some (writeJSON 200 (L_burst
               \<lparr>ib_generated = n, ib_unique = length seen, ib_collisions = collisions, ib_seq_exhausted = SeqExhausted gen,
                ib_sample = sample, ib_max_per_sec = (sint maxSeq + 1) * 1000\<rparr>)))"

section \<open>Consistent hashing\<close>

definition handleRing :: "request \<Rightarrow> 'p config \<Rightarrow> lab_body response option" where
  "handleRing r cfg =
     (let m = clamp (qInt r ''from'' (cfg_ShardCount cfg)) 1 64;
          n = clamp (qInt r ''to'' (cfg_ShardCount cfg + 1)) 1 64;
          vn = clamp (qInt r ''vnodes'' (cfg_VNodes cfg)) 1 1000;
          samples = clamp (qInt r ''samples'' 20000) 1 200000
      in map_option (\<lambda>c. writeJSON 200 (L_ring c)) (ringReport m n vn (nat samples) []))"

section \<open>The Bloom filter playground\<close>

record lab =
  labBloom :: bloom
  labKeys :: "string list"

definition labMaxExpected :: int where "labMaxExpected = 100000"
definition labMinFPRate :: real where "labMinFPRate = 1 / 1000000"
definition labMaxKeys :: nat where "labMaxKeys = 40"
definition labMaxKeyLen :: nat where "labMaxKeyLen = 256"

definition newLab :: "(int \<Rightarrow> real \<Rightarrow> u64) \<Rightarrow> (int \<Rightarrow> u64 \<Rightarrow> u64) \<Rightarrow> lab" where
  "newLab mEst kEst = \<lparr>labBloom = NewBloom (mEst 1000 (1 / 100)) (kEst 1000), labKeys = []\<rparr>"

definition labState :: "lab \<Rightarrow> lab_state option" where
  "labState l =
     map_option (\<lambda>p. \<lparr>ls_stats = Bloom.Stats (labBloom l), ls_preview = p, ls_keys = labKeys l\<rparr>) (Preview (labBloom l) 256)"

definition handleBloomState :: "lab \<Rightarrow> (lab_body response \<times> lab) option" where
  "handleBloomState l = map_option (\<lambda>out. (writeJSON 200 (L_state out), l)) (labState l)"

text \<open>\<open>expected\<close> and \<open>fpRate\<close> are what the decoder left in the body, zero where it left nothing.\<close>

definition handleBloomReset ::
  "(int \<Rightarrow> real \<Rightarrow> u64) \<Rightarrow> (int \<Rightarrow> u64 \<Rightarrow> u64) \<Rightarrow> int \<Rightarrow> real \<Rightarrow> lab \<Rightarrow> (lab_body response \<times> lab) option" where
  "handleBloomReset mEst kEst expected fpRate l =
     (let n = min (if expected \<le> 0 then 1000 else expected) labMaxExpected;
          p = max (if fpRate \<le> 0 \<or> fpRate \<ge> 1 then 1 / 100 else fpRate) labMinFPRate;
          l' = l\<lparr>labBloom := NewBloom (mEst n p) (kEst n), labKeys := []\<rparr>
      in map_option (\<lambda>out. (writeJSON 200 (L_state out), l')) (labState l'))"

definition recentKeys :: "string list \<Rightarrow> string list" where
  "recentKeys ks = (if length ks > labMaxKeys then drop (length ks - labMaxKeys) ks else ks)"

text \<open>The body is \<^const>\<open>None\<close> when it does not decode.\<close>

definition handleBloomAdd :: "string option \<Rightarrow> lab \<Rightarrow> (lab_body response \<times> lab) option" where
  "handleBloomAdd body l =
     (case body of
        None \<Rightarrow> Some (writeErr 400 ''key required'', l)
      | Some key \<Rightarrow>
          let k = TrimSpace key
          in if k = [] then Some (writeErr 400 ''key required'', l)
             else if length k > labMaxKeyLen then Some (writeErr 400 ''key must be at most 256 bytes'', l)
             else (case Add (labBloom l) k of
                     None \<Rightarrow> None
                   | Some b \<Rightarrow>
                       let l' = \<lparr>labBloom = b, labKeys = recentKeys (labKeys l @ [k])\<rparr>
                       in (case (labState l', SetBits b k) of
                             (Some out, Some bits) \<Rightarrow> Some (writeJSON 200 (L_added out k bits), l')
                           | _ \<Rightarrow> None)))"

definition verdict_no :: string where "verdict_no = ''definitely not in set''"
definition verdict_yes :: string where "verdict_yes = ''in set (true positive)''"
definition verdict_false :: string where
  "verdict_false = ''FALSE POSITIVE '' @ em_dash @ '' bloom says maybe, set says no''"

definition handleBloomTest :: "request \<Rightarrow> lab \<Rightarrow> lab_body response option" where
  "handleBloomTest r l =
     (let k = TrimSpace (query_get r ''key'')
      in if k = [] then Some (writeErr 400 ''key required'')
         else let b = labBloom l; present = (k \<in> set (labKeys l))
              in (case (MayContain b k, SetBits b k) of
                    (Some maybe, Some bits) \<Rightarrow>
                      Some (writeJSON 200 (L_test
                        \<lparr>lt_key = k, lt_maybe = maybe, lt_present = present,
                         lt_verdict = (if maybe \<and> present then verdict_yes else if maybe then verdict_false else verdict_no),
                         lt_bits = bits, lt_stats = Bloom.Stats b\<rparr>))
                  | _ \<Rightarrow> None))"

fun count_maybe :: "bloom \<Rightarrow> string list \<Rightarrow> nat \<Rightarrow> nat option" where
  "count_maybe b [] n = Some n"
| "count_maybe b (k # ks) n =
     (case MayContain b k of None \<Rightarrow> None | Some m \<Rightarrow> count_maybe b ks (if m then n + 1 else n))"

text \<open>\<open>fp\<close> is the query parameter \<^verbatim>\<open>fp_rate\<close> when it parses as a number.\<close>

definition handleBloomSweep ::
  "(int \<Rightarrow> real \<Rightarrow> u64) \<Rightarrow> (int \<Rightarrow> u64 \<Rightarrow> u64) \<Rightarrow> real option \<Rightarrow> request \<Rightarrow> lab_body response option" where
  "handleBloomSweep mEst kEst fp r =
     (let inserts = clamp (qInt r ''inserts'' 5000) 1 200000;
          probes = clamp (qInt r ''probes'' 20000) 1 500000;
          rate = (case fp of Some v \<Rightarrow> if v > 0 \<and> v < 1 then max v labMinFPRate else 1 / 100 | None \<Rightarrow> 1 / 100)
      in case add_all (NewBloom (mEst inserts rate) (kEst inserts)) (map (\<lambda>i. ''member-'' @ itoa i) [0..inserts - 1]) of
           None \<Rightarrow> None
         | Some b \<Rightarrow>
             map_option (\<lambda>falsePos. writeJSON 200 (L_sweep
                 \<lparr>sw_inserts = inserts, sw_probes = probes, sw_false_positives = falsePos, sw_target_fpr = rate,
                  sw_m = M (Bloom.Stats b), sw_k = K (Bloom.Stats b)\<rparr>))
               (count_maybe b (map (\<lambda>i. ''outsider-'' @ itoa i) [0..probes - 1]) 0))"

section \<open>Lemmas\<close>

subsection \<open>Bursts\<close>

text \<open>A burst is a run of the generator; without repetitions it sees every identifier once.\<close>

lemma burst_run:
  assumes "burst n i seen c sample g clock = Some (seen', c', sample', g')"
  shows "\<exists>idents clock'. next_many n g clock = Some (idents, g', clock') \<and> sample' = sample @ map explodeID (take (6 - i) idents)
    \<and> (distinct idents \<and> set idents \<inter> set seen = {} \<longrightarrow> c' = c \<and> length seen' = length seen + n)"
  using assms
proof (induction n arbitrary: i seen c sample g clock)
  case (Suc n)
  from Suc.prems obtain x g1 clock1 where x: "Next g clock = Some (x, g1, clock1)" by (auto split: option.splits)
  let ?seen = "List.insert x seen" and ?c = "if x \<in> set seen then c + 1 else c"
    and ?sample = "if i < 6 then sample @ [explodeID x] else sample"
  have "burst n (i + 1) ?seen ?c ?sample g1 clock1 = Some (seen', c', sample', g')" using Suc.prems x by simp
  from Suc.IH [OF this] obtain idents clock' where r: "next_many n g1 clock1 = Some (idents, g', clock')"
    "sample' = ?sample @ map explodeID (take (6 - (i + 1)) idents)"
    "distinct idents \<and> set idents \<inter> set ?seen = {} \<longrightarrow> c' = ?c \<and> length seen' = length ?seen + n" by blast
  have "next_many (Suc n) g clock = Some (x # idents, g', clock')" using x r(1) by (simp add: next_many_def)
  moreover have "sample' = sample @ map explodeID (take (6 - i) (x # idents))"
    using r(2) by (cases "i < 6") (simp_all add: take_Cons')
  moreover have "distinct (x # idents) \<and> set (x # idents) \<inter> set seen = {} \<longrightarrow> c' = c \<and> length seen' = length seen + Suc n"
    using r(3) by auto
  ultimately show ?case by blast
qed (simp add: next_many_def)

text \<open>A clock that advances with every reading is never waited for.\<close>

lemma Next_later:
  assumes "sint (lastMS g) < sint t"
  shows "\<exists>x g'. Next g (t # ts) = Some (x, g', ts) \<and> lastMS g' = t"
proof -
  have "\<not> t <s lastMS g" "t \<noteq> lastMS g" using assms by (auto simp: word_sless_alt)
  then show ?thesis by (simp add: Next_def Let_def)
qed

lemma burst_returns:
  "sorted_wrt (\<lambda>s t. sint s < sint t) (lastMS g # clock) \<Longrightarrow> n \<le> length clock \<Longrightarrow> \<exists>r. burst n i seen c sample g clock = Some r"
proof (induction n arbitrary: i seen c sample g clock)
  case (Suc n)
  then obtain t ts where clock: "clock = t # ts" by (cases clock) auto
  with Suc.prems Next_later [of g t ts] obtain x g' where n: "Next g clock = Some (x, g', ts)" "lastMS g' = t" by auto
  have "sorted_wrt (\<lambda>s t. sint s < sint t) (lastMS g' # ts)" "n \<le> length ts" using Suc.prems clock n(2) by auto
  from Suc.IH [OF this] n(1) show ?case by auto
qed simp

subsection \<open>The playground\<close>

text \<open>The remembered keys are in the filter.\<close>

definition lab_ok :: "lab \<Rightarrow> bool" where
  "lab_ok l \<longleftrightarrow> bloom_ok (labBloom l) \<and> length (labKeys l) \<le> labMaxKeys \<and> (\<forall>k\<in>set (labKeys l). MayContain (labBloom l) k = Some True)"

datatype lab_op = Lab_reset int real | Lab_add "string option" | Lab_state

fun lab_exec :: "(int \<Rightarrow> real \<Rightarrow> u64) \<Rightarrow> (int \<Rightarrow> u64 \<Rightarrow> u64) \<Rightarrow> lab_op \<Rightarrow> lab \<Rightarrow> (lab_body response \<times> lab) option" where
  "lab_exec mEst kEst (Lab_reset n p) l = handleBloomReset mEst kEst n p l"
| "lab_exec mEst kEst (Lab_add body) l = handleBloomAdd body l"
| "lab_exec mEst kEst Lab_state l = handleBloomState l"

fun lab_run :: "(int \<Rightarrow> real \<Rightarrow> u64) \<Rightarrow> (int \<Rightarrow> u64 \<Rightarrow> u64) \<Rightarrow> lab_op list \<Rightarrow> lab \<Rightarrow> lab option" where
  "lab_run mEst kEst [] l = Some l"
| "lab_run mEst kEst (oper # opers) l = (case lab_exec mEst kEst oper l of None \<Rightarrow> None | Some (_, l') \<Rightarrow> lab_run mEst kEst opers l')"

lemma labState_total: "bloom_ok (labBloom l) \<Longrightarrow> \<exists>out. labState l = Some out"
  using Preview_cells [of "labBloom l" 256] by (auto simp: labState_def)

lemma newLab_ok: "\<forall>n p. mEst n p \<le> 0x8000000000000000 \<Longrightarrow> lab_ok (newLab mEst kEst)"
  using NewBloom_ok(1) [of "mEst 1000 (1 / 100)" "kEst 1000"] by (simp add: lab_ok_def newLab_def)

lemma recentKeys_eq: "recentKeys ks = drop (length ks - labMaxKeys) ks"
  by (simp add: recentKeys_def)

lemma handleBloomAdd_ok:
  assumes "lab_ok l"
  shows "\<exists>w l'. handleBloomAdd (Some key) l = Some (w, l') \<and> lab_ok l' \<and> (\<forall>t. MayContain (labBloom l) t = Some True \<longrightarrow> MayContain (labBloom l') t = Some True)
    \<and> (TrimSpace key \<noteq> [] \<and> length (TrimSpace key) \<le> labMaxKeyLen \<longrightarrow>
        labKeys l' = recentKeys (labKeys l @ [TrimSpace key]) \<and> MayContain (labBloom l') (TrimSpace key) = Some True)"
proof (cases "TrimSpace key = [] \<or> length (TrimSpace key) > labMaxKeyLen")
  case True
  then show ?thesis using assms by (auto simp: handleBloomAdd_def Let_def)
next
  case False
  let ?k = "TrimSpace key"
  have ok: "bloom_ok (labBloom l)" using assms by (simp add: lab_ok_def)
  from filter.ins_law [OF ok, of ?k] obtain b where b: "Add (labBloom l) ?k = Some b" "bloom_ok b" "MayContain b ?k = Some True"
    "\<forall>t. MayContain (labBloom l) t = Some True \<longrightarrow> MayContain b t = Some True" by blast
  define l' where "l' = \<lparr>labBloom = b, labKeys = recentKeys (labKeys l @ [?k])\<rparr>"
  obtain out where out: "labState l' = Some out" using labState_total [of l'] b(2) by (auto simp: l'_def)
  obtain bits where bits: "SetBits b ?k = Some bits" using positions_ok [OF b(2), of ?k] by (auto simp: SetBits_def)
  have "handleBloomAdd (Some key) l = Some (writeJSON 200 (L_added out ?k bits), l')"
    using False b(1) bits out by (simp add: handleBloomAdd_def Let_def l'_def [symmetric])
  moreover have "lab_ok l'"
    using assms b(2-4) by (auto simp: lab_ok_def l'_def recentKeys_eq dest!: in_set_dropD)
  ultimately show ?thesis using b False by (auto simp: l'_def)
qed

lemma lab_exec_ok:
  assumes "lab_ok l" "\<forall>n p. mEst n p \<le> 0x8000000000000000"
  shows "\<exists>w l'. lab_exec mEst kEst oper l = Some (w, l') \<and> lab_ok l'"
proof (cases oper)
  case (Lab_reset n p)
  define m where "m = min (if n \<le> 0 then 1000 else n) labMaxExpected"
  define q where "q = max (if p \<le> 0 \<or> p \<ge> 1 then 1 / 100 else p) labMinFPRate"
  define l' where "l' = l\<lparr>labBloom := NewBloom (mEst m q) (kEst m), labKeys := []\<rparr>"
  have ok: "lab_ok l'" using NewBloom_ok(1) [of "mEst m q" "kEst m"] assms(2) by (simp add: lab_ok_def l'_def)
  obtain out where "labState l' = Some out" using labState_total [of l'] ok by (auto simp: lab_ok_def)
  then show ?thesis using ok unfolding Lab_reset lab_exec.simps handleBloomReset_def Let_def m_def [symmetric] q_def [symmetric] l'_def [symmetric]
    by simp
next
  case (Lab_add body)
  then show ?thesis using assms(1) handleBloomAdd_ok [OF assms(1)]
    by (cases body) (simp add: handleBloomAdd_def, fastforce)
next
  case Lab_state
  then show ?thesis using assms(1) labState_total [of l] by (auto simp: handleBloomState_def lab_ok_def)
qed

lemma lab_run_ok:
  assumes "lab_ok l" "\<forall>n p. mEst n p \<le> 0x8000000000000000"
  shows "\<exists>l'. lab_run mEst kEst opers l = Some l' \<and> lab_ok l'"
  using assms(1)
proof (induction opers arbitrary: l)
  case (Cons oper opers)
  then show ?case using lab_exec_ok [OF Cons.prems assms(2), of kEst oper] by auto
qed simp

lemma handleBloomTest_ok:
  assumes "bloom_ok (labBloom l)" "TrimSpace (query_get r ''key'') = k" "k \<noteq> []"
  shows "\<exists>t. handleBloomTest r l = Some (writeJSON 200 (L_test t)) \<and> lt_key t = k \<and> Some (lt_maybe t) = MayContain (labBloom l) k
    \<and> lt_present t = (k \<in> set (labKeys l))
    \<and> lt_verdict t = (if lt_maybe t \<and> lt_present t then verdict_yes else if lt_maybe t then verdict_false else verdict_no)"
proof -
  obtain m where m: "MayContain (labBloom l) k = Some m" using filter.qry_total [OF assms(1)] by blast
  obtain bits where b: "SetBits (labBloom l) k = Some bits" using positions_ok [OF assms(1), of k] by (auto simp: SetBits_def)
  let ?present = "k \<in> set (labKeys l)"
  let ?t = "\<lparr>lt_key = k, lt_maybe = m, lt_present = ?present,
     lt_verdict = (if m \<and> ?present then verdict_yes else if m then verdict_false else verdict_no), lt_bits = bits, lt_stats = Bloom.Stats (labBloom l)\<rparr>"
  have "handleBloomTest r l = Some (writeJSON 200 (L_test ?t))" using m b assms(2,3) by (simp add: handleBloomTest_def Let_def)
  then show ?thesis using m by (intro exI [of _ ?t]) simp
qed

lemma lab_add_run:
  assumes "lab_ok l" "k \<noteq> []" "length k \<le> 256" "TrimSpace k = k"
  shows "\<exists>l'. lab_run mEst kEst [Lab_add (Some k)] l = Some l' \<and> lab_ok l' \<and> labKeys l' = recentKeys (labKeys l @ [k])
    \<and> MayContain (labBloom l') k = Some True \<and> (\<forall>t. MayContain (labBloom l) t = Some True \<longrightarrow> MayContain (labBloom l') t = Some True)"
proof -
  from handleBloomAdd_ok [OF assms(1), of k] assms(2-4) obtain w l' where "handleBloomAdd (Some k) l = Some (w, l')" "lab_ok l'"
    "labKeys l' = recentKeys (labKeys l @ [k])" "MayContain (labBloom l') k = Some True"
    "\<forall>t. MayContain (labBloom l) t = Some True \<longrightarrow> MayContain (labBloom l') t = Some True" by (auto simp: labMaxKeyLen_def)
  then show ?thesis by simp
qed

lemma recentKeys_append: "recentKeys (recentKeys xs @ [y]) = recentKeys (xs @ [y])"
proof (cases "length xs \<le> labMaxKeys")
  case False
  then have "recentKeys xs = drop (length xs - labMaxKeys) xs" "length (recentKeys xs) = labMaxKeys"
    "Suc (length xs) - labMaxKeys = Suc (length xs - labMaxKeys)" by (simp_all add: recentKeys_def)
  then show ?thesis using False by (simp add: recentKeys_eq [of "_ @ _"] labMaxKeys_def)
qed (simp add: recentKeys_def)

lemma lab_run_append: "lab_run mEst kEst (xs @ ys) l = Option.bind (lab_run mEst kEst xs l) (lab_run mEst kEst ys)"
  by (induction xs arbitrary: l) (auto split: option.splits)

lemma lab_adds_run:
  assumes "lab_ok l" "\<forall>k\<in>set ks. k \<noteq> [] \<and> length k \<le> 256 \<and> TrimSpace k = k"
  shows "\<exists>l'. lab_run mEst kEst (map (\<lambda>k. Lab_add (Some k)) ks) l = Some l' \<and> lab_ok l' \<and> labKeys l' = recentKeys (labKeys l @ ks)
    \<and> (\<forall>t. t \<in> set ks \<or> MayContain (labBloom l) t = Some True \<longrightarrow> MayContain (labBloom l') t = Some True)"
  using assms(2)
proof (induction ks rule: rev_induct)
  case Nil
  then show ?case using assms(1) by (simp add: recentKeys_def lab_ok_def)
next
  case (snoc k ks)
  then obtain l1 where l1: "lab_run mEst kEst (map (\<lambda>k. Lab_add (Some k)) ks) l = Some l1" "lab_ok l1"
    "labKeys l1 = recentKeys (labKeys l @ ks)"
    "\<forall>t. t \<in> set ks \<or> MayContain (labBloom l) t = Some True \<longrightarrow> MayContain (labBloom l1) t = Some True" by auto
  from lab_add_run [OF l1(2), of k mEst kEst] snoc.prems obtain l2 where l2:
    "lab_run mEst kEst [Lab_add (Some k)] l1 = Some l2" "lab_ok l2" "labKeys l2 = recentKeys (labKeys l1 @ [k])"
    "MayContain (labBloom l2) k = Some True" "\<forall>t. MayContain (labBloom l1) t = Some True \<longrightarrow> MayContain (labBloom l2) t = Some True"
    by auto
  have "labKeys l2 = recentKeys (labKeys l @ ks @ [k])"
    using l2(3) l1(3) recentKeys_append [of "labKeys l @ ks" k] by simp
  then show ?case using l1 l2 by (simp add: lab_run_append)
qed

section \<open>Properties\<close>

text \<open>The burst endpoint can only report success: for every request, the identifiers minted in a
  burst are as many as asked for and none repeats, however the clock stalls or jumps back; and it
  answers whenever the clock advances between readings.\<close>

theorem burst_no_collisions:
  fixes r :: request and cfg :: "'p config"
  defines "n \<equiv> clamp (qInt r ''n'' 50000) 1 500000"
  assumes "\<forall>c\<in>set clock. in_window c"
  shows "(\<forall>w. handleIDBurst clock r cfg = Some w \<longrightarrow>
           (\<exists>b. w = writeJSON 200 (L_burst b) \<and> ib_generated b = n \<and> int (ib_unique b) = n \<and> ib_collisions b = 0
              \<and> length (ib_sample b) = nat (min n 6)))
    \<and> (sorted_wrt (\<lambda>s t. sint s < sint t) clock \<and> n \<le> int (length clock) \<longrightarrow> handleIDBurst clock r cfg \<noteq> None)"
proof (intro conjI allI impI)
  let ?g = "NewSnowflake (word_of_int (cfg_NodeID cfg))"
  have n: "1 \<le> n" by (simp add: n_def clamp_def)
  fix w
  assume "handleIDBurst clock r cfg = Some w"
  then obtain seen c sample g where b: "burst (nat n) 0 [] 0 [] ?g clock = Some (seen, c, sample, g)"
    and w: "w = writeJSON 200 (L_burst \<lparr>ib_generated = n, ib_unique = length seen, ib_collisions = c, ib_seq_exhausted = SeqExhausted g,
      ib_sample = sample, ib_max_per_sec = (sint maxSeq + 1) * 1000\<rparr>)"
    unfolding handleIDBurst_def Let_def n_def [symmetric] by (auto split: option.splits)
  from burst_run [OF b] obtain idents clock' where i: "next_many (nat n) ?g clock = Some (idents, g, clock')"
    "sample = map explodeID (take 6 idents)" "distinct idents \<longrightarrow> c = 0 \<and> length seen = nat n" by auto
  have "length idents = nat n" "distinct idents"
    using snow.run_increases [OF i(1) [unfolded next_many_def] snow_ok_New assms(2)]
      snow.run_distinct [OF i(1) [unfolded next_many_def] snow_ok_New assms(2)] by simp_all
  with i n w show "\<exists>b. w = writeJSON 200 (L_burst b) \<and> ib_generated b = n \<and> int (ib_unique b) = n \<and> ib_collisions b = 0
      \<and> length (ib_sample b) = nat (min n 6)" by (auto simp: min_def)
next
  let ?g = "NewSnowflake (word_of_int (cfg_NodeID cfg))"
  assume c: "sorted_wrt (\<lambda>s t. sint s < sint t) clock \<and> n \<le> int (length clock)"
  have "\<forall>t\<in>set clock. sint (lastMS ?g) < sint t" using assms(2) by (auto simp: in_window_def NewSnowflake_def)
  then obtain x where "burst (nat n) 0 [] 0 [] ?g clock = Some x" using burst_returns [of ?g clock "nat n"] c by fastforce
  then show "handleIDBurst clock r cfg \<noteq> None" unfolding handleIDBurst_def Let_def n_def [symmetric] by (cases x) auto
qed

theorem burst_no_collisions_witness:
  "\<exists>b. handleIDBurst [1735689600005, 1735689600006] (demo_request\<lparr>rq_query := [(''n'', [''2''])]\<rparr>) (loadConfig demo_netip id demo_env) = Some (writeJSON 200 (L_burst b))
     \<and> ib_unique b = 2 \<and> ib_collisions b = 0"
proof -
  let ?r = "demo_request\<lparr>rq_query := [(''n'', [''2''])]\<rparr>" and ?clock = "[1735689600005, 1735689600006]"
  have q: "clamp (qInt ?r ''n'' 50000) 1 500000 = 2" by code_simp
  have "\<forall>c\<in>set ?clock. in_window c" by (simp add: in_window_def)
  from burst_no_collisions [OF this, of ?r "loadConfig demo_netip id demo_env", unfolded q] show ?thesis by force
qed

text \<open>The playground has no false negatives: after any sequence of resets and additions, testing a key never
  fails, a remembered key is reported as a true positive, and a key reported as definitely absent is
  not remembered.\<close>

theorem lab_no_false_negatives:
  assumes "\<forall>n p. mEst n p \<le> 0x8000000000000000" "TrimSpace (query_get r ''key'') = k" "k \<noteq> []"
  shows "\<exists>l t. lab_run mEst kEst opers (newLab mEst kEst) = Some l \<and> handleBloomTest r l = Some (writeJSON 200 (L_test t)) \<and> lt_key t = k
    \<and> (k \<in> set (labKeys l) \<longrightarrow> lt_verdict t = ''in set (true positive)'')
    \<and> (lt_verdict t = ''definitely not in set'' \<longrightarrow> k \<notin> set (labKeys l))"
proof -
  obtain l where l: "lab_run mEst kEst opers (newLab mEst kEst) = Some l" "lab_ok l"
    using lab_run_ok [OF newLab_ok [OF assms(1)] assms(1)] by blast
  from handleBloomTest_ok [of l r k] assms(2,3) l(2) obtain t where t: "handleBloomTest r l = Some (writeJSON 200 (L_test t))" "lt_key t = k"
    "Some (lt_maybe t) = MayContain (labBloom l) k" "lt_present t = (k \<in> set (labKeys l))"
    "lt_verdict t = (if lt_maybe t \<and> lt_present t then verdict_yes else if lt_maybe t then verdict_false else verdict_no)"
    by (auto simp: lab_ok_def)
  have "k \<in> set (labKeys l) \<Longrightarrow> lt_verdict t = ''in set (true positive)''"
    using t l(2) by (auto simp: lab_ok_def verdict_yes_def)
  then show ?thesis using l(1) t(1,2) by (intro exI conjI) auto
qed

theorem lab_no_false_negatives_witness:
  "\<exists>l t. lab_run (\<lambda>_ _. 64) (\<lambda>_ _. 3) [Lab_add (Some ''a'')] (newLab (\<lambda>_ _. 64) (\<lambda>_ _. 3)) = Some l
    \<and> handleBloomTest (demo_request\<lparr>rq_query := [(''key'', [''a''])]\<rparr>) l = Some (writeJSON 200 (L_test t)) \<and> lt_key t = ''a''"
proof -
  have "TrimSpace (query_get (demo_request\<lparr>rq_query := [(''key'', [''a''])]\<rparr>) ''key'') = ''a''" by code_simp
  from lab_no_false_negatives [OF _ this, of "\<lambda>_ _. 64" "\<lambda>_ _. 3" "[Lab_add (Some ''a'')]"] show ?thesis by auto
qed

text \<open>The truth the playground compares with forgets: once forty other keys have been added, a key that is in
  the set is reported as a false positive.\<close>

theorem lab_truth_forgets:
  assumes "\<forall>n p. mEst n p \<le> 0x8000000000000000" "\<forall>k\<in>set (key # others). k \<noteq> [] \<and> length k \<le> 256 \<and> TrimSpace k = k"
    and "40 \<le> length others" "key \<notin> set others" "query_get r ''key'' = key"
  shows "\<exists>l t. lab_run mEst kEst (map (\<lambda>k. Lab_add (Some k)) (key # others)) (newLab mEst kEst) = Some l
    \<and> handleBloomTest r l = Some (writeJSON 200 (L_test t)) \<and> lt_maybe t \<and> \<not> lt_present t
    \<and> lt_verdict t = ''FALSE POSITIVE '' @ em_dash @ '' bloom says maybe, set says no''"
proof -
  obtain l where l: "lab_run mEst kEst (map (\<lambda>k. Lab_add (Some k)) (key # others)) (newLab mEst kEst) = Some l" "lab_ok l"
    "labKeys l = recentKeys (labKeys (newLab mEst kEst) @ key # others)" "MayContain (labBloom l) key = Some True"
    using lab_adds_run [OF newLab_ok [OF assms(1), of kEst] assms(2), of mEst kEst] by (metis list.set_intros(1))
  have "key \<notin> set (labKeys l)"
    using l(3) assms(3,4) by (auto simp: newLab_def recentKeys_eq labMaxKeys_def drop_Cons' dest: in_set_dropD split: if_splits)
  moreover from handleBloomTest_ok [of l r key] assms(2,5) l(2) obtain t where
    "handleBloomTest r l = Some (writeJSON 200 (L_test t))" "Some (lt_maybe t) = MayContain (labBloom l) key"
    "lt_present t = (key \<in> set (labKeys l))"
    "lt_verdict t = (if lt_maybe t \<and> lt_present t then verdict_yes else if lt_maybe t then verdict_false else verdict_no)"
    by (auto simp: lab_ok_def)
  ultimately show ?thesis using l(1,4) by (intro exI [of _ l] exI [of _ t]) (simp add: verdict_false_def)
qed

theorem lab_truth_forgets_witness:
  "\<exists>l t. lab_run (\<lambda>_ _. 64) (\<lambda>_ _. 3) (map (\<lambda>k. Lab_add (Some k)) (''a'' # replicate 40 ''b'')) (newLab (\<lambda>_ _. 64) (\<lambda>_ _. 3)) = Some l
    \<and> handleBloomTest (demo_request\<lparr>rq_query := [(''key'', [''a''])]\<rparr>) l = Some (writeJSON 200 (L_test t)) \<and> lt_maybe t \<and> \<not> lt_present t"
proof -
  have k: "TrimSpace ''a'' = ''a''" "TrimSpace ''b'' = ''b''" by code_simp+
  have q: "query_get (demo_request\<lparr>rq_query := [(''key'', [''a''])]\<rparr>) ''key'' = ''a''" by code_simp
  have "\<forall>k\<in>set (''a'' # replicate 40 ''b''). k \<noteq> [] \<and> length k \<le> 256 \<and> TrimSpace k = k" using k by auto
  from lab_truth_forgets [OF _ this _ _ q, of "\<lambda>_ _. 64" "\<lambda>_ _. 3"] show ?thesis by (simp del: map_replicate lab_run.simps) blast
qed

end
