(* ===== verification/Analytics.thy ===== *)
theory Analytics
  imports Auth
begin

text \<open>
  \<^verbatim>\<open>backend/handlers_analytics.go\<close>: the read-only queries on the analytics store for the links of
  the caller, and the live view of the bus.  A handler is a function of the signed-in user;
  the measured durations are left out of the responses.
\<close>

section \<open>Windows\<close>

record range_option =
  ro_span :: int
  ro_gran :: string

text \<open>Spans in milliseconds.\<close>

definition ranges :: "(string, range_option) gomap" where
  "ranges = [(''1h'', \<lparr>ro_span = hourMS, ro_gran = ''minute''\<rparr>), (''6h'', \<lparr>ro_span = 6 * hourMS, ro_gran = ''minute''\<rparr>),
     (''24h'', \<lparr>ro_span = 24 * hourMS, ro_gran = ''hour''\<rparr>), (''7d'', \<lparr>ro_span = 7 * 24 * hourMS, ro_gran = ''hour''\<rparr>),
     (''30d'', \<lparr>ro_span = 30 * 24 * hourMS, ro_gran = ''day''\<rparr>)]"

definition defaultRange :: string where "defaultRange = ''24h''"

record window =
  w_Range :: string
  w_Gran :: string
  w_From :: int
  w_To :: int

definition requestWindow :: "int \<Rightarrow> request \<Rightarrow> window" where
  "requestWindow now r =
     (let name0 = query_get r ''range'';
          zero = \<lparr>ro_span = 0, ro_gran = []\<rparr>;
          (name, opt) = (case map_of ranges name0 of Some opt \<Rightarrow> (name0, opt) | None \<Rightarrow> (defaultRange, mget zero ranges defaultRange));
          to = UnixMilli now
      in \<lparr>w_Range = name, w_Gran = ro_gran opt, w_From = to - ro_span opt, w_To = to\<rparr>)"

section \<open>The caller's codes\<close>

definition userCodes ::
  "('r, 'db, 'u, 'a, 'p, 'i) ext \<Rightarrow> user \<Rightarrow> ('r, 'db, 'p) app \<Rightarrow> (go_error + u32 list \<times> string list) \<times> ('r, 'db, 'p) app" where
  "userCodes X u a =
     (let (res, st) = ListByUser (x_pg X) (x_sort X) (u_ID u) 500 (a_store a); a1 = a\<lparr>a_store := st\<rparr>
      in case res of
           Inl e \<Rightarrow> (Inl e, a1)
         | Inr links \<Rightarrow>
             let (is, ol) = code_ids (map l_Code links) (a_olap a1) in (Inr (is, map l_Code links), a1\<lparr>a_olap := ol\<rparr>))"

definition codesForRequest ::
  "('r, 'db, 'u, 'a, 'p, 'i) ext \<Rightarrow> user \<Rightarrow> request \<Rightarrow> ('r, 'db, 'p) app \<Rightarrow> (go_error + u32 list) \<times> ('r, 'db, 'p) app" where
  "codesForRequest X u r a =
     (let code = rq_param r
      in if code \<noteq> [] \<and> code \<noteq> ''all''
         then (case ownedLink X u code a of
                 (Inl e, a1) \<Rightarrow> (Inl e, a1)
               | (Inr _, a1) \<Rightarrow> let (i, ol) = CodeID code (a_olap a1) in (Inr [i], a1\<lparr>a_olap := ol\<rparr>))
         else (case userCodes X u a of
                 (Inl e, a1) \<Rightarrow> (Inl e, a1)
               | (Inr (is, _), a1) \<Rightarrow> (Inr is, a1)))"

definition sumCounts :: "ts_point list \<Rightarrow> u64" where
  "sumCounts pts = fold (\<lambda>p n. n + of_nat (Count p)) pts 0"

section \<open>Handlers\<close>

record race_side =
  rc_scanned :: nat
  rc_total :: u64
  rc_buckets :: nat

datatype analytics_body =
    A_series "ts_point list" string string nat int int
  | A_breakdown "dim_row list" string string string int int
  | A_summary code_summary
  | A_overview code_summary u64 nat "dim_row list" "dim_row list" "dim_row list" "dim_row list" "ts_point list" window
  | A_race string race_side race_side bool u64
  | A_stream "click_event list" broker_stats

type_synonym ('r, 'db, 'p) analysed = "analytics_body response \<times> ('r, 'db, 'p) app"

definition handleTimeseries ::
  "('r, 'db, 'u, 'a, 'p, 'i) ext \<Rightarrow> user \<Rightarrow> int \<Rightarrow> request \<Rightarrow> ('r, 'db, 'p) app \<Rightarrow> ('r, 'db, 'p) analysed" where
  "handleTimeseries X u now r a =
     (case codesForRequest X u r a of
        (Inl e, a1) \<Rightarrow> (fail_response e, a1)
      | (Inr codes, a1) \<Rightarrow>
          let win = requestWindow now r;
              q = query_get r ''gran'';
              gran0 = (if q = [] then w_Gran win else q)
          in if \<not> validGran gran0 then (writeErr 400 ''gran must be minute, hour or day'', a1)
             else let gran = (if gran0 = ''minute'' \<and> w_To win - w_From win > dayMS then ''hour'' else gran0);
                      raw = (query_get r ''mode'' = ''raw'');
                      (pts, scanned) = (if raw then TimeSeriesRaw else TimeSeriesMV) codes gran (w_From win) (w_To win) (a_olap a1)
                  in (writeJSON 200 (A_series pts gran (if raw then ''raw'' else ''mv'') scanned (w_From win) (w_To win)), a1))"

definition handleBreakdown ::
  "('r, 'db, 'u, 'a, 'p, 'i) ext \<Rightarrow> user \<Rightarrow> int \<Rightarrow> request \<Rightarrow> ('r, 'db, 'p) app \<Rightarrow> ('r, 'db, 'p) analysed" where
  "handleBreakdown X u now r a =
     (let q = query_get r ''dim''; dm = (if q = [] then ''country'' else q)
      in if dimIndex dm = None then (writeErr 400 ''dim must be one of country, city, referrer, device, browser, os'', a)
         else case codesForRequest X u r a of
                (Inl e, a1) \<Rightarrow> (fail_response e, a1)
              | (Inr codes, a1) \<Rightarrow>
                  let win = requestWindow now r;
                      raw = (query_get r ''mode'' = ''raw'');
                      rows = (if raw then BreakdownRaw else BreakdownMV) codes dm (w_From win) (w_To win) (qLimit r 12) (a_olap a1)
                  in (writeJSON 200 (A_breakdown rows dm (if raw then ''raw'' else ''mv'') (w_Range win) (w_From win) (w_To win)), a1))"

definition handleSummary ::
  "('r, 'db, 'u, 'a, 'p, 'i) ext \<Rightarrow> user \<Rightarrow> int \<Rightarrow> request \<Rightarrow> ('r, 'db, 'p) app \<Rightarrow> ('r, 'db, 'p) analysed" where
  "handleSummary X u now r a =
     (case codesForRequest X u r a of
        (Inl e, a1) \<Rightarrow> (fail_response e, a1)
      | (Inr codes, a1) \<Rightarrow> (writeJSON 200 (A_summary (Summary (UnixMilli now) codes (a_olap a1))), a1))"

definition handleOverview ::
  "('r, 'db, 'u, 'a, 'p, 'i) ext \<Rightarrow> user \<Rightarrow> int \<Rightarrow> int \<Rightarrow> request \<Rightarrow> ('r, 'db, 'p) app \<Rightarrow> ('r, 'db, 'p) analysed" where
  "handleOverview X u now1 now2 r a =
     (case userCodes X u a of
        (Inl e, a1) \<Rightarrow> (internalErr, a1)
      | (Inr (is, codes), a1) \<Rightarrow>
          let win = requestWindow now1 r; s = a_olap a1;
              top = (\<lambda>dm n. BreakdownMV is dm (w_From win) (w_To win) n s);
              line = fst (TimeSeriesMV is (w_Gran win) (w_From win) (w_To win) s)
          in (writeJSON 200 (A_overview (Summary (UnixMilli now2) is s) (sumCounts line) (length codes)
                (top ''country'' 8) (top ''referrer'' 8) (top ''device'' 5) (top ''browser'' 6) line win), a1))"

definition handleQueryRace ::
  "('r, 'db, 'u, 'a, 'p, 'i) ext \<Rightarrow> user \<Rightarrow> int \<Rightarrow> request \<Rightarrow> ('r, 'db, 'p) app \<Rightarrow> ('r, 'db, 'p) analysed" where
  "handleQueryRace X u now r a =
     (case codesForRequest X u r a of
        (Inl e, a1) \<Rightarrow> (fail_response e, a1)
      | (Inr codes, a1) \<Rightarrow>
          let win = requestWindow now r; s = a_olap a1;
              (rawPts, rawScan) = TimeSeriesRaw codes (w_Gran win) (w_From win) (w_To win) s;
              (mvPts, mvScan) = TimeSeriesMV codes (w_Gran win) (w_From win) (w_To win) s;
              rawTotal = sumCounts rawPts; mvTotal = sumCounts mvPts
          in (writeJSON 200 (A_race (w_Gran win)
                \<lparr>rc_scanned = rawScan, rc_total = rawTotal, rc_buckets = length rawPts\<rparr>
                \<lparr>rc_scanned = mvScan, rc_total = mvTotal, rc_buckets = length mvPts\<rparr>
                (rawTotal = mvTotal) (TotalRows s)), a1))"

definition handleStream :: "user \<Rightarrow> request \<Rightarrow> ('r, 'db, 'p) app \<Rightarrow> ('r, 'db, 'p) analysed" where
  "handleStream u r a =
     (let keep = (if u_Role u \<noteq> ''admin'' then Some (\<lambda>e. ev_UserID e = u_ID u) else None)
      in (writeJSON 200 (A_stream (Recent (clamp (qInt r ''limit'' 40) 1 (int recentSize)) keep (a_bus a)) (Bus.Stats (a_bus a))), a))"

section \<open>Isolation\<close>

lemma recent_loop_kept:
  "keep = Some f \<Longrightarrow> \<forall>e\<in>set out. f e \<Longrightarrow> \<forall>e\<in>set (recent_loop b n keep i out). f e"
proof (induction b n keep i out rule: recent_loop.induct)
  case (1 b n keep i out)
  let ?e = "recent b ! ((recentN b - 1 - i) mod recentSize)"
  let ?out = "if (case keep of None \<Rightarrow> True | Some f \<Rightarrow> f ?e) then out @ [?e] else out"
  show ?case
  proof (cases "i < min (recentN b) recentSize \<and> int (length out) < n")
    case True
    have "\<forall>e\<in>set ?out. f e" using 1(2,3) by simp
    from 1(1) [OF True refl 1(2) this] show ?thesis
      unfolding recent_loop.simps [of b n keep i out] if_P [OF True] Let_def .
  next
    case False
    then show ?thesis using 1(3) unfolding recent_loop.simps [of b n keep i out] if_not_P [OF False] by simp
  qed
qed

lemma Recent_kept: "e \<in> set (Recent n (Some f) b) \<Longrightarrow> f e"
  using recent_loop_kept [of "Some f" f "[]" b n 0] by (simp add: Recent_def)

lemma CodeID_ok:
  assumes "dict_ok (o_dict s)" "Size (o_dict s) < 4294967296" "CodeID c s = (i, s')"
  shows "dict_ok (o_dict s')" "Val (o_dict s') i = c" "Size (o_dict s') \<le> Size (o_dict s) + 1"
    and "\<forall>t j. Lookup (o_dict s) t = Some j \<longrightarrow> Lookup (o_dict s') t = Some j" "Lookup (o_dict s') c = Some i"
    and "s' = s\<lparr>o_dict := o_dict s'\<rparr>"
proof -
  obtain d where d: "Dict.ID (o_dict s) c = (i, d)" "s' = s\<lparr>o_dict := d\<rparr>" using assms(3) by (auto simp: CodeID_def split: prod.splits)
  note e = ID_extends [OF assms(1) assms(2) [unfolded Size_def] d(1)]
  then show "dict_ok (o_dict s')" "Val (o_dict s') i = c" "Size (o_dict s') \<le> Size (o_dict s) + 1"
    "\<forall>t j. Lookup (o_dict s) t = Some j \<longrightarrow> Lookup (o_dict s') t = Some j" "Lookup (o_dict s') c = Some i"
    "s' = s\<lparr>o_dict := o_dict s'\<rparr>" using d(2) by simp_all
qed

lemma code_ids_ok:
  assumes "dict_ok (o_dict s)" "Size (o_dict s) + length cs \<le> 4294967296" "code_ids cs s = (is, s')"
  shows "dict_ok (o_dict s') \<and> s' = s\<lparr>o_dict := o_dict s'\<rparr> \<and> length is = length cs
    \<and> (\<forall>t j. Lookup (o_dict s) t = Some j \<longrightarrow> Lookup (o_dict s') t = Some j)
    \<and> list_all2 (\<lambda>c i. Lookup (o_dict s') c = Some i) cs is"
  using assms
proof (induction cs arbitrary: s "is")
  case (Cons c cs)
  obtain i s1 where i: "CodeID c s = (i, s1)" by (cases "CodeID c s")
  obtain js where js: "code_ids cs s1 = (js, s')" "is = i # js" using Cons.prems(3) by (auto simp: i Let_def split: prod.splits)
  have "Size (o_dict s) < 4294967296" using Cons.prems(2) by simp
  note c = CodeID_ok [OF Cons.prems(1) this i]
  have "Size (o_dict s1) + length cs \<le> 4294967296" using c(3) Cons.prems(2) by simp
  note IH = Cons.IH [OF c(1) this js(1)]
  have "s' = s\<lparr>o_dict := o_dict s'\<rparr>" using IH c(6) by (metis (no_types, lifting) olap.update_convs(2) olap.surjective)
  then show ?case using IH c(4,5) js(2) by auto
qed simp


definition owns :: "('db \<Rightarrow> tables) \<Rightarrow> 'db store \<Rightarrow> int \<Rightarrow> string \<Rightarrow> bool" where
  "owns tabs st u code \<longleftrightarrow> (\<exists>t. \<exists>l\<in>set (tabs (db st) t). l_Code l = code \<and> l_UserID l = u)"

lemma ListByUser_owned:
  assumes "pg_ok srv tabs" "sorts_newest srt" "ListByUser srv srt u limit st = (Inr ls, st')" "l \<in> set ls"
  shows "owns tabs st u (l_Code l)"
proof -
  from ListByUser_top [OF assms(1-3)] obtain every where every: "mset every = mset (user_links tabs st u)" "ls = take (nat limit) every"
    by blast
  then have "l \<in> set every" using assms(4) by (auto dest: in_set_takeD)
  then have "l \<in> set (user_links tabs st u)" using every(1) by (metis set_mset_mset)
  then obtain sh x where "x \<in> set (tabs (db st) (shardTable sh))" "l = scanLink sh x" "l_UserID x = u"
    by (auto simp: user_links_def)
  then show ?thesis unfolding owns_def by (intro exI [of _ "shardTable sh"] bexI [of _ x]) (simp_all add: scanLink_def)
qed

lemma Lookup_Val: "dict_ok d \<Longrightarrow> Lookup d c = Some i \<Longrightarrow> Val d i = c"
  by (simp add: dict_ok_def Lookup_def Val_def)

lemma ownedLink_owned:
  assumes "pg_ok (x_pg X) tabs" "ownedLink X u code a = (Inr l, a1)"
  shows "owns tabs (a_store a) (u_ID u) code" "a_olap a1 = a_olap a"
proof -
  obtain q st where q: "GetByCode (x_pg X) code (a_store a) = (q, st)" by (cases "GetByCode (x_pg X) code (a_store a)")
  have l: "q = Inr l" "l_UserID l = u_ID u" "a1 = a\<lparr>a_store := st\<rparr>"
    using assms(2) by (auto simp: ownedLink_def q Let_def split: sum.splits go_error.splits if_splits)
  from GetByCode_row(4) [OF assms(1) q l(1)] obtain row where row: "row_of tabs (a_store a) code = Some row"
    "l = scanLink (ShardFor (a_store a) code) row" by blast
  then have "row \<in> set (tabs (db (a_store a)) (shardTable (ShardFor (a_store a) code)))"
    by (metis row_of_def find_Some_iff nth_mem)
  then show "owns tabs (a_store a) (u_ID u) code" using row_of_code [OF row(1)] l(2) row(2) by (auto simp: owns_def scanLink_def)
  show "a_olap a1 = a_olap a" by (simp add: l(3))
qed

lemma codesForRequest_owned:
  assumes pg: "pg_ok (x_pg X) tabs" and srt: "sorts_newest (x_sort X)" and d: "dict_ok (o_dict (a_olap a))"
    and room: "Size (o_dict (a_olap a)) + 500 \<le> 4294967296" and run: "codesForRequest X u r a = (Inr codes, a1)"
  shows "\<forall>i\<in>set codes. owns tabs (a_store a) (u_ID u) (Val (o_dict (a_olap a1)) i)"
    and "a_olap a1 = a_olap a\<lparr>o_dict := o_dict (a_olap a1)\<rparr>"
proof -
  have "(\<forall>i\<in>set codes. owns tabs (a_store a) (u_ID u) (Val (o_dict (a_olap a1)) i))
      \<and> a_olap a1 = a_olap a\<lparr>o_dict := o_dict (a_olap a1)\<rparr>"
  proof (cases "rq_param r \<noteq> [] \<and> rq_param r \<noteq> ''all''")
    case True
    obtain res a2 where res: "ownedLink X u (rq_param r) a = (res, a2)" by (cases "ownedLink X u (rq_param r) a")
    then obtain l where l: "res = Inr l" using run True res by (cases res) (simp_all add: codesForRequest_def)
    note o = ownedLink_owned [OF pg res [unfolded l]]
    obtain i s where i: "CodeID (rq_param r) (a_olap a) = (i, s)" by (cases "CodeID (rq_param r) (a_olap a)")
    have "(Inr codes, a1) = (Inr [i] :: go_error + u32 list, a2\<lparr>a_olap := s\<rparr>)"
      unfolding run [symmetric] using True res l i o(2) by (simp add: codesForRequest_def Let_def)
    then have c: "codes = [i]" "a_olap a1 = s" by simp_all
    have "Size (o_dict (a_olap a)) < 4294967296" using room by simp
    note k = CodeID_ok [OF d this i]
    show ?thesis unfolding c using o(1) k(2,6) by auto
  next
    case False
    let ?q = "ListByUser (x_pg X) (x_sort X) (u_ID u) 500 (a_store a)"
    obtain res st where q: "?q = (res, st)" by (cases ?q)
    obtain ls where ls: "res = Inr ls" using run False by (cases res) (simp_all add: codesForRequest_def userCodes_def q Let_def)
    obtain ns s where ns: "code_ids (map l_Code ls) (a_olap a) = (ns, s)" by (cases "code_ids (map l_Code ls) (a_olap a)")
    have "(Inr codes, a1) = (Inr ns :: go_error + u32 list, a\<lparr>a_store := st, a_olap := s\<rparr>)"
      unfolding run [symmetric] codesForRequest_def Let_def if_not_P [OF False] using ns by (simp add: userCodes_def q ls Let_def)
    then have c: "codes = ns" "a_olap a1 = s" by simp_all
    from ListByUser_top [OF pg srt q [unfolded ls]] obtain every where "ls = take (nat 500) every" by blast
    then have "length ls \<le> 500" by simp
    then have "Size (o_dict (a_olap a)) + length (map l_Code ls) \<le> 4294967296" using room by simp
    note k0 = code_ids_ok [OF d this ns]
    then have k: "dict_ok (o_dict s)" "length ns = length ls" "list_all2 (\<lambda>c i. Lookup (o_dict s) c = Some i) (map l_Code ls) ns"
      "s = a_olap a\<lparr>o_dict := o_dict s\<rparr>" by simp_all
    have "owns tabs (a_store a) (u_ID u) (Val (o_dict s) i)" if "i \<in> set ns" for i
    proof -
      from that obtain n where n: "n < length ns" "i = ns ! n" by (auto simp: in_set_conv_nth)
      have "Lookup (o_dict s) (l_Code (ls ! n)) = Some i" "n < length ls"
        using list_all2_nthD [OF k(3), of n] k(2) n by simp_all
      then have "Val (o_dict s) i = l_Code (ls ! n)" "ls ! n \<in> set ls" using k(1) Lookup_Val nth_mem by blast+
      then show ?thesis using ListByUser_owned [OF pg srt q [unfolded ls], of "ls ! n"] by simp
    qed
    then show ?thesis unfolding c using k by blast
  qed
  then show "\<forall>i\<in>set codes. owns tabs (a_store a) (u_ID u) (Val (o_dict (a_olap a1)) i)"
    "a_olap a1 = a_olap a\<lparr>o_dict := o_dict (a_olap a1)\<rparr>" by blast+
qed

lemma olap_ok_dict: "olap_ok mcut (s\<lparr>o_dict := d\<rparr>) = olap_ok mcut s" "store_rows (s\<lparr>o_dict := d\<rparr>) = store_rows s"
  by (simp_all add: olap_ok_def parts_ok_def mvs_ok_def mv_exact_def store_rows_def row_count_def view_def)


section \<open>Properties\<close>

text \<open>C9: analytics show a caller only the caller's own traffic.  Every identifier that a query is made
  for stands for the code of a link the caller owns, whichever code or listing the request
  names, and whoever is not an admin sees in the live stream only clicks on the own links.\<close>

theorem analytics_own_links:
  assumes "pg_ok (x_pg X) tabs" "sorts_newest (x_sort X)" "dict_ok (o_dict (a_olap a))"
    and "Size (o_dict (a_olap a)) + 500 \<le> 4294967296" "codesForRequest X u r a = (Inr codes, a1)"
  shows "(\<forall>i\<in>set codes. owns tabs (a_store a) (u_ID u) (Val (o_dict (a_olap a1)) i))
    \<and> (u_Role u \<noteq> ''admin'' \<longrightarrow>
        (\<exists>evs st. handleStream u r a = (writeJSON 200 (A_stream evs st), a) \<and> (\<forall>e\<in>set evs. ev_UserID e = u_ID u)))"
  using codesForRequest_owned(1) [OF assms] by (auto simp: handleStream_def Let_def dest: Recent_kept)

lemma demo_codesForRequest:
  obtains codes a1 i where "codesForRequest demo_ext \<lparr>u_ID = 7, u_Email = [], u_Name = [], u_Role = ''user'', u_CreatedAt = 0\<rparr>
       (demo_request\<lparr>rq_param := ''docs1''\<rparr>) demo_app = (Inr codes, a1)" "codes = [i]"
proof -
  have t0: "shardTable 0 = ''links_s0''" by code_simp
  have rows: "mget [] (fst demo_db) ''links_s0'' = [demo_link\<lparr>l_Code := ''docs1''\<rparr>]" by (simp add: demo_db_def mget_def)
  have "GetByCode (x_pg demo_ext) ''docs1'' (a_store demo_app) = (Inr (scanLink 0 (demo_link\<lparr>l_Code := ''docs1''\<rparr>)), a_store demo_app)"
    by (simp add: GetByCode_def run_sql_def demo_ext_def t0 link_row_def scan_first_def demo_exec rows)
  moreover have "l_UserID demo_link = 7" by (simp add: demo_link_def)
  ultimately show thesis using that
    by (cases "CodeID ''docs1'' (a_olap demo_app)") (simp add: codesForRequest_def ownedLink_def scanLink_def Let_def)
qed

lemma demo_analytics:
  "dict_ok (o_dict (a_olap demo_app))" "Size (o_dict (a_olap demo_app)) + 500 \<le> 4294967296"
  "sorts_newest (x_sort demo_ext)" "pg_ok (x_pg demo_ext) mem_tables" "a_olap demo_app = NewOLAP 30"
proof -
  have d: "o_dict (a_olap demo_app) = NewDict" by (simp add: demo_app_def newApp_def NewOLAP_def)
  show "dict_ok (o_dict (a_olap demo_app))" "Size (o_dict (a_olap demo_app)) + 500 \<le> 4294967296"
    unfolding d by (rule dict_ok_New) (simp add: Size_def NewDict_def)
  show "sorts_newest (x_sort demo_ext)"
    by (simp add: sorts_newest_def newest_first_def mset_insert_desc sorted_insert_desc demo_ext_def)
  show "pg_ok (x_pg demo_ext) mem_tables" using demo_world by (simp add: world_ok_def)
  have "envInt demo_env ''ANALYTICS_RETENTION_DAYS'' 30 = 30" by code_simp
  then show "a_olap demo_app = NewOLAP 30" by (simp add: demo_app_def newApp_def loadConfig_def Let_def)
qed

theorem analytics_own_links_witness:
  "\<exists>codes a1. codesForRequest demo_ext \<lparr>u_ID = 7, u_Email = [], u_Name = [], u_Role = ''user'', u_CreatedAt = 0\<rparr>
       (demo_request\<lparr>rq_param := ''docs1''\<rparr>) demo_app = (Inr codes, a1) \<and> codes \<noteq> []
     \<and> (\<forall>i\<in>set codes. owns mem_tables (a_store demo_app) 7 (Val (o_dict (a_olap a1)) i))"
proof -
  obtain codes a1 i where run: "codesForRequest demo_ext \<lparr>u_ID = 7, u_Email = [], u_Name = [], u_Role = ''user'', u_CreatedAt = 0\<rparr>
       (demo_request\<lparr>rq_param := ''docs1''\<rparr>) demo_app = (Inr codes, a1)" "codes = [i]" by (rule demo_codesForRequest)
  from analytics_own_links [OF demo_analytics(4,3,1,2) run(1)] run show ?thesis by auto
qed




end
