(* ===== verification/Auth_Spec.thy ===== *)
theory Auth_Spec
  imports Auth
begin

text \<open>
  What the session handlers rely on of Redis: a key set with a lifetime is kept until its
  deadline on the server's clock.  Under this contract a refresh token is accepted once within
  its lifetime, a logged-out token is refused, and a locked account is not probed.
\<close>

section \<open>Deadlines\<close>

text \<open>
  \<open>clk\<close> is the server's clock in milliseconds and \<open>due\<close> the deadline of a key.  \<open>keeps\<close> says that a
  key with a deadline still ahead is untouched.
\<close>

definition keeps :: "('r \<Rightarrow> int) \<Rightarrow> ('r \<Rightarrow> string \<Rightarrow> int option) \<Rightarrow> 'r \<Rightarrow> 'r \<Rightarrow> string \<Rightarrow> bool" where
  "keeps clk due s s' k \<longleftrightarrow> clk s \<le> clk s' \<and> (\<forall>d. due s k = Some d \<and> clk s' < d \<longrightarrow> due s' k = Some d)"

definition redis_clocked :: "'r redis \<Rightarrow> ('r \<Rightarrow> int) \<Rightarrow> ('r \<Rightarrow> string \<Rightarrow> int option) \<Rightarrow> bool" where
  "redis_clocked R clk due \<longleftrightarrow>
     (\<forall>k k' s. keeps clk due s (snd (r_get R k s)) k')
   \<and> (\<forall>k k' s. keeps clk due s (snd (r_exists R k s)) k')
   \<and> (\<forall>k v t k' s. k' \<noteq> k \<longrightarrow> keeps clk due s (snd (r_set R k v t s)) k')
   \<and> (\<forall>k k' s. k' \<noteq> k \<longrightarrow> keeps clk due s (r_del R k s) k')
   \<and> (\<forall>k w k' s. k' \<noteq> k \<longrightarrow> keeps clk due s (snd (r_script R (incrWindow R k w) s)) k')
   \<and> (\<forall>k v t k' s. k' \<noteq> k \<or> fst (r_setnx R k v t s) \<noteq> Reply True \<longrightarrow> keeps clk due s (snd (r_setnx R k v t s)) k')
   \<and> (\<forall>k v t s. fst (r_setnx R k v t s) = Reply True \<longrightarrow>
        clk s \<le> clk (snd (r_setnx R k v t s))
        \<and> (\<forall>d. due s k = Some d \<longrightarrow> d \<le> clk (snd (r_setnx R k v t s)))
        \<and> (\<exists>d. due (snd (r_setnx R k v t s)) k = Some d \<and> clk s + t \<le> d))
   \<and> (\<forall>k v t s. fst (r_setnx R k v t s) = Reply False \<longrightarrow> (\<exists>d. due s k = Some d))
   \<and> (\<forall>k s n d. fst (r_exists R k s) = Reply n \<and> n \<le> 0 \<and> due s k = Some d \<longrightarrow> d \<le> clk (snd (r_exists R k s)))"

text \<open>The commands that the service sends, in any order.  Revocations are only ever set.\<close>

inductive redis_run :: "'r redis \<Rightarrow> 'r \<Rightarrow> 'r \<Rightarrow> bool" for R where
  rr_refl: "redis_run R s s"
| rr_get: "redis_run R s s' \<Longrightarrow> redis_run R s (snd (r_get R k s'))"
| rr_exists: "redis_run R s s' \<Longrightarrow> redis_run R s (snd (r_exists R k s'))"
| rr_set: "redis_run R s s' \<Longrightarrow> redis_run R s (snd (r_set R (linkKey c) v t s'))"
| rr_del: "redis_run R s s' \<Longrightarrow> redis_run R s (r_del R (p @ k) s') " if "p \<in> {keyLink, keyFailedLogin}"
| rr_script: "redis_run R s s' \<Longrightarrow> redis_run R s (snd (r_script R (incrWindow R (p @ k) w) s'))"
    if "p \<in> {keyRateLimit, keyFailedLogin}"
| rr_setnx: "redis_run R s s' \<Longrightarrow> redis_run R s (snd (r_setnx R (keyRevoked @ jti) v t s'))"

lemma keeps_trans: "keeps clk due s s' k \<Longrightarrow> keeps clk due s' s'' k \<Longrightarrow> keeps clk due s s'' k"
  by (auto simp: keeps_def)

lemma revoked_key_apart:
  "keyRevoked @ j \<noteq> linkKey c" "keyRevoked @ j \<noteq> keyLink @ c" "keyRevoked @ j \<noteq> keyFailedLogin @ c" "keyRevoked @ j \<noteq> keyRateLimit @ c"
  by (simp_all add: keyRevoked_def linkKey_def keyLink_def keyFailedLogin_def keyRateLimit_def)

text \<open>While its deadline is ahead a revocation survives every command; setting it again only
  happens once it is past.\<close>

definition revoked_until :: "('r \<Rightarrow> int) \<Rightarrow> ('r \<Rightarrow> string \<Rightarrow> int option) \<Rightarrow> string \<Rightarrow> int \<Rightarrow> 'r \<Rightarrow> bool" where
  "revoked_until clk due jti e s \<longleftrightarrow> clk s < e \<longrightarrow> (\<exists>d. due s (keyRevoked @ jti) = Some d \<and> e \<le> d)"

lemma revoked_until_keeps:
  assumes "keeps clk due s s' (keyRevoked @ jti)" "revoked_until clk due jti e s"
  shows "revoked_until clk due jti e s'"
  using assms unfolding keeps_def revoked_until_def by (metis le_less_trans less_le_trans)

lemma clocked_commands:
  assumes "redis_clocked R clk due"
  shows "keeps clk due s (snd (r_get R k s)) k'" "keeps clk due s (snd (r_exists R k s)) k'"
    and "k' \<noteq> k \<Longrightarrow> keeps clk due s (snd (r_set R k v t s)) k'"
    and "k' \<noteq> k \<Longrightarrow> keeps clk due s (r_del R k s) k'"
    and "k' \<noteq> k \<Longrightarrow> keeps clk due s (snd (r_script R (incrWindow R k w) s)) k'"
    and "k' \<noteq> k \<or> fst (r_setnx R k v t s) \<noteq> Reply True \<Longrightarrow> keeps clk due s (snd (r_setnx R k v t s)) k'"
  using assms by (simp_all add: redis_clocked_def)

lemma clocked_setnx:
  assumes "redis_clocked R clk due" "fst (r_setnx R k v t s) = Reply True"
  shows "clk s \<le> clk (snd (r_setnx R k v t s))"
    and "due s k = Some d \<Longrightarrow> d \<le> clk (snd (r_setnx R k v t s))"
    and "\<exists>d. due (snd (r_setnx R k v t s)) k = Some d \<and> clk s + t \<le> d"
  using assms unfolding redis_clocked_def by blast+

text \<open>One command keeps a revocation, unless it sets it anew after its deadline.\<close>

lemma setnx_revoked:
  assumes R: "redis_clocked R clk due" and u: "revoked_until clk due jti e s"
  shows "clk s \<le> clk (snd (r_setnx R (keyRevoked @ j) v t s)) \<and> revoked_until clk due jti e (snd (r_setnx R (keyRevoked @ j) v t s))"
proof (cases "j \<noteq> jti \<or> fst (r_setnx R (keyRevoked @ j) v t s) \<noteq> Reply True")
  case True
  then have "keeps clk due s (snd (r_setnx R (keyRevoked @ j) v t s)) (keyRevoked @ jti)"
    by (intro clocked_commands(6) [OF R]) auto
  then show ?thesis using revoked_until_keeps [OF _ u] by (simp add: keeps_def)
next
  case False
  then have f: "fst (r_setnx R (keyRevoked @ jti) v t s) = Reply True" "j = jti" by simp_all
  note c = clocked_setnx [OF R f(1)]
  show ?thesis using c(1,2) u unfolding f(2) revoked_until_def by fastforce
qed

lemma keeps_step:
  assumes "clk s \<le> clk s' \<and> revoked_until clk due jti e s'" "keeps clk due s' s'' (keyRevoked @ jti)"
  shows "clk s \<le> clk s'' \<and> revoked_until clk due jti e s''"
  using assms revoked_until_keeps [OF assms(2)] by (simp add: keeps_def)

lemma redis_run_revoked:
  assumes R: "redis_clocked R clk due"
  shows "redis_run R s s' \<Longrightarrow> revoked_until clk due jti e s \<Longrightarrow> clk s \<le> clk s' \<and> revoked_until clk due jti e s'"
proof (induction rule: redis_run.induct)
  case (rr_refl s)
  then show ?case by simp
next
  case (rr_get s s' k)
  show ?case by (rule keeps_step [OF rr_get.IH [OF rr_get.prems] clocked_commands(1) [OF R]])
next
  case (rr_exists s s' k)
  show ?case by (rule keeps_step [OF rr_exists.IH [OF rr_exists.prems] clocked_commands(2) [OF R]])
next
  case (rr_set s s' c v t)
  show ?case by (rule keeps_step [OF rr_set.IH [OF rr_set.prems] clocked_commands(3) [OF R revoked_key_apart(1)]])
next
  case (rr_del p s s' k)
  then have "keyRevoked @ jti \<noteq> p @ k" using revoked_key_apart by auto
  then show ?case by (rule keeps_step [OF rr_del.IH [OF rr_del.prems] clocked_commands(4) [OF R]])
next
  case (rr_script p s s' k w)
  then have "keyRevoked @ jti \<noteq> p @ k" using revoked_key_apart by auto
  then show ?case by (rule keeps_step [OF rr_script.IH [OF rr_script.prems] clocked_commands(5) [OF R]])
next
  case (rr_setnx s s' j v t)
  then show ?case using setnx_revoked [OF R, of jti e s' j v t] by auto
qed


section \<open>The handlers as sequences of commands\<close>

lemma Revoke_parts:
  "fst (Revoke R jti t c) = fst (r_setnx R (keyRevoked @ jti) ''1'' (if t \<le> 0 then 1000 else t) (rdb c))"
  "rdb (snd (Revoke R jti t c)) = snd (r_setnx R (keyRevoked @ jti) ''1'' (if t \<le> 0 then 1000 else t) (rdb c))"
  by (simp_all add: Revoke_def Let_def split: prod.split)

lemma cache_runs:
  assumes "redis_run R s (rdb c)"
  shows "redis_run R s (rdb (snd (Cache.Get R J code c)))" "redis_run R s (rdb (Cache.Set R J l c))" "redis_run R s (rdb (Del R code c))"
    and "redis_run R s (rdb (snd (RateLimit R bucket lim w c)))" "redis_run R s (rdb (snd (FailedLogins R i c)))"
    and "redis_run R s (rdb (snd (BumpFailedLogin R i c)))" "redis_run R s (rdb (ClearFailedLogin R i c))"
    and "redis_run R s (rdb (snd (Revoke R jti t c)))" "redis_run R s (rdb (snd (IsRevoked R jti c)))"
proof -
  have 1: "rdb (snd (Cache.Get R J code c)) = snd (r_get R (linkKey code) (rdb c))"
    by (auto simp: Cache.Get_def Let_def split: prod.splits reply.splits option.splits)
  have 2: "rdb (Cache.Set R J l c) = snd (r_set R (linkKey (l_Code l)) (marshal_link J (toCached l)) (ttl c) (rdb c))"
    by (auto simp: Cache.Set_def Let_def split: prod.splits)
  have 3: "rdb (Del R code c) = r_del R (keyLink @ code) (rdb c)" by (simp add: Del_def linkKey_def)
  have inc: "rdb (snd (Cache.incr R k w c)) = snd (r_script R (incrWindow R k w) (rdb c))" for k w
    by (auto simp: Cache.incr_def Let_def split: prod.splits reply.splits list.splits)
  have 4: "rdb (snd (RateLimit R bucket lim w c)) = snd (r_script R (incrWindow R (keyRateLimit @ bucket) w) (rdb c))"
    unfolding inc [symmetric] by (auto simp: RateLimit_def Let_def split: prod.splits reply.splits)
  have 5: "rdb (snd (FailedLogins R i c)) = snd (r_get R (keyFailedLogin @ i) (rdb c))"
    by (auto simp: FailedLogins_def Let_def split: prod.splits reply.splits option.splits)
  have 6: "rdb (snd (BumpFailedLogin R i c)) = snd (r_script R (incrWindow R (keyFailedLogin @ i) loginLockout) (rdb c))"
    unfolding inc [symmetric] by (auto simp: BumpFailedLogin_def Let_def split: prod.splits reply.splits)
  have 7: "rdb (ClearFailedLogin R i c) = r_del R (keyFailedLogin @ i) (rdb c)" by (simp add: ClearFailedLogin_def)
  have 9: "rdb (snd (IsRevoked R jti c)) = snd (r_exists R (keyRevoked @ jti) (rdb c))"
    by (auto simp: IsRevoked_def Let_def split: prod.splits)
  show "redis_run R s (rdb (snd (Cache.Get R J code c)))" unfolding 1 by (rule rr_get [OF assms])
  show "redis_run R s (rdb (Cache.Set R J l c))" unfolding 2 by (rule rr_set [OF assms])
  show "redis_run R s (rdb (Del R code c))" unfolding 3 by (rule rr_del [OF _ assms]) simp
  show "redis_run R s (rdb (snd (RateLimit R bucket lim w c)))" unfolding 4 by (rule rr_script [OF _ assms]) simp
  show "redis_run R s (rdb (snd (FailedLogins R i c)))" unfolding 5 by (rule rr_get [OF assms])
  show "redis_run R s (rdb (snd (BumpFailedLogin R i c)))" unfolding 6 by (rule rr_script [OF _ assms]) simp
  show "redis_run R s (rdb (ClearFailedLogin R i c))" unfolding 7 by (rule rr_del [OF _ assms]) simp
  show "redis_run R s (rdb (snd (Revoke R jti t c)))" unfolding Revoke_parts by (rule rr_setnx [OF assms])
  show "redis_run R s (rdb (snd (IsRevoked R jti c)))" unfolding 9 by (rule rr_exists [OF assms])
qed

lemma redis_run_trans: "redis_run R s' s'' \<Longrightarrow> redis_run R s s' \<Longrightarrow> redis_run R s s''"
  by (induction rule: redis_run.induct) (auto intro: redis_run.intros)

abbreviation runs :: "('r, 'db, 'u, 'a, 'p, 'i) ext \<Rightarrow> ('r, 'db, 'p) app \<Rightarrow> ('r, 'db, 'p) app \<Rightarrow> bool" where
  "runs X a a' \<equiv> redis_run (x_redis X) (rdb (a_cache a)) (rdb (a_cache a'))"

lemmas run_here = cache_runs [OF rr_refl]

lemma authRateLimited_runs: "runs X a (snd (authRateLimited X r act a))"
proof -
  let ?rl = "RateLimit (x_redis X) (act @ '':'' @ clientIP (x_netip X) (cfg_TrustedProxies (a_cfg a)) r) authPerMinute 60000 (a_cache a)"
  obtain v c where v: "?rl = (v, c)" by (cases ?rl)
  have "redis_run (x_redis X) (rdb (a_cache a)) (rdb (snd ?rl))" by (rule run_here)
  then show ?thesis unfolding authRateLimited_def v by (simp split: prod.split)
qed

lemma createUser_cache: "createUser X A em pw nm ro sa cl now a = Some (u, a') \<Longrightarrow> a_cache a' = a_cache a"
  by (auto simp: createUser_def Let_def split: sum.splits option.splits prod.splits)

lemma handleRegister_runs: "handleRegister X A d body r a = Some (w, a') \<Longrightarrow> runs X a a'"
  using authRateLimited_runs [of X a r "''register''"]
  by (auto simp: handleRegister_def Let_def emit_def split: prod.splits option.splits sum.splits if_splits
      dest!: createUser_cache)

lemma revoke_token_runs: "runs X a (revoke_token X A n m tok kind a)"
  using run_here(8) [where R = "x_redis X" and c = "a_cache a"] by (simp add: revoke_token_def rr_refl split: sum.split)

lemma handleLogout_runs: "runs X a (snd (handleLogout X A n m r a))"
proof -
  define a1 where "a1 = (case map_of (rq_cookies r) refreshCookie of
      None \<Rightarrow> a | Some v \<Rightarrow> revoke_token X A (fst n) (snd n) v kindRefresh a)"
  have 1: "runs X a a1" by (simp add: a1_def revoke_token_runs rr_refl split: option.split)
  show ?thesis using redis_run_trans [OF revoke_token_runs 1] 1
    by (simp add: handleLogout_def Let_def a1_def [symmetric])
qed

lemma handleRefresh_runs: "runs X a (snd (handleRefresh X A d n m r a))"
proof -
  have "redis_run (x_redis X) (rdb (a_cache a)) (rdb c)" if "Revoke (x_redis X) jti t (a_cache a) = (v, c)" for jti t v c
    using run_here(8) [where R = "x_redis X" and c = "a_cache a" and jti = jti and t = t] that by simp
  then show ?thesis
    by (auto simp: handleRefresh_def emit_def Let_def rr_refl split: option.splits sum.splits prod.splits reply.splits bool.splits)
qed

lemma userFromRequest_runs: "runs X a (snd (userFromRequest X A now r a))"
proof -
  have "redis_run (x_redis X) (rdb (a_cache a)) (rdb c)" if "IsRevoked (x_redis X) jti (a_cache a) = (v, c)" for jti v c
    using run_here(9) [where R = "x_redis X" and c = "a_cache a" and jti = jti] that by simp
  then show ?thesis
    by (auto simp: userFromRequest_def Let_def rr_refl split: option.splits sum.splits prod.splits)
qed


lemma handleDemoLogin_runs: "runs X a (snd (handleDemoLogin X A d r a))"
  using authRateLimited_runs [of X a r "''demo''"]
  by (auto simp: handleDemoLogin_def Let_def emit_def rr_refl split: prod.splits option.splits sum.splits)

lemma handleLogin_runs: "runs X a (snd (handleLogin X A d dummy body r a))"
proof -
  obtain rl a1 where rl: "authRateLimited X r ''login'' a = (rl, a1)" by (cases "authRateLimited X r ''login'' a")
  have 1: "runs X a a1" using authRateLimited_runs [of X a r "''login''"] rl by simp
  have fl: "redis_run (x_redis X) (rdb (a_cache a)) (rdb c)" if "FailedLogins (x_redis X) k (a_cache a1) = (n, c)" for k n c
    using cache_runs(5) [OF 1, of k] that by simp
  note more = cache_runs(6,7) [OF fl]
  show ?thesis using 1 fl more
    by (auto simp: handleLogin_def rl emit_def Let_def split: prod.splits option.splits sum.splits go_error.splits)
qed

section \<open>Single use\<close>

definition accepted :: "auth_reply \<Rightarrow> bool" where
  "accepted w \<longleftrightarrow> (case rs_body (fst w) of JSON (J_session _) \<Rightarrow> True | _ \<Rightarrow> False)"

lemma not_accepted [simp]: "\<not> accepted (writeErr s m, cks)"
  by (simp add: accepted_def writeErr_def write_body_def)

lemma handleRefresh_accepted:
  assumes "handleRefresh X A d now1 now2 r a = (w, a')" "accepted w"
  obtains v c where "map_of (rq_cookies r) refreshCookie = Some v" "parseToken A (a_cfg a) now1 v kindRefresh = Inr c"
    and "fst (Revoke (x_redis X) (cl_ID c) (redis_ms (timeLeft now2 c)) (a_cache a)) = Reply True"
    and "a_cache a' = snd (Revoke (x_redis X) (cl_ID c) (redis_ms (timeLeft now2 c)) (a_cache a))"
proof -
  from assms obtain v where v: "map_of (rq_cookies r) refreshCookie = Some v"
    by (cases "map_of (rq_cookies r) refreshCookie") (auto simp: handleRefresh_def)
  from assms v obtain c where c: "parseToken A (a_cfg a) now1 v kindRefresh = Inr c"
    by (cases "parseToken A (a_cfg a) now1 v kindRefresh") (auto simp: handleRefresh_def)
  let ?rv = "Revoke (x_redis X) (cl_ID c) (redis_ms (timeLeft now2 c)) (a_cache a)"
  obtain first ca where rv: "?rv = (first, ca)" by (cases ?rv)
  let ?u = "GetUserByID (x_pg X) (fst (atoi64 (cl_Subject c))) (a_store a)"
  obtain u st where u: "?u = (u, st)" by (cases ?u)
  note h = assms(1) [unfolded handleRefresh_def v option.case c sum.case rv Let_def case_prod_conv]
  have f: "first = Reply True" using h assms(2) by (cases first) (auto split: bool.splits)
  have "a_cache a' = ca" using h assms(2) unfolding f by (cases u) (auto simp: u emit_def)
  then show thesis using that v c rv f by simp
qed

lemma Revoke_first_use:
  assumes R: "redis_clocked R clk due" and f: "fst (Revoke R jti t c) = Reply True"
  shows "revoked_until clk due jti (clk (rdb c) + t) (rdb (snd (Revoke R jti t c)))"
    and "due (rdb c) (keyRevoked @ jti) = Some d \<Longrightarrow> d \<le> clk (rdb (snd (Revoke R jti t c)))"
proof -
  note s = clocked_setnx [OF R f [unfolded Revoke_parts]]
  have "clk (rdb c) + t \<le> clk (rdb c) + (if t \<le> 0 then 1000 else t)" by simp
  then show "revoked_until clk due jti (clk (rdb c) + t) (rdb (snd (Revoke R jti t c)))"
    using s(3) unfolding revoked_until_def Revoke_parts by force
  show "d \<le> clk (rdb (snd (Revoke R jti t c)))" if "due (rdb c) (keyRevoked @ jti) = Some d"
    unfolding Revoke_parts by (rule s(2) [OF that])
qed

lemma no_second_use:
  assumes R: "redis_clocked R clk due" and 1: "fst (Revoke R jti t c) = Reply True"
    and run: "redis_run R (rdb (snd (Revoke R jti t c))) (rdb c')" and 2: "fst (Revoke R jti t' c') = Reply True"
  shows "clk (rdb c) + t \<le> clk (rdb (snd (Revoke R jti t' c')))"
proof -
  let ?e = "clk (rdb c) + t"
  have u: "revoked_until clk due jti ?e (rdb c')"
    using redis_run_revoked [OF R run Revoke_first_use(1) [OF R 1]] by simp
  have le: "clk (rdb c') \<le> clk (rdb (snd (Revoke R jti t' c')))"
    using clocked_setnx(1) [OF R 2 [unfolded Revoke_parts]] by (simp add: Revoke_parts)
  show ?thesis
  proof (cases "clk (rdb c') < ?e")
    case True
    then obtain d where "due (rdb c') (keyRevoked @ jti) = Some d" "?e \<le> d" using u by (auto simp: revoked_until_def)
    then show ?thesis using Revoke_first_use(2) [OF R 2] by force
  qed (use le in simp)
qed


section \<open>Logging out\<close>

lemma exists_revoked:
  assumes R: "redis_clocked R clk due" and u: "revoked_until clk due jti e (rdb c)"
    and i: "IsRevoked R jti c = (False, c')" and n: "fst (r_exists R (keyRevoked @ jti) (rdb c)) = Reply n"
  shows "e \<le> clk (rdb c')"
proof -
  have c': "rdb c' = snd (r_exists R (keyRevoked @ jti) (rdb c))" and le: "n \<le> 0"
    using i n by (auto simp: IsRevoked_def Let_def split: prod.splits)
  have up: "clk (rdb c) \<le> clk (rdb c')" using clocked_commands(2) [OF R] by (simp add: c' keeps_def)
  show ?thesis
  proof (cases "clk (rdb c) < e")
    case True
    then obtain d where "due (rdb c) (keyRevoked @ jti) = Some d" "e \<le> d" using u by (auto simp: revoked_until_def)
    moreover have "\<forall>d. due (rdb c) (keyRevoked @ jti) = Some d \<longrightarrow> d \<le> clk (rdb c')"
      using R n le unfolding c' redis_clocked_def by blast
    ultimately show ?thesis by force
  qed (use up in simp)
qed

lemma userFromRequest_accepted:
  assumes "userFromRequest X A now r b = (Inr u, b')"
  obtains c ca where "bearer (x_fold X) r \<noteq> []" "parseToken A (a_cfg b) now (bearer (x_fold X) r) kindAccess = Inr c"
    and "IsRevoked (x_redis X) (cl_ID c) (a_cache b) = (False, ca)" "a_cache b' = ca"
    and "\<exists>i. atoi64 (cl_Subject c) = (i, None) \<and> fst (GetUserByID (x_pg X) i (a_store b)) = Inr u"
  using assms by (auto simp: userFromRequest_def Let_def split: if_splits sum.splits prod.splits option.splits)

section \<open>Failed logins\<close>

definition counter :: "string option \<Rightarrow> int option" where
  "counter v = (case v of None \<Rightarrow> Some 0 | Some t \<Rightarrow> (case ParseInt t of (n, None) \<Rightarrow> Some n | _ \<Rightarrow> None))"

text \<open>\<^verbatim>\<open>INCR\<close> adds one to a number that has room.\<close>

definition redis_counts :: "'r redis \<Rightarrow> ('r \<Rightarrow> string \<rightharpoonup> string) \<Rightarrow> bool" where
  "redis_counts R live \<longleftrightarrow>
     (\<forall>k w s n. counter (live s k) = Some n \<and> \<bar>n\<bar> < 2 ^ 62 \<longrightarrow>
        counter (live (snd (r_script R (incrWindow R k w) s)) k) = Some (n + 1))"

definition lock_key :: "('r, 'db, 'u, 'a, 'p, 'i) ext \<Rightarrow> 'p config \<Rightarrow> request \<Rightarrow> string \<Rightarrow> string" where
  "lock_key X cfg r email =
     keyFailedLogin @ clientIP (x_netip X) (cfg_TrustedProxies cfg) r @ '':'' @ normEmail (x_lower X) email"

lemma rate_limit_keeps_lock:
  assumes "redis_serves (x_redis X) live" "authRateLimited X r act a = (rl, a1)"
  shows "live (rdb (a_cache a1)) (keyFailedLogin @ k) = live (rdb (a_cache a)) (keyFailedLogin @ k)" "a_cfg a1 = a_cfg a"
    and "a_store a1 = a_store a" "rl = Some w \<Longrightarrow> rs_status (fst w) = 429"
proof -
  let ?b = "act @ '':'' @ clientIP (x_netip X) (cfg_TrustedProxies (a_cfg a)) r"
  let ?rl = "RateLimit (x_redis X) ?b authPerMinute 60000 (a_cache a)"
  obtain ok re reset c where v: "?rl = ((ok, re, reset), c)" by (cases ?rl) auto
  let ?s = "r_script (x_redis X) (incrWindow (x_redis X) (keyRateLimit @ ?b) 60000) (rdb (a_cache a))"
  have "rdb (snd ?rl) = snd ?s"
    by (auto simp: RateLimit_def Cache.incr_def Let_def split: prod.splits reply.splits list.splits)
  moreover have "live (snd ?s) (keyFailedLogin @ k) = live (rdb (a_cache a)) (keyFailedLogin @ k)"
    using assms(1) unfolding redis_serves_def by (simp add: keyRateLimit_def keyFailedLogin_def)
  ultimately have "live (rdb c) (keyFailedLogin @ k) = live (rdb (a_cache a)) (keyFailedLogin @ k)" unfolding v by simp
  then show "live (rdb (a_cache a1)) (keyFailedLogin @ k) = live (rdb (a_cache a)) (keyFailedLogin @ k)" "a_cfg a1 = a_cfg a"
    "a_store a1 = a_store a" "rl = Some w \<Longrightarrow> rs_status (fst w) = 429"
    using assms(2) unfolding authRateLimited_def v by (auto split: if_splits)
qed

lemma FailedLogins_counter:
  assumes "redis_serves R live" "counter (live (rdb c) (keyFailedLogin @ i)) = Some n"
  shows "fst (FailedLogins R i c) = n" "live (rdb (snd (FailedLogins R i c))) = live (rdb c)"
proof -
  let ?g = "r_get R (keyFailedLogin @ i) (rdb c)"
  have g: "fst ?g = (case live (rdb c) (keyFailedLogin @ i) of None \<Rightarrow> Reply_nil | Some v \<Rightarrow> Reply v)" "live (snd ?g) = live (rdb c)"
    using assms(1) unfolding redis_serves_def by blast+
  show "fst (FailedLogins R i c) = n" "live (rdb (snd (FailedLogins R i c))) = live (rdb c)"
    using g assms(2) by (auto simp: FailedLogins_def counter_def Let_def split: prod.splits option.splits)
qed


lemma emit_simps: "rs_status (fst (fst (emit A d u a))) \<noteq> 401" "snd (emit A d u a) = a"
  by (simp_all add: emit_def emitAuth_def split: sum.split)

lemma BumpFailedLogin_counter:
  assumes "redis_counts R live" "counter (live (rdb c) (keyFailedLogin @ i)) = Some n" "\<bar>n\<bar> < 2 ^ 62"
  shows "counter (live (rdb (snd (BumpFailedLogin R i c))) (keyFailedLogin @ i)) = Some (n + 1)"
proof -
  have "rdb (snd (BumpFailedLogin R i c)) = snd (r_script R (incrWindow R (keyFailedLogin @ i) loginLockout) (rdb c))"
    by (auto simp: BumpFailedLogin_def Cache.incr_def Let_def split: prod.splits reply.splits list.splits)
  then show ?thesis using assms unfolding redis_counts_def by simp
qed

lemma login_step:
  assumes R: "redis_serves (x_redis X) live" and C: "redis_counts (x_redis X) live"
    and k: "k = lock_key X (a_cfg a) r (cr_Email req)" and n: "counter (live (rdb (a_cache a)) k) = Some n" "\<bar>n\<bar> < 2 ^ 62"
    and run: "handleLogin X A d dummy (Some req) r a = (w, a')"
  shows "a_cfg a' = a_cfg a"
    and "n \<ge> maxFailedLogins \<Longrightarrow> rs_status (fst w) = 429 \<and> a_store a' = a_store a"
    and "rs_status (fst w) = 401 \<Longrightarrow> counter (live (rdb (a_cache a')) k) = Some (n + 1)"
proof -
  obtain rl a1 where rl: "authRateLimited X r ''login'' a = (rl, a1)" by (cases "authRateLimited X r ''login'' a")
  note l = rate_limit_keeps_lock [OF R rl]
  define em where "em = normEmail (x_lower X) (cr_Email req)"
  define i where "i = clientIP (x_netip X) (cfg_TrustedProxies (a_cfg a)) r @ '':'' @ em"
  have ki: "k = keyFailedLogin @ i" by (simp add: k lock_key_def i_def em_def)
  have n1: "counter (live (rdb (a_cache a1)) (keyFailedLogin @ i)) = Some n" using n(1) l(1) ki by simp
  obtain f c where f: "FailedLogins (x_redis X) i (a_cache a1) = (f, c)" by (cases "FailedLogins (x_redis X) i (a_cache a1)")
  have fn: "f = n" "live (rdb c) = live (rdb (a_cache a1))" using FailedLogins_counter [OF R n1] f by simp_all
  obtain u st where u: "GetUserByEmail (x_pg X) (x_lower X) em (a_store a1) = (u, st)"
    by (cases "GetUserByEmail (x_pg X) (x_lower X) em (a_store a1)")
  have bump: "counter (live (rdb (snd (BumpFailedLogin (x_redis X) i c))) (keyFailedLogin @ i)) = Some (n + 1)"
    by (rule BumpFailedLogin_counter [OF C _ n(2)]) (simp add: fn(2) n1)
  have "a_cfg a' = a_cfg a \<and> (n \<ge> maxFailedLogins \<longrightarrow> rs_status (fst w) = 429 \<and> a_store a' = a_store a)
      \<and> (rs_status (fst w) = 401 \<longrightarrow> counter (live (rdb (a_cache a')) k) = Some (n + 1))"
  proof (cases rl)
    case (Some v)
    then show ?thesis using run l(2,3) l(4) [OF Some] by (simp add: handleLogin_def rl)
  next
    case None
    note h = run [unfolded handleLogin_def rl None prod.case option.case Let_def em_def [symmetric] l(2) i_def [symmetric] f, simplified]
    show ?thesis
    proof (cases "maxFailedLogins \<le> n")
      case True
      then show ?thesis using h l(2,3) fn by auto
    next
      case False
      note h = h [unfolded fn(1), simplified False, simplified u, simplified]
      show ?thesis
      proof (cases u)
        case (Inl e)
        then show ?thesis using h u l(2) bump ki False by (cases e) (auto simp: internalErr_def)
      next
        case (Inr uh)
        obtain us hash where uh: "uh = (us, hash)" by (cases uh)
        show ?thesis using h u l(2) bump ki False emit_simps [of A d us]
          by (cases "verifyPassword A (cr_Password req) hash") (auto simp: Inr uh emit_def)
      qed
    qed
  qed
  then show "a_cfg a' = a_cfg a" "n \<ge> maxFailedLogins \<Longrightarrow> rs_status (fst w) = 429 \<and> a_store a' = a_store a"
    "rs_status (fst w) = 401 \<Longrightarrow> counter (live (rdb (a_cache a')) k) = Some (n + 1)" by blast+
qed

text \<open>Attempts one after another, with the statuses of the responses.\<close>

fun attempts ::
  "('r, 'db, 'u, 'a, 'p, 'i) ext \<Rightarrow> auth_api \<Rightarrow> string \<Rightarrow> request \<Rightarrow> (draw \<times> credentials) list \<Rightarrow> ('r, 'db, 'p) app
     \<Rightarrow> int list \<times> ('r, 'db, 'p) app" where
  "attempts X A dummy r [] a = ([], a)"
| "attempts X A dummy r ((d, req) # ts) a =
     (let (w, a1) = handleLogin X A d dummy (Some req) r a; (ss, a2) = attempts X A dummy r ts a1
      in (rs_status (fst w) # ss, a2))"

lemma attempts_length: "length (fst (attempts X A dummy r ts a)) = length ts"
proof (induction ts arbitrary: a)
  case (Cons t ts)
  obtain d req where t: "t = (d, req)" by (cases t)
  show ?case using Cons.IH by (simp add: t Let_def case_prod_unfold)
qed simp

lemma attempts_count:
  assumes R: "redis_serves (x_redis X) live" and C: "redis_counts (x_redis X) live"
    and "counter (live (rdb (a_cache a)) k) = Some n" "0 \<le> n" "n + int (length ts) < 2 ^ 62"
    and "\<forall>t\<in>set ts. k = lock_key X (a_cfg a) r (cr_Email (snd t))"
    and "attempts X A dummy r ts a = (replicate (length ts) 401, a')"
  shows "a_cfg a' = a_cfg a \<and> counter (live (rdb (a_cache a')) k) = Some (n + int (length ts))"
  using assms(3-)
proof (induction ts arbitrary: a n)
  case (Cons t ts)
  obtain d req where t: "t = (d, req)" by (cases t)
  obtain w a1 where w: "handleLogin X A d dummy (Some req) r a = (w, a1)" by (cases "handleLogin X A d dummy (Some req) r a")
  obtain ss where rest: "attempts X A dummy r ts a1 = (ss, a')" and ss: "rs_status (fst w) = 401" "ss = replicate (length ts) 401"
    using Cons.prems(5) by (auto simp: t w split: prod.splits)
  have key: "k = lock_key X (a_cfg a) r (cr_Email req)" using Cons.prems(4) t by simp
  have "\<bar>n\<bar> < 2 ^ 62" using Cons.prems(2,3) by simp
  note step = login_step [OF R C key Cons.prems(1) this w]
  have "a_cfg a' = a_cfg a1 \<and> counter (live (rdb (a_cache a')) k) = Some (n + 1 + int (length ts))"
    by (rule Cons.IH) (use step ss rest Cons.prems in auto)
  then show ?case using step(1) by simp
qed simp


section \<open>A Redis with a clock\<close>

text \<open>Reading takes a second on the clock of this server.\<close>

type_synonym tick_redis = "int \<times> (string, string \<times> int) gomap"

definition alive :: "tick_redis \<Rightarrow> string \<Rightarrow> string option" where
  "alive s k = (case map_of (snd s) k of None \<Rightarrow> None | Some (v, d) \<Rightarrow> if fst s < d then Some v else None)"

definition tick_server :: "tick_redis redis" where
  "tick_server =
     \<lparr>r_get = (\<lambda>k s. (case alive s k of None \<Rightarrow> Reply_nil | Some v \<Rightarrow> Reply v, (fst s + 1000, snd s))),
      r_set = (\<lambda>k v t s. (True, (fst s, mput k (v, fst s + t) (snd s)))),
      r_del = (\<lambda>k s. (fst s, mdel k (snd s))),
      r_pipeline = (\<lambda>kvs s. fold (\<lambda>(k, v, t) s. (fst s, mput k (v, fst s + t) (snd s))) kvs s),
      r_setnx = (\<lambda>k v t s. if alive s k = None then (Reply True, (fst s, mput k (v, fst s + t) (snd s))) else (Reply False, s)),
      r_exists = (\<lambda>k s. (Reply (if alive s k = None then 0 else 1), s)),
      r_incr = (\<lambda>k s. let n = fst (ParseInt (case alive s k of None \<Rightarrow> ''0'' | Some v \<Rightarrow> v)) + 1
                       in Some (n, (fst s, mput k (itoa n, fst s + 60000) (snd s)))),
      r_pttl = (\<lambda>k s. 60000),
      r_pexpire = (\<lambda>k w s. s),
      r_script = (\<lambda>f s. case f s of None \<Rightarrow> (Reply_err, s) | Some (xs, s') \<Rightarrow> (Reply xs, s')),
      r_dbsize = (\<lambda>s. Reply (int (length (snd s)))),
      r_info = (\<lambda>s. Reply_err),
      r_config_get = (\<lambda>k s. Reply_err)\<rparr>"

definition tick_due :: "tick_redis \<Rightarrow> string \<Rightarrow> int option" where
  "tick_due s k = map_option snd (map_of (snd s) k)"

lemma tick_clocked: "redis_clocked tick_server fst tick_due"
  by (auto simp: redis_clocked_def keeps_def tick_server_def tick_due_def alive_def incrWindow_def Let_def
      split: option.splits if_splits)

section \<open>A counting Redis\<close>

lemma digit_char_digit: "d < 10 \<Longrightarrow> is_digit (digit_char d) \<and> int (of_char (digit_char d)) - 48 = int d"
  by (simp add: digit_char_def is_digit_def less_eq_char_def)

lemma parse_nat_digits: "parse_digits (nat_digits n) = Some (int n)"
proof -
  have "list_all is_digit (nat_digits n) \<and> nat_digits n \<noteq> [] \<and> fold (\<lambda>c m. 10 * m + (int (of_char c) - 48)) (nat_digits n) 0 = int n"
  proof (induction n rule: nat_digits.induct)
    case (1 n)
    have "10 * int (n div 10) + int (n mod 10) = int n" by presburger
    with 1 show ?case using digit_char_digit [of n] digit_char_digit [of "n mod 10"]
      by (cases "n < 10") (simp_all add: nat_digits.simps [of n])
  qed
  then show ?thesis by (simp add: parse_digits_def)
qed

lemma digits_unsigned: "\<not> HasPrefix (nat_digits n) ''-''" "\<not> HasPrefix (nat_digits n) ''+''"
proof -
  obtain c cs where c: "nat_digits n = c # cs" "is_digit c"
    using parse_nat_digits [of n] by (cases "nat_digits n") (auto simp: parse_digits_def split: if_splits)
  then show "\<not> HasPrefix (nat_digits n) ''-''" "\<not> HasPrefix (nat_digits n) ''+''"
    by (auto simp: HasPrefix_def is_digit_def less_eq_char_def)
qed

lemma ParseInt_itoa: "- (2 ^ 63) \<le> n \<Longrightarrow> n < 2 ^ 63 \<Longrightarrow> ParseInt (itoa n) = (n, None)"
proof (cases "n < 0")
  case True
  moreover assume "- (2 ^ 63) \<le> n"
  ultimately show ?thesis using HasPrefix_append [of "''-''" "nat_digits (nat (- n))"]
    by (simp add: ParseInt_def itoa_def parse_nat_digits Let_def)
next
  case False
  moreover assume "n < 2 ^ 63"
  ultimately show ?thesis by (simp add: ParseInt_def itoa_def parse_nat_digits digits_unsigned Let_def)
qed

lemma mem_counts: "redis_counts mem_server map_of"
proof -
  have one: "counter (Some (itoa (n + 1))) = Some (n + 1)" if "\<bar>n\<bar> < 2 ^ 62" for n
    using that by (simp add: counter_def ParseInt_itoa)
  have val: "fst (ParseInt (mget ''0'' s k)) = n" if "counter (map_of s k) = Some n" for s k n
  proof (cases "map_of s k")
    case None
    have "fst (ParseInt ''0'') = 0" by code_simp
    then show ?thesis using that None by (simp add: counter_def mget_def)
  next
    case (Some v)
    then show ?thesis using that by (auto simp: counter_def mget_def split: prod.splits option.splits)
  qed
  show ?thesis
    unfolding redis_counts_def
  proof (intro allI impI)
    fix k :: string and w s n assume n: "counter (map_of s k) = Some n \<and> \<bar>n\<bar> < 2 ^ 62"
    then show "counter (map_of (snd (r_script mem_server (incrWindow mem_server k w) s)) k) = Some (n + 1)"
      using one [of n] val [of s k n] by (simp add: mem_server_def incrWindow_def mem_incr_def Let_def)
  qed
qed


section \<open>Properties\<close>

text \<open>C4: a refresh token is accepted once.  If two refreshes are accepted for tokens with the same
  identifier, with any commands of the service sent to Redis in between, then by the clock of
  Redis at least the lifetime that the token had left at the first use has passed: within
  its lifetime a replayed token never yields a second session.\<close>

theorem refresh_single_use:
  assumes R: "redis_clocked (x_redis X) clk due"
    and first: "handleRefresh X A d1 n1 n2 r1 a = (w1, a1)" "accepted w1"
    and between: "redis_run (x_redis X) (rdb (a_cache a1)) (rdb (a_cache b))"
    and second: "handleRefresh X A d2 m1 m2 r2 b = (w2, b')" "accepted w2"
    and token1: "map_of (rq_cookies r1) refreshCookie = Some v1" "parseToken A (a_cfg a) n1 v1 kindRefresh = Inr c1"
    and token2: "map_of (rq_cookies r2) refreshCookie = Some v2" "parseToken A (a_cfg b) m1 v2 kindRefresh = Inr c2"
    and same: "cl_ID c2 = cl_ID c1"
  shows "clk (rdb (a_cache a)) + redis_ms (timeLeft n2 c1) \<le> clk (rdb (a_cache b'))"
proof -
  have 1: "fst (Revoke (x_redis X) (cl_ID c1) (redis_ms (timeLeft n2 c1)) (a_cache a)) = Reply True"
    "a_cache a1 = snd (Revoke (x_redis X) (cl_ID c1) (redis_ms (timeLeft n2 c1)) (a_cache a))"
    using handleRefresh_accepted [OF first] token1 by (metis option.inject sum.inject(2))+
  have 2: "fst (Revoke (x_redis X) (cl_ID c1) (redis_ms (timeLeft m2 c2)) (a_cache b)) = Reply True"
    "a_cache b' = snd (Revoke (x_redis X) (cl_ID c1) (redis_ms (timeLeft m2 c2)) (a_cache b))"
    using handleRefresh_accepted [OF second] token2 same by (metis option.inject sum.inject(2))+
  show ?thesis using no_second_use [OF R 1(1) between [unfolded 1(2)] 2(1)] 2(2) by simp
qed

definition demo_auth :: auth_api where
  "demo_auth =
     \<lparr>bc_generate = (\<lambda>p n s. Inr p), bc_compare = (=), jwt_sign = (\<lambda>alg c k. Inr (cl_ID c)),
      jwt_parse = (\<lambda>k po now tok. Inr (Some
        \<lparr>cl_Email = ''e@x.y'', cl_Kind = (if tok = ''tick'' then ''access'' else ''refresh''), cl_ID = tok, cl_Subject = ''7'',
         cl_ExpiresAt = Some 2000000000, cl_IssuedAt = None, cl_Issuer = ''kortex''\<rparr>, True)),
      mail_ParseAddress = Some\<rparr>"

definition demo_user :: user where
  "demo_user = \<lparr>u_ID = 7, u_Email = ''e@x.y'', u_Name = ''e'', u_Role = ''user'', u_CreatedAt = 0\<rparr>"

fun user_exec :: "mem_db pg" where
  "user_exec (Select_user_id i) d = (Inr (User_rows [(demo_user, ''pw'')]), d)"
| "user_exec (Select_user_email e) d = (Inr (User_rows [(demo_user, ''pw'')]), d)"
| "user_exec q d = mem_exec q d"

definition tick_ext :: "(tick_redis, mem_db, string \<times> string, string, string, unit) ext" where
  "tick_ext = \<lparr>x_redis = tick_server, x_json = mem_json, x_pg = user_exec, x_url = demo_url, x_lower = id, x_upper = id,
     x_fold = (=), x_netip = demo_netip, x_geo = None, x_sort = insert_desc l_CreatedAt,
     x_qr = (\<lambda>_. None), x_static = (\<lambda>_. None)\<rparr>"

definition tick_app :: "int \<Rightarrow> (string, string \<times> int) gomap \<Rightarrow> (tick_redis, mem_db, string) app" where
  "tick_app now m = newApp (loadConfig demo_netip id demo_env) 128 (\<lambda>_. 3) False demo_db (now, m)"

definition demo_draw :: draw where
  "demo_draw = \<lparr>d_salt = [], d_clock = [], d_now = 0, d_access = (0, ''aaaaaaaaaaaaaaaa''), d_refresh = (0, ''bbbbbbbbbbbbbbbb'')\<rparr>"

definition refresh_request :: request where
  "refresh_request = demo_request\<lparr>rq_cookies := [(refreshCookie, ''r1'')]\<rparr>"

lemma tick_ext_redis [simp]: "x_redis tick_ext = tick_server"
  by (simp add: tick_ext_def)

lemma demo_token: "parseToken demo_auth cfg now ''r1'' kindRefresh = Inr
    \<lparr>cl_Email = ''e@x.y'', cl_Kind = ''refresh'', cl_ID = ''r1'', cl_Subject = ''7'',
     cl_ExpiresAt = Some 2000000000, cl_IssuedAt = None, cl_Issuer = ''kortex''\<rparr>"
  by (simp add: parseToken_def demo_auth_def kindRefresh_def)

lemma demo_get_user: "GetUserByID (x_pg tick_ext) i st = (Inr demo_user, st)"
  by (simp add: GetUserByID_def run_sql_def tick_ext_def user_row_def scan_first_def)

lemma demo_emit: "accepted (emitAuth demo_auth cfg u e1 e2)"
  by (simp add: emitAuth_def issueToken_def demo_auth_def accepted_def split: prod.split)

lemma demo_refresh:
  assumes "alive (rdb (a_cache a)) (keyRevoked @ ''r1'') = None"
  shows "\<exists>w. handleRefresh tick_ext demo_auth demo_draw 0 0 refresh_request a =
      (w, a\<lparr>a_cache := a_cache a\<lparr>rdb := (fst (rdb (a_cache a)),
        mput (keyRevoked @ ''r1'') (''1'', fst (rdb (a_cache a)) + 2000) (snd (rdb (a_cache a))))\<rparr>\<rparr>) \<and> accepted w"
proof -
  have c: "map_of (rq_cookies refresh_request) refreshCookie = Some ''r1''" by (simp add: refresh_request_def)
  have "redis_ms 2000000000 = 2000" by (simp add: redis_ms_def)
  then show ?thesis using assms demo_emit [of "a_cfg a" demo_user "d_access demo_draw" "d_refresh demo_draw"]
    by (auto simp: handleRefresh_def c demo_token timeLeft_def Revoke_def
        tick_server_def Let_def demo_get_user emit_def)
qed


theorem refresh_single_use_witness:
  "\<exists>w1 a1 w2 b'. handleRefresh tick_ext demo_auth demo_draw 0 0 refresh_request (tick_app 0 []) = (w1, a1) \<and> accepted w1
     \<and> handleRefresh tick_ext demo_auth demo_draw 0 0 refresh_request
         (a1\<lparr>a_cache := a_cache a1\<lparr>rdb := snd (r_get tick_server [] (snd (r_get tick_server [] (rdb (a_cache a1)))))\<rparr>\<rparr>) = (w2, b')
     \<and> accepted w2 \<and> 2000 \<le> fst (rdb (a_cache b'))"
proof -
  have "alive (rdb (a_cache (tick_app 0 []))) (keyRevoked @ ''r1'') = None" by (simp add: tick_app_def newApp_def alive_def)
  from demo_refresh [OF this] obtain w1 a1 where 1: "handleRefresh tick_ext demo_auth demo_draw 0 0 refresh_request (tick_app 0 []) = (w1, a1)"
    "accepted w1" and s: "rdb (a_cache a1) = (0, [(keyRevoked @ ''r1'', ''1'', 2000)])"
    by (auto simp: tick_app_def newApp_def)
  let ?g = "snd (r_get tick_server [] (snd (r_get tick_server [] (rdb (a_cache a1)))))"
  let ?b = "a1\<lparr>a_cache := a_cache a1\<lparr>rdb := ?g\<rparr>\<rparr>"
  have "alive (rdb (a_cache ?b)) (keyRevoked @ ''r1'') = None" by (simp add: s tick_server_def alive_def)
  from demo_refresh [OF this] obtain w2 b' where 2: "handleRefresh tick_ext demo_auth demo_draw 0 0 refresh_request ?b = (w2, b')" "accepted w2"
    by blast
  have between: "redis_run tick_server (rdb (a_cache a1)) (rdb (a_cache ?b))" by (simp add: rr_get rr_refl)
  have c: "map_of (rq_cookies refresh_request) refreshCookie = Some ''r1''" by (simp add: refresh_request_def)
  have "redis_ms 2000000000 = 2000" by (simp add: redis_ms_def)
  then have "2000 \<le> fst (rdb (a_cache b'))"
    using refresh_single_use [where X = tick_ext and clk = fst and due = tick_due, simplified tick_ext_redis, OF tick_clocked 1 between 2 c demo_token c demo_token refl]
    by (simp add: tick_app_def newApp_def timeLeft_def)
  with 1 2 show ?thesis by blast
qed


lemma demo_access_token: "parseToken demo_auth cfg now ''tick'' kindAccess = Inr
    \<lparr>cl_Email = ''e@x.y'', cl_Kind = ''access'', cl_ID = ''tick'', cl_Subject = ''7'',
     cl_ExpiresAt = Some 2000000000, cl_IssuedAt = None, cl_Issuer = ''kortex''\<rparr>"
  by (simp add: parseToken_def demo_auth_def kindAccess_def)

definition access_request :: request where
  "access_request = demo_request\<lparr>rq_cookies := [(accessCookie, ''tick'')]\<rparr>"




definition lock_ext :: "(mem_redis, mem_db, string \<times> string, string, string, unit) ext" where
  "lock_ext = demo_ext\<lparr>x_pg := user_exec\<rparr>"

definition wrong :: "draw \<times> credentials" where
  "wrong = (demo_draw, \<lparr>cr_Email = ''e@x.y'', cr_Password = ''guess'', cr_Name = []\<rparr>)"

text \<open>The two counters of the address and email of the attempts.\<close>

definition lock_state :: "(mem_redis, mem_db, string) app \<Rightarrow> int \<Rightarrow> int \<Rightarrow> bool" where
  "lock_state a n m \<longleftrightarrow>
     (let ip = clientIP demo_netip (cfg_TrustedProxies (a_cfg a)) demo_request
      in fst (ParseInt (mget ''0'' (rdb (a_cache a)) (keyRateLimit @ ''login'' @ '':'' @ ip))) = n
         \<and> counter (map_of (rdb (a_cache a)) (lock_key lock_ext (a_cfg a) demo_request ''e@x.y'')) = Some m)"

lemma lock_ext_simps [simp]:
  "x_redis lock_ext = mem_server" "x_netip lock_ext = demo_netip" "x_lower lock_ext = id" "x_pg lock_ext = user_exec"
  by (simp_all add: lock_ext_def demo_ext_def)

lemma wrong_login:
  assumes "lock_state a n m" "0 \<le> n" "n < 10" "0 \<le> m" "m < 5"
  obtains w a' where "handleLogin lock_ext demo_auth demo_draw [] (Some (snd wrong)) demo_request a = (w, a')"
    "rs_status (fst w) = 401" "lock_state a' (n + 1) (m + 1)" "a_cfg a' = a_cfg a"
proof -
  let ?rl = "authRateLimited lock_ext demo_request ''login'' a"
  define ip where "ip = clientIP demo_netip (cfg_TrustedProxies (a_cfg a)) demo_request"
  define K where "K = keyRateLimit @ ''login'' @ '':'' @ ip"
  define F where "F = lock_key lock_ext (a_cfg a) demo_request ''e@x.y''"
  have ne: "K \<noteq> F" by (simp add: K_def F_def lock_key_def keyRateLimit_def keyFailedLogin_def)
  let ?c = "a_cache a\<lparr>rdb := mput K (itoa (n + 1)) (rdb (a_cache a))\<rparr>"
  have rl: "?rl = (None, a\<lparr>a_cache := ?c\<rparr>)"
    using assms(1,3) unfolding authRateLimited_def lock_ext_simps ip_def [symmetric] RateLimit_def K_def [symmetric]
    by (simp add: Cache.incr_def incrWindow_def mem_server_def mem_incr_def lock_state_def ip_def [symmetric] K_def authPerMinute_def Let_def)
  define i where "i = ip @ '':'' @ ''e@x.y''"
  have em: "normEmail id ''e@x.y'' = ''e@x.y''" by code_simp
  have F: "F = keyFailedLogin @ i" by (simp add: F_def lock_key_def i_def ip_def em)
  have m: "counter (map_of (rdb ?c) (keyFailedLogin @ i)) = Some m"
    using assms(1) ne by (simp add: lock_state_def F_def [symmetric] F [symmetric] Let_def)
  obtain f c1 where f: "FailedLogins mem_server i ?c = (f, c1)" by (cases "FailedLogins mem_server i ?c")
  have f': "f = m" "map_of (rdb c1) = map_of (rdb ?c)" using FailedLogins_counter [OF mem_serves m] unfolding f by (simp_all only: fst_conv snd_conv)
  have u: "GetUserByEmail user_exec id ''e@x.y'' st = (Inr (demo_user, ''pw''), st)" for st :: "mem_db store"
    by (simp add: GetUserByEmail_def run_sql_def user_row_def scan_first_def em)
  let ?a' = "a\<lparr>a_cache := snd (BumpFailedLogin mem_server i c1)\<rparr>"
  have run: "handleLogin lock_ext demo_auth demo_draw [] (Some (snd wrong)) demo_request a =
      ((writeErr 401 ''invalid email or password'', []), ?a')"
    using assms(5) f f'(1)
    by (simp add: handleLogin_def rl wrong_def em ip_def [symmetric] i_def Let_def u maxFailedLogins_def verifyPassword_def demo_auth_def)
  have bump: "rdb (snd (BumpFailedLogin mem_server i c1)) = mput F (itoa (fst (ParseInt (mget ''0'' (rdb c1) F)) + 1)) (rdb c1)"
    by (simp add: BumpFailedLogin_def Cache.incr_def incrWindow_def mem_server_def mem_incr_def F Let_def)
  have "counter (map_of (rdb (a_cache ?a')) F) = Some (m + 1)"
    using BumpFailedLogin_counter [OF mem_counts, of c1 i m] m f'(2) assms(4,5) F by simp
  moreover have "mget ''0'' (rdb (a_cache ?a')) K = itoa (n + 1)" using ne f'(2) by (simp add: bump mget_def)
  ultimately have "lock_state ?a' (n + 1) (m + 1)"
    using assms(2,3) by (simp add: lock_state_def ip_def [symmetric] K_def [symmetric, simplified] F_def [symmetric] ParseInt_itoa Let_def)
  then show thesis using that run by simp
qed

lemma wrong_logins:
  assumes "lock_state a n m" "0 \<le> n" "n + int k \<le> 10" "0 \<le> m" "m + int k \<le> 5"
  shows "fst (attempts lock_ext demo_auth [] demo_request (replicate k wrong) a) = replicate k 401"
  using assms
proof (induction k arbitrary: a n m)
  case (Suc k)
  obtain w a' where w: "handleLogin lock_ext demo_auth demo_draw [] (Some (snd wrong)) demo_request a = (w, a')"
    "rs_status (fst w) = 401" "lock_state a' (n + 1) (m + 1)"
    by (rule wrong_login [OF Suc.prems(1,2) _ Suc.prems(4)]) (use Suc.prems in auto)
  from Suc.IH [OF w(3)] Suc.prems w(1,2) show ?case by (simp add: wrong_def Let_def case_prod_unfold)
qed simp


end
