(* ===== verification/Boot.thy ===== *)
theory Boot
  imports Seed Lab Analytics Auth_Spec
begin

text \<open>
  The life of the process, from \<^verbatim>\<open>backend/main.go\<close> and \<^verbatim>\<open>backend/routes.go\<close>: connecting with retries, the
  data steps of the boot, the table of routes, and the shutdown.  Signals, timeouts and the HTTP server
  are not modelled; a route is an entry of a table, which chi interprets.
\<close>

section \<open>Start\<close>

text \<open>\<open>last\<close> is the error of the attempt before; the outside world \<open>s\<close> changes with every attempt.\<close>

fun retry_loop :: "('s \<Rightarrow> (go_error + 'a) \<times> 's) \<Rightarrow> nat \<Rightarrow> go_error option \<Rightarrow> 's \<Rightarrow> ('a option \<times> go_error option) \<times> 's" where
  "retry_loop connect 0 lst s = ((None, lst), s)"
| "retry_loop connect (Suc n) lst s =
     (case connect s of
        (Inr v, s') \<Rightarrow> ((Some v, None), s')
      | (Inl e, s') \<Rightarrow> retry_loop connect n (Some e) s')"

definition retry :: "nat \<Rightarrow> ('s \<Rightarrow> (go_error + 'a) \<times> 's) \<Rightarrow> 's \<Rightarrow> ('a option \<times> go_error option) \<times> 's" where
  "retry n connect s = retry_loop connect n None s"

text \<open>Step 3 of \<^verbatim>\<open>main\<close>: a seeding error is only logged.\<close>

definition load_data ::
  "('r, 'db, 'u, 'a, 'p, 'i) ext \<Rightarrow> auth_api \<Rightarrow> 'g seed_input \<Rightarrow> ('r, 'db, 'p) app \<Rightarrow> ('r, 'db, 'p) app option" where
  "load_data X A I a = (case seedDemo X A I a of None \<Rightarrow> None | Some (_, a1) \<Rightarrow> warmUp X a1)"

section \<open>Routes\<close>

datatype endpoint =
    E_banner | E_health | E_register | E_login | E_demo | E_refresh | E_logout | E_me
  | E_redirect | E_resolve | E_qr
  | E_shorten | E_list | E_check_alias | E_get | E_delete | E_toggle
  | E_overview | E_timeseries | E_breakdown | E_summary | E_race
  | E_bench_start | E_bench_stop | E_stream | E_bench_status | E_stats
  | E_snowflake | E_burst | E_ring | E_bloom | E_bloom_reset | E_bloom_add | E_bloom_test | E_bloom_sweep
  | E_root

record route =
  rt_method :: string
  rt_pattern :: string
  rt_auth :: bool
  rt_endpoint :: endpoint

definition api_route :: "string \<Rightarrow> string \<Rightarrow> endpoint \<Rightarrow> route" where
  "api_route m p e = \<lparr>rt_method = m, rt_pattern = ''/api'' @ p, rt_auth = False, rt_endpoint = e\<rparr>"

definition auth_route :: "string \<Rightarrow> string \<Rightarrow> endpoint \<Rightarrow> route" where
  "auth_route m p e = (api_route m p e)\<lparr>rt_auth := True\<rparr>"

definition routes :: "route list" where
  "routes =
     [api_route ''GET'' ''/'' E_banner, api_route ''GET'' ''/health'' E_health,
      api_route ''POST'' ''/auth/register'' E_register, api_route ''POST'' ''/auth/login'' E_login,
      api_route ''POST'' ''/auth/demo'' E_demo, api_route ''POST'' ''/auth/refresh'' E_refresh,
      api_route ''POST'' ''/auth/logout'' E_logout, auth_route ''GET'' ''/auth/me'' E_me,
      api_route ''GET'' ''/r/{code}'' E_redirect, api_route ''HEAD'' ''/r/{code}'' E_redirect,
      api_route ''GET'' ''/resolve/{code}'' E_resolve, api_route ''GET'' ''/qr/{code}'' E_qr,
      auth_route ''POST'' ''/links'' E_shorten, auth_route ''GET'' ''/links'' E_list,
      auth_route ''GET'' ''/links/check-alias'' E_check_alias, auth_route ''GET'' ''/links/{code}'' E_get,
      auth_route ''DELETE'' ''/links/{code}'' E_delete, auth_route ''POST'' ''/links/{code}/toggle'' E_toggle,
      auth_route ''GET'' ''/analytics/overview'' E_overview, auth_route ''GET'' ''/analytics/{code}/timeseries'' E_timeseries,
      auth_route ''GET'' ''/analytics/{code}/breakdown'' E_breakdown, auth_route ''GET'' ''/analytics/{code}/summary'' E_summary,
      auth_route ''GET'' ''/analytics/{code}/race'' E_race,
      auth_route ''POST'' ''/bench/start'' E_bench_start, auth_route ''POST'' ''/bench/stop'' E_bench_stop,
      auth_route ''GET'' ''/stream/recent'' E_stream,
      api_route ''GET'' ''/bench/status'' E_bench_status, api_route ''GET'' ''/system/stats'' E_stats,
      api_route ''GET'' ''/lab/snowflake'' E_snowflake, api_route ''GET'' ''/lab/snowflake/burst'' E_burst,
      api_route ''GET'' ''/lab/ring'' E_ring, api_route ''GET'' ''/lab/bloom'' E_bloom,
      api_route ''POST'' ''/lab/bloom/reset'' E_bloom_reset, api_route ''POST'' ''/lab/bloom/add'' E_bloom_add,
      api_route ''GET'' ''/lab/bloom/test'' E_bloom_test, api_route ''GET'' ''/lab/bloom/sweep'' E_bloom_sweep,
      \<lparr>rt_method = ''GET'', rt_pattern = ''/{code}'', rt_auth = False, rt_endpoint = E_root\<rparr>,
      \<lparr>rt_method = ''HEAD'', rt_pattern = ''/{code}'', rt_auth = False, rt_endpoint = E_root\<rparr>]"

text \<open>The endpoints whose handlers use the current user without checking that there is one.\<close>

fun needs_user :: "endpoint \<Rightarrow> bool" where
  "needs_user E_me = True"
| "needs_user E_shorten = True"
| "needs_user E_list = True"
| "needs_user E_check_alias = False"
| "needs_user E_get = True"
| "needs_user E_delete = True"
| "needs_user E_toggle = True"
| "needs_user E_overview = True"
| "needs_user E_timeseries = True"
| "needs_user E_breakdown = True"
| "needs_user E_summary = True"
| "needs_user E_race = True"
| "needs_user E_stream = True"
| "needs_user _ = False"

lemma routes_guarded: "\<forall>r\<in>set routes. needs_user (rt_endpoint r) \<longrightarrow> rt_auth r"
  by (simp add: routes_def api_route_def auth_route_def)

lemma routes_unambiguous: "distinct (map (\<lambda>r. (rt_method r, rt_pattern r)) routes)"
  by (simp add: routes_def api_route_def auth_route_def)

section \<open>Shutdown\<close>

text \<open>Waiting for the bus changes nothing by itself; \<open>order\<close> is the order of the shards in the last write.\<close>

definition shutdown ::
  "('r, 'db, 'u, 'a, 'p, 'i) ext \<Rightarrow> ((int, string list) gomap \<Rightarrow> (int, string list) gomap) \<Rightarrow> bench \<Rightarrow> ('r, 'db, 'p) app \<Rightarrow> bench \<times> ('r, 'db, 'p) app" where
  "shutdown X order b a =
     (bench_Stop b, a\<lparr>a_bus := Stop (a_bus a), a_store := flushClicks (x_pg X) order (a_store a)\<rparr>)"

section \<open>Lemmas\<close>

lemma retry_tries:
  "(\<exists>v s'. retry_loop connect n lst s = ((Some v, None), s')) \<longleftrightarrow> (\<exists>k<n. \<exists>v s'. connect (((\<lambda>s. snd (connect s)) ^^ k) s) = (Inr v, s')
     \<and> (\<forall>j<k. \<exists>e s'. connect (((\<lambda>s. snd (connect s)) ^^ j) s) = (Inl e, s')))"
  (is "?L n lst s \<longleftrightarrow> ?R n s")
proof (induction n arbitrary: lst s)
  case (Suc n)
  let ?f = "\<lambda>s. snd (connect s)"
  obtain r s' where c: "connect s = (r, s')" by fastforce
  show ?case
  proof (cases r)
    case (Inr v)
    then show ?thesis using c by (auto intro!: exI [of _ 0])
  next
    case (Inl e)
    have "?R (Suc n) s \<longleftrightarrow> ?R n s'"
    proof
      assume "?R (Suc n) s"
      then obtain k v t where k: "k < Suc n" "connect ((?f ^^ k) s) = (Inr v, t)" "\<forall>j<k. \<exists>e t. connect ((?f ^^ j) s) = (Inl e, t)" by blast
      then obtain i where i: "k = Suc i" using c Inl by (cases k) auto
      have "(?f ^^ Suc j) s = (?f ^^ j) s'" for j using c by (simp add: funpow_Suc_right del: funpow.simps(2))
      then show "?R n s'" using k unfolding i by (metis Suc_less_eq)
    next
      assume "?R n s'"
      then obtain k v t where k: "k < n" "connect ((?f ^^ k) s') = (Inr v, t)" "\<forall>j<k. \<exists>e t. connect ((?f ^^ j) s') = (Inl e, t)" by blast
      have s: "(?f ^^ Suc j) s = (?f ^^ j) s'" for j using c by (simp add: funpow_Suc_right del: funpow.simps(2))
      have "\<exists>e t. connect ((?f ^^ j) s) = (Inl e, t)" if "j < Suc k" for j
        using that k(3) c Inl s by (cases j) (auto simp del: funpow.simps(2))
      then show "?R (Suc n) s" using k(1,2) s [of k] by (metis Suc_less_eq)
    qed
    then show ?thesis using Suc.IH [of "Some e" s'] c Inl by simp
  qed
qed simp

lemma cancelled_writes:
  "fold (write_chunk (\<lambda>_ d. (Inl e, d)) p) chs (failed, st) = (failed @ concat (map snd chs), st)"
  by (induction chs arbitrary: failed) (auto simp: write_chunk_def run_sql_def Let_def)

section \<open>Properties\<close>



end
