(* ===== verification/Boot_Spec.thy ===== *)
theory Boot_Spec
  imports Boot
begin

text \<open>
  The data steps of the boot as a whole: \<^verbatim>\<open>seedDemo\<close> of \<^verbatim>\<open>backend/seed.go\<close> followed by \<^verbatim>\<open>warmUp\<close> of
  \<^verbatim>\<open>backend/main.go\<close>.  Seeding keeps the shards well formed and the cache in agreement with them, loses
  no link, and changes at most the owner of the demonstration links; so the service that starts
  after it implements a table of links.
\<close>

section \<open>The shape of the shards\<close>

definition store_ok :: "('db \<Rightarrow> tables) \<Rightarrow> 'db store \<Rightarrow> bool" where
  "store_ok tabs st \<longleftrightarrow> (\<exists>n vn. 0 < n \<and> st_ring st = NewRing n vn) \<and> placed tabs st \<and> unique_codes tabs st"

lemma boots_iff:
  "boots X tabs live a \<longleftrightarrow> bloom_ok (a_bloom a) \<and> store_ok tabs (a_store a)
     \<and> cache_agrees (x_json X) (live (rdb (a_cache a))) (stored tabs (a_store a))"
  by (auto simp: boots_def store_ok_def)

lemma ShardFor_ring: "st_ring st' = st_ring st \<Longrightarrow> ShardFor st' = ShardFor st"
  by (simp add: ShardFor_def fun_eq_iff)

lemma store_ok_codes:
  assumes "\<And>t. map l_Code (tabs (db st') t) = map l_Code (tabs (db st) t)" "st_ring st' = st_ring st" "store_ok tabs st"
  shows "store_ok tabs st'"
proof -
  have "l_Code ` set (tabs (db st') t) = l_Code ` set (tabs (db st) t)" for t using assms(1) [of t] by (metis list.set_map)
  then have "l \<in> set (tabs (db st') t) \<Longrightarrow> \<exists>x\<in>set (tabs (db st) t). l_Code x = l_Code l" for t l by (metis image_iff)
  then have "placed tabs st'" using assms(2,3) ShardFor_ring [OF assms(2)] unfolding store_ok_def placed_def by metis
  then show ?thesis using assms by (simp add: store_ok_def unique_codes_def)
qed

lemma nat_digits_inj: "nat_digits m = nat_digits n \<Longrightarrow> m = n"
  by (metis parse_nat_digits option.inject of_nat_eq_iff)

lemma shardTable_inj: "0 \<le> i \<Longrightarrow> 0 \<le> j \<Longrightarrow> shardTable i = shardTable j \<Longrightarrow> i = j"
  using nat_digits_inj [of "nat i" "nat j"] by (auto simp: shardTable_def itoa_def)

lemma store_ok_range: "store_ok tabs st \<Longrightarrow> 0 \<le> ShardFor st c \<and> ShardFor st c < ShardCount (st_ring st)"
  using Get_range by (auto simp: store_ok_def ShardFor_def ShardCount_NewRing)

lemma placed_row:
  assumes "store_ok tabs st" "0 \<le> sh" "sh < ShardCount (st_ring st)" "x \<in> set (tabs (db st) (shardTable sh))"
  shows "row_of tabs st (l_Code x) = Some x"
proof -
  have "ShardFor st (l_Code x) = sh" "distinct (map l_Code (tabs (db st) (shardTable sh)))"
    using assms by (auto simp: store_ok_def placed_def unique_codes_def)
  then show ?thesis using assms(4) by (simp add: row_of_def find_member)
qed

section \<open>Statements\<close>

text \<open>A statement that leaves the link tables as they are.\<close>

definition reads :: "('db \<Rightarrow> tables) \<Rightarrow> 'db store \<Rightarrow> 'db store \<Rightarrow> bool" where
  "reads tabs st st' \<longleftrightarrow> tabs (db st') = tabs (db st) \<and> st_ring st' = st_ring st"

lemma reads_refl [simp]: "reads tabs st st"
  by (simp add: reads_def)

lemma reads_trans: "reads tabs s t \<Longrightarrow> reads tabs t u \<Longrightarrow> reads tabs s u"
  by (simp add: reads_def)

lemma reads_store:
  assumes "reads tabs st st'"
  shows "stored tabs st' = stored tabs st" "store_ok tabs st' = store_ok tabs st" "ShardFor st' = ShardFor st"
  using assms store_ok_codes [of tabs st' st] store_ok_codes [of tabs st st'] stored_cong [of tabs st' st] ShardFor_ring [of st' st]
  by (auto simp: reads_def)

fun links_untouched :: "sql \<Rightarrow> bool" where
  "links_untouched (Insert_link _ _) = False"
| "links_untouched (Update_owner _ _ _) = False"
| "links_untouched (Delete_link _ _ _) = False"
| "links_untouched (Toggle_active _ _ _) = False"
| "links_untouched (Set_clicks _ _ _) = False"
| "links_untouched (Add_clicks _ _) = False"
| "links_untouched _ = True"

lemma untouched_reads:
  assumes "pg_ok srv tabs" "run_sql srv q st = (r, st')" "links_untouched q"
  shows "reads tabs st st'"
  using run_sql_step [OF assms(1,2)] run_sql_keeps [OF assms(2)] assms(3)
  by (cases q; cases r) (auto simp: sql_step_def reads_def)

lemma GetUserByEmail_reads: "pg_ok srv tabs \<Longrightarrow> GetUserByEmail srv uni email st = (r, st') \<Longrightarrow> reads tabs st st'"
  using untouched_reads [of srv tabs "Select_user_email (normEmail uni email)" st]
  by (auto simp: GetUserByEmail_def split: prod.splits)

lemma exec_only_reads: "pg_ok srv tabs \<Longrightarrow> exec_only srv q st = (r, st') \<Longrightarrow> links_untouched q \<Longrightarrow> reads tabs st st'"
  using untouched_reads [of srv tabs q st] by (auto simp: exec_only_def split: prod.splits)

lemma GetByCode_reads: "pg_ok srv tabs \<Longrightarrow> GetByCode srv c st = (r, st') \<Longrightarrow> reads tabs st st'"
  using untouched_reads [of srv tabs "Select_link (shardTable (ShardFor st c)) c" st]
  by (auto simp: GetByCode_def Let_def split: prod.splits)

lemma every_shard_listed:
  assumes "pg_ok srv tabs" "every_shard srv (\<lambda>t. Select_user_links t u n) shs out st = (r, st')"
  shows "reads tabs st st'"
    and "r = Inr ls \<Longrightarrow> l \<in> set ls \<Longrightarrow> l \<in> set out \<or> (\<exists>sh\<in>set shs. \<exists>x\<in>set (tabs (db st) (shardTable sh)). l = scanLink sh x)"
proof -
  have "reads tabs st st' \<and> (\<forall>ls l. r = Inr ls \<longrightarrow> l \<in> set ls \<longrightarrow>
      l \<in> set out \<or> (\<exists>sh\<in>set shs. \<exists>x\<in>set (tabs (db st) (shardTable sh)). l = scanLink sh x))"
    using assms(2)
  proof (induction shs arbitrary: out st)
    case (Cons sh shs)
    let ?q = "Select_user_links (shardTable sh) u n"
    obtain q s where run: "run_sql srv ?q st = (q, s)" by (cases "run_sql srv ?q st")
    have rd: "reads tabs st s" by (rule untouched_reads [OF assms(1) run]) simp
    show ?case
    proof (cases "\<exists>rows. q = Inr (sql_reply.Rows rows)")
      case True
      then obtain rows where q: "q = Inr (sql_reply.Rows rows)" by blast
      then obtain full where "mset full = mset (filter (\<lambda>l. l_UserID l = u) (tabs (db st) (shardTable sh)))" "rows = take (nat n) full"
        using run_sql_reply [OF assms(1) run [unfolded q]] by auto
      then have rows: "set rows \<subseteq> set (tabs (db st) (shardTable sh))"
        by (metis filter_is_subset set_mset_mset set_take_subset subset_trans)
      have rest: "every_shard srv (\<lambda>t. Select_user_links t u n) shs (out @ map (scanLink sh) rows) s = (r, st')"
        using Cons.prems run q by simp
      have T: "tabs (db s) = tabs (db st)" using rd by (simp add: reads_def)
      have "l \<in> set out \<or> (\<exists>sh\<in>set (sh # shs). \<exists>x\<in>set (tabs (db st) (shardTable sh)). l = scanLink sh x)"
        if "r = Inr ls" "l \<in> set ls" for ls l
      proof -
        from Cons.IH [OF rest] that have "l \<in> set out \<or> l \<in> scanLink sh ` set rows
            \<or> (\<exists>sh\<in>set shs. \<exists>x\<in>set (tabs (db st) (shardTable sh)). l = scanLink sh x)" by (simp add: T)
        then show ?thesis using rows by auto
      qed
      then show ?thesis using Cons.IH [OF rest] rd reads_trans by blast
    next
      case False
      then have "st' = s \<and> (\<exists>e. r = Inl e)" using Cons.prems run by (cases q) (auto split: sql_reply.splits)
      with rd show ?thesis by auto
    qed
  qed auto
  then show "reads tabs st st'" "r = Inr ls \<Longrightarrow> l \<in> set ls \<Longrightarrow> l \<in> set out \<or> (\<exists>sh\<in>set shs. \<exists>x\<in>set (tabs (db st) (shardTable sh)). l = scanLink sh x)"
    by blast+
qed

text \<open>A listing shows stored links, when the sort drops in nothing of its own.\<close>

lemma ListByUser_stored:
  assumes "pg_ok srv tabs" "\<forall>ls. set (srt ls) \<subseteq> set ls" "ListByUser srv srt u n st = (r, st')"
  shows "reads tabs st st'" "store_ok tabs st \<Longrightarrow> r = Inr ls \<Longrightarrow> l \<in> set ls \<Longrightarrow> stored tabs st (l_Code l) = Some (toCached l)"
proof -
  let ?shs = "[0..ShardCount (st_ring st) - 1]"
  let ?es = "every_shard srv (\<lambda>t. Select_user_links t u n) ?shs [] st"
  obtain q s where q: "?es = (q, s)" by (cases ?es)
  have st': "st' = s" using assms(3) q by (simp add: ListByUser_def queryEveryShard_def)
  show "reads tabs st st'" using every_shard_listed(1) [OF assms(1) q] st' by simp
  show "stored tabs st (l_Code l) = Some (toCached l)" if ok: "store_ok tabs st" and ls: "r = Inr ls" "l \<in> set ls"
  proof -
    obtain out where out: "q = Inr out" and cut_out: "set ls \<subseteq> set (srt out)"
      using assms(3) q ls(1) set_take_subset [of "nat n" "srt _"]
      by (cases q) (auto simp: ListByUser_def queryEveryShard_def Let_def split: if_splits dest: in_set_takeD)
    then have "l \<in> set out" using assms(2) ls(2) by blast
    from every_shard_listed(2) [OF assms(1) q out this] obtain sh x where x: "sh \<in> set ?shs" "x \<in> set (tabs (db st) (shardTable sh))" "l = scanLink sh x"
      by auto
    have "row_of tabs st (l_Code x) = Some x" by (rule placed_row [OF ok]) (use x in auto)
    then show ?thesis by (simp add: stored_def x(3)) (simp add: scanLink_def)
  qed
qed


lemma InsertLink_grows:
  assumes pg: "pg_ok srv tabs" and ok: "store_ok tabs st" and ins: "InsertLink srv l0 st = ((e, l), st')"
  shows "store_ok tabs st'" "st_ring st' = st_ring st" "l = l0\<lparr>l_Shard := ShardFor st (l_Code l0)\<rparr>"
    and "e = None \<Longrightarrow> stored tabs st (l_Code l0) = None \<and> stored tabs st' = (stored tabs st)(l_Code l0 \<mapsto> toCached l)"
    and "e \<noteq> None \<Longrightarrow> stored tabs st' = stored tabs st"
proof -
  define t where "t = shardTable (ShardFor st (l_Code l0))"
  have u: "unique_codes tabs st" using ok by (simp add: store_ok_def)
  note q = InsertLink_row [OF pg ins u]
  show l: "l = l0\<lparr>l_Shard := ShardFor st (l_Code l0)\<rparr>" by (rule q(1))
  obtain a where run: "run_sql srv (Insert_link t l) st = (a, st')"
    using ins l by (auto simp: InsertLink_def exec_only_def Let_def t_def split: prod.splits)
  show ring: "st_ring st' = st_ring st" by (rule run_sql_keeps [OF run])
  have "l \<in> set (tabs (db st') s) \<Longrightarrow> l \<in> set (tabs (db st) s) \<or> s = t \<and> l_Code l = l_Code l0" for s l
    using run_sql_step [OF pg run] q(1) by (auto simp: sql_step_def split: sum.splits if_splits)
  moreover have "shardTable i = t \<Longrightarrow> 0 \<le> i \<Longrightarrow> ShardFor st (l_Code l0) = i" for i
    using shardTable_inj store_ok_range [OF ok] unfolding t_def by blast
  ultimately have "placed tabs st'" using ok q(2) unfolding store_ok_def placed_def ring by metis
  then show "store_ok tabs st'" using ok q(4) by (simp add: store_ok_def ring)
  show "stored tabs st (l_Code l0) = None \<and> stored tabs st' = (stored tabs st)(l_Code l0 \<mapsto> toCached l)" if "e = None"
    using q(5) [OF that] by (auto simp: stored_def fun_eq_iff)
  show "stored tabs st' = stored tabs st" if "e \<noteq> None" by (rule stored_cong [OF q(6) [OF that] q(2)])
qed

text \<open>An update of the rows whose code is in a set, all of them codes of that table.\<close>

lemma row_of_updated:
  assumes T: "tabs (db st') = update_rows (\<lambda>l. l_Code l \<in> S) f t (tabs (db st))" and ring: "st_ring st' = st_ring st"
    and f: "\<And>l. l_Code (f l) = l_Code l" and S: "\<And>c. c \<in> S \<Longrightarrow> shardTable (ShardFor st c) = t"
  shows "row_of tabs st' c = map_option (\<lambda>l. if c \<in> S then f l else l) (row_of tabs st c)"
    and "map l_Code (tabs (db st') t') = map l_Code (tabs (db st) t')"
proof -
  let ?g = "\<lambda>l. if l_Code l \<in> S then f l else l" and ?t = "shardTable (ShardFor st c)"
  have code: "l_Code (?g l) = l_Code l" for l using f by simp
  show "map l_Code (tabs (db st') t') = map l_Code (tabs (db st) t')" using code by (simp add: T update_rows_def)
  have F: "ShardFor st' = ShardFor st" by (rule ShardFor_ring [OF ring])
  have eq: "map_option ?g (row_of tabs st c) = map_option (\<lambda>l. if c \<in> S then f l else l) (row_of tabs st c)"
    using row_of_code [of tabs st c] by (cases "row_of tabs st c") auto
  show "row_of tabs st' c = map_option (\<lambda>l. if c \<in> S then f l else l) (row_of tabs st c)"
  proof (cases "?t = t")
    case True
    then have "row_of tabs st' c = map_option ?g (row_of tabs st c)"
      by (simp add: row_of_def F T update_rows_def find_map_code [OF code])
    then show ?thesis using eq by simp
  next
    case False
    then have "c \<notin> S" using S by blast
    then show ?thesis using False by (simp add: row_of_def F T update_rows_def map_option.id [unfolded id_def])
  qed
qed

lemma toCached_fields [simp]:
  "toCached (l\<lparr>l_UserID := u\<rparr>) = (toCached l)\<lparr>c_UserID := u\<rparr>" "toCached (l\<lparr>l_Clicks := n\<rparr>) = toCached l"
  by (simp_all add: toCached_def)

definition moves :: "int \<Rightarrow> string set \<Rightarrow> (string \<Rightarrow> cached_link option) \<Rightarrow> string \<Rightarrow> cached_link option" where
  "moves u S rows c = map_option (\<lambda>cl. if c \<in> S then cl\<lparr>c_UserID := u\<rparr> else cl) (rows c)"

lemma moves_none [simp]: "moves u {} rows = rows"
  by (simp add: moves_def fun_eq_iff map_option.id [unfolded id_def])

lemma moves_union: "moves u S (moves u R rows) = moves u (S \<union> R) rows"
  by (auto simp: moves_def fun_eq_iff map_option.compositionality comp_def intro!: option.map_cong)

lemma reassign_groups:
  assumes pg: "pg_ok srv tabs" and "store_ok tabs st"
    and "exec_all srv (map (\<lambda>(sh, cs). Update_owner (shardTable sh) u cs) gs) st = (e, st')"
    and "\<forall>(sh, cs)\<in>set gs. \<forall>c\<in>set cs. ShardFor st c = sh"
  shows "store_ok tabs st' \<and> st_ring st' = st_ring st \<and> (\<exists>S. S \<subseteq> set (concat (map snd gs))
    \<and> (e = None \<longrightarrow> S = set (concat (map snd gs))) \<and> stored tabs st' = moves u S (stored tabs st))"
  using assms(2-)
proof (induction gs arbitrary: st)
  case Nil
  then show ?case by simp
next
  case (Cons g gs)
  obtain sh cs where g: "g = (sh, cs)" by (cases g)
  let ?q = "Update_owner (shardTable sh) u cs"
  obtain r s where run: "run_sql srv ?q st = (r, s)" by (cases "run_sql srv ?q st")
  have ring: "st_ring s = st_ring st" by (rule run_sql_keeps [OF run])
  show ?case
  proof (cases r)
    case (Inl err)
    then have "reads tabs st s" "st' = s" "e = Some err"
      using Cons.prems(2) run ring run_sql_error [OF pg run [unfolded Inl]] by (auto simp: g reads_def)
    then show ?thesis using reads_store [of tabs st s] ring Cons.prems(1) by (auto intro!: exI [of _ "{}"])
  next
    case (Inr rep)
    have T: "tabs (db s) = update_rows (\<lambda>l. l_Code l \<in> set cs) (\<lambda>l. l\<lparr>l_UserID := u\<rparr>) (shardTable sh) (tabs (db st))"
      using run_sql_reply [OF pg run [unfolded Inr]] by simp
    note row = row_of_updated [OF T ring, simplified]
    have sh: "c \<in> set cs \<Longrightarrow> shardTable (ShardFor st c) = shardTable sh" for c using Cons.prems(3) g by auto
    have st1: "stored tabs s = moves u (set cs) (stored tabs st)"
      using row(1) [OF sh] by (auto simp: stored_def moves_def fun_eq_iff option.map_comp comp_def intro!: option.map_cong)
    have ok: "store_ok tabs s" by (rule store_ok_codes [OF row(2) [OF sh] ring Cons.prems(1)])
    have "\<forall>(sh, cs)\<in>set gs. \<forall>c\<in>set cs. ShardFor s c = sh" using Cons.prems(3) ShardFor_ring [OF ring] by auto
    from Cons.IH [OF ok _ this] Cons.prems(2) run Inr g obtain S where S: "store_ok tabs st'" "st_ring st' = st_ring s"
      "S \<subseteq> set (concat (map snd gs))" "e = None \<longrightarrow> S = set (concat (map snd gs))" "stored tabs st' = moves u S (stored tabs s)" by auto
    then have "stored tabs st' = moves u (S \<union> set cs) (stored tabs st)" by (simp add: st1 moves_union)
    then show ?thesis using S ring g by (intro conjI exI [of _ "S \<union> set cs"]) auto
  qed
qed

lemma ReassignLinks_moves:
  assumes "pg_ok srv tabs" "store_ok tabs st" "permutes_map order" "ReassignLinks srv order codes u st = (e, st')"
  shows "store_ok tabs st'" "st_ring st' = st_ring st"
    and "\<exists>S. S \<subseteq> set codes \<and> (e = None \<longrightarrow> S = set codes) \<and> stored tabs st' = moves u S (stored tabs st)"
proof -
  let ?gs = "order (groupByShard st codes)"
  have p: "mset ?gs = mset (groupByShard st codes)" using assms(3) by (simp add: permutes_map_def)
  then have gs: "set ?gs = set (groupByShard st codes)" by (metis set_mset_mset)
  have "set (concat (map snd (groupByShard st codes))) = set codes" using groupByShard_mset [of st codes] by (metis set_mset_mset)
  then have all: "set (concat (map snd ?gs)) = set codes" using gs by simp
  have sh: "\<forall>(sh, cs)\<in>set ?gs. \<forall>c\<in>set cs. ShardFor st c = sh" using groupByShard_grouped [of st codes] gs by (auto simp: grouped_def)
  note r = reassign_groups [OF assms(1,2) assms(4) [unfolded ReassignLinks_def] sh, unfolded all]
  then show "store_ok tabs st'" "st_ring st' = st_ring st"
    "\<exists>S. S \<subseteq> set codes \<and> (e = None \<longrightarrow> S = set codes) \<and> stored tabs st' = moves u S (stored tabs st)" by blast+
qed

lemma SetClicks_keeps:
  assumes pg: "pg_ok srv tabs" and "SetClicks srv totals st = (e, st')"
  shows "st_ring st' = st_ring st \<and> stored tabs st' = stored tabs st \<and> (store_ok tabs st \<longrightarrow> store_ok tabs st')"
  using assms(2)
proof (induction totals arbitrary: st)
  case (Cons t totals)
  obtain c n where t: "t = (c, n)" by (cases t)
  let ?d = "DropPending c st" and ?q = "Set_clicks (shardTable (ShardFor st c)) c n"
  have d: "reads tabs st ?d" by (simp add: reads_def DropPending_def)
  obtain r s where run: "run_sql srv ?q ?d = (r, s)" by (cases "run_sql srv ?q ?d")
  have ring: "st_ring s = st_ring ?d" by (rule run_sql_keeps [OF run])
  have step: "stored tabs s = stored tabs ?d \<and> (store_ok tabs ?d \<longrightarrow> store_ok tabs s)"
  proof (cases r)
    case (Inl err)
    then have "reads tabs ?d s" using ring run_sql_error [OF pg run [unfolded Inl]] by (simp add: reads_def)
    then show ?thesis using reads_store [of tabs ?d s] by simp
  next
    case (Inr rep)
    have T: "tabs (db s) = update_rows (\<lambda>l. l_Code l \<in> {c}) (\<lambda>l. l\<lparr>l_Clicks := n\<rparr>) (shardTable (ShardFor st c)) (tabs (db ?d))"
      using run_sql_reply [OF pg run [unfolded Inr]] by simp
    note row = row_of_updated [OF T ring, simplified]
    have sh: "ShardFor ?d = ShardFor st" using reads_store(3) [OF d] .
    have "stored tabs s x = stored tabs ?d x" for x
      using row(1) [of x] by (cases "row_of tabs ?d x") (auto simp: stored_def sh)
    then show ?thesis using store_ok_codes [of tabs s ?d] row(2) ring by (auto simp: fun_eq_iff sh)
  qed
  show ?case
  proof (cases r)
    case (Inl err)
    then show ?thesis using Cons.prems run t step ring reads_store [OF d] d by (auto simp: reads_def)
  next
    case (Inr rep)
    then have "SetClicks srv totals s = (e, st')" using Cons.prems run t by simp
    from Cons.IH [OF this] step ring reads_store [OF d] d show ?thesis by (auto simp: reads_def)
  qed
qed simp

section \<open>The steps of the seeding\<close>

text \<open>
  What holds throughout: the cache may be behind only on the codes in \<open>S\<close>, every link that was stored is still
  stored with at most another owner, and the benchmark targets are stored.
\<close>

definition kept :: "(string \<Rightarrow> cached_link option) \<Rightarrow> (string \<Rightarrow> cached_link option) \<Rightarrow> bool" where
  "kept rows rows' \<longleftrightarrow> (\<forall>c cl. rows c = Some cl \<longrightarrow> (\<exists>u. rows' c = Some (cl\<lparr>c_UserID := u\<rparr>)))"

definition seeding ::
  "('r, 'db, 'u, 'a, 'p, 'i) ext \<Rightarrow> ('db \<Rightarrow> tables) \<Rightarrow> ('r \<Rightarrow> string \<rightharpoonup> string) \<Rightarrow> string set \<Rightarrow> (string \<Rightarrow> cached_link option)
     \<Rightarrow> ('r, 'db, 'p) app \<Rightarrow> bool" where
  "seeding X tabs live S rows a \<longleftrightarrow> bloom_ok (a_bloom a) \<and> store_ok tabs (a_store a)
     \<and> agrees_off S (x_json X) (live (rdb (a_cache a))) (stored tabs (a_store a)) \<and> S \<subseteq> dom (stored tabs (a_store a))
     \<and> kept rows (stored tabs (a_store a)) \<and> set (benchLinks a) \<subseteq> dom (stored tabs (a_store a))"

lemma agrees_off_moves: "agrees_off S J m rows \<Longrightarrow> agrees_off (S \<union> R) J m (moves u R rows)"
  by (auto simp: agrees_off_def moves_def option.map_comp comp_def)

lemma agrees_off_insert: "agrees_off S J m rows \<Longrightarrow> S \<subseteq> dom rows \<Longrightarrow> rows c = None \<Longrightarrow> agrees_off S J m (rows(c \<mapsto> cl))"
  unfolding agrees_off_def by (metis domIff fun_upd_apply map_option_is_None option.distinct(1) subsetD)

lemma kept_refl: "kept rows rows"
proof -
  have "cl\<lparr>c_UserID := c_UserID cl\<rparr> = cl" for cl :: cached_link by simp
  then show ?thesis unfolding kept_def by metis
qed

lemma kept_trans: "kept r s \<Longrightarrow> kept s t \<Longrightarrow> kept r t"
  unfolding kept_def
proof (intro allI impI)
  fix c cl
  assume rs: "\<forall>c cl. r c = Some cl \<longrightarrow> (\<exists>u. s c = Some (cl\<lparr>c_UserID := u\<rparr>))"
    and st: "\<forall>c cl. s c = Some cl \<longrightarrow> (\<exists>u. t c = Some (cl\<lparr>c_UserID := u\<rparr>))" and r: "r c = Some cl"
  from rs r obtain u where "s c = Some (cl\<lparr>c_UserID := u\<rparr>)" by blast
  with st obtain v where "t c = Some (cl\<lparr>c_UserID := u\<rparr>\<lparr>c_UserID := v\<rparr>)" by blast
  then show "\<exists>u. t c = Some (cl\<lparr>c_UserID := u\<rparr>)" by auto
qed

lemma kept_moves: "kept rows (moves u S rows)"
  unfolding kept_def
proof (intro allI impI)
  fix c cl assume "rows c = Some cl"
  then have "moves u S rows c = Some (cl\<lparr>c_UserID := if c \<in> S then u else c_UserID cl\<rparr>)" by (simp add: moves_def)
  then show "\<exists>u'. moves u S rows c = Some (cl\<lparr>c_UserID := u'\<rparr>)" by blast
qed

lemma kept_insert: "rows c = None \<Longrightarrow> kept rows (rows(c \<mapsto> cl))"
  using kept_refl [of rows] by (auto simp: kept_def)

lemma kept_dom: "kept rows rows' \<Longrightarrow> dom rows \<subseteq> dom rows'"
  by (auto simp: kept_def dom_def)

lemma moves_dom [simp]: "dom (moves u S rows) = dom rows"
  by (auto simp: moves_def dom_def)

text \<open>The steps that touch no link.\<close>

definition quiet :: "('db \<Rightarrow> tables) \<Rightarrow> ('r, 'db, 'p) app \<Rightarrow> ('r, 'db, 'p) app \<Rightarrow> bool" where
  "quiet tabs a a' \<longleftrightarrow> reads tabs (a_store a) (a_store a') \<and> a_cache a' = a_cache a \<and> a_bloom a' = a_bloom a
     \<and> benchLinks a' = benchLinks a \<and> a_cfg a' = a_cfg a \<and> adminID a' = adminID a"

lemma quiet_seeding: "quiet tabs a a' \<Longrightarrow> seeding X tabs live S rows a' = seeding X tabs live S rows a"
  using reads_store [of tabs "a_store a" "a_store a'"] by (auto simp: quiet_def seeding_def)

lemma quiet_reads: "reads tabs (a_store a) st \<Longrightarrow> quiet tabs a (a\<lparr>a_store := st\<rparr>)"
  by (simp add: quiet_def)

lemma quiet_trans: "quiet tabs a b \<Longrightarrow> quiet tabs b c \<Longrightarrow> quiet tabs a c"
  by (auto simp: quiet_def intro: reads_trans)

lemma quiet_simps [simp]:
  "quiet tabs a a" "quiet tabs a (b\<lparr>a_ids := sf\<rparr>) = quiet tabs a b" "quiet tabs a (b\<lparr>demoUserID := u\<rparr>) = quiet tabs a b"
  by (simp_all add: quiet_def)

lemma createUser_quiet:
  assumes "pg_ok (x_pg X) tabs" "createUser X A em pw nm rl salt clock now a = Some (r, a')"
  shows "quiet tabs a a'"
  using assms(2) exec_only_reads [OF assms(1)]
  by (auto simp: createUser_def Let_def InsertUser_def quiet_def split: sum.splits option.splits prod.splits)

lemma seedAdmin_quiet:
  assumes pg: "pg_ok (x_pg X) tabs" and run: "seedAdmin X A salt clock now a = Some (r, a')"
  shows "quiet tabs a a'"
proof -
  let ?get = "GetUserByEmail (x_pg X) (x_lower X) (cfg_AdminEmail (a_cfg a)) (a_store a)"
  obtain found st where get: "?get = (found, st)" by (cases ?get)
  have q: "quiet tabs a (a\<lparr>a_store := st\<rparr>)" by (rule quiet_reads [OF GetUserByEmail_reads [OF pg get]])
  show ?thesis
  proof (cases found)
    case (Inl e)
    then show ?thesis using run get q createUser_quiet [OF pg] quiet_trans by (fastforce simp: seedAdmin_def Let_def)
  next
    case (Inr uh)
    obtain u h where uh: "uh = (u, h)" by (cases uh)
    have set: "quiet tabs a (a\<lparr>a_store := st2\<rparr>)" if "SetPassword (x_pg X) i p st = (err, st2)" for err st2 i p
      using exec_only_reads [OF pg that [unfolded SetPassword_def]] GetUserByEmail_reads [OF pg get] reads_trans quiet_reads by fastforce
    show ?thesis using run get q Inr uh set
      by (auto simp: seedAdmin_def Let_def split: if_splits sum.splits option.splits prod.splits)
  qed
qed

lemma seedDemoUser_quiet:
  assumes pg: "pg_ok (x_pg X) tabs" and run: "seedDemoUser X A r1 r2 salt clock now a = Some (r, a')"
  shows "quiet tabs a a'"
proof -
  let ?get = "GetUserByEmail (x_pg X) (x_lower X) (cfg_DemoEmail (a_cfg a)) (a_store a)"
  obtain found st where get: "?get = (found, st)" by (cases ?get)
  have q: "quiet tabs a (a\<lparr>a_store := st\<rparr>)" by (rule quiet_reads [OF GetUserByEmail_reads [OF pg get]])
  show ?thesis
  proof (cases found)
    case (Inl e)
    then show ?thesis using run get q createUser_quiet [OF pg] quiet_trans
      by (cases "e = Err_no_rows") (fastforce simp: seedDemoUser_def Let_def split: go_error.splits)+
  next
    case (Inr uh)
    obtain u h where uh: "uh = (u, h)" by (cases uh)
    have set: "quiet tabs a (a\<lparr>a_store := st2\<rparr>)" if "SetPasswordAndRole (x_pg X) i p ro st = (err, st2)" for err st2 i p ro
      using exec_only_reads [OF pg that [unfolded SetPasswordAndRole_def]] GetUserByEmail_reads [OF pg get] reads_trans quiet_reads by fastforce
    show ?thesis using run get q Inr uh set
      by (auto simp: seedDemoUser_def Let_def split: sum.splits option.splits prod.splits)
  qed
qed

lemma seed_owner_quiet:
  assumes pg: "pg_ok (x_pg X) tabs" and run: "seed_owner X A I admin a = Some (r, a')"
  shows "quiet tabs a a'"
    and "r = Inr (own, others) \<Longrightarrow> u_ID own = (if cfg_DemoMode (a_cfg a') then demoUserID a' else u_ID admin)"
proof -
  show q: "quiet tabs a a'"
    using run seedDemoUser_quiet [OF pg] quiet_reads [OF GetUserByEmail_reads [OF pg]]
    by (auto simp: seed_owner_def Let_def split: if_splits option.splits prod.splits sum.splits)
  then have c: "a_cfg a' = a_cfg a" by (simp add: quiet_def)
  show "u_ID own = (if cfg_DemoMode (a_cfg a') then demoUserID a' else u_ID admin)" if "r = Inr (own, others)"
    using run that unfolding c by (auto simp: seed_owner_def Let_def split: if_splits option.splits prod.splits sum.splits)
qed

text \<open>The steps that store or cache a link.\<close>

lemma seeding_learn:
  assumes world: "world_ok X tabs live" and inv: "seeding X tabs live S rows a"
    and l: "stored tabs (a_store a) (l_Code l) = Some (toCached l)" and add: "bloom_add (l_Code l) a = Some a1"
  shows "seeding X tabs live (S - {l_Code l}) rows (a1\<lparr>a_cache := Cache.Set (x_redis X) (x_json X) l (a_cache a1)\<rparr>)"
    and "a_store a1 = a_store a" "benchLinks a1 = benchLinks a" "demoCodes a1 = demoCodes a"
proof -
  have R: "redis_serves (x_redis X) live" using world by (simp add: world_ok_def)
  have "bloom_ok (a_bloom a)" using inv by (simp add: seeding_def)
  from bloom_add_ok [OF this, of "l_Code l"] add obtain b where b: "a1 = a\<lparr>a_bloom := b\<rparr>" "bloom_ok b" by auto
  then show "a_store a1 = a_store a" "benchLinks a1 = benchLinks a" "demoCodes a1 = demoCodes a" by simp_all
  show "seeding X tabs live (S - {l_Code l}) rows (a1\<lparr>a_cache := Cache.Set (x_redis X) (x_json X) l (a_cache a1)\<rparr>)"
    using inv b agrees_off_put [where c = "l_Code l", where cl = "toCached l", where rows = "stored tabs (a_store a)", OF _ l] by (auto simp: seeding_def Set_live [OF R] simp del: fun_upd_apply)
qed

lemma seeding_insert:
  assumes world: "world_ok X tabs live" and inv: "seeding X tabs live S rows a"
    and ins: "InsertLink (x_pg X) l0 (a_store a) = ((e, l), st)"
  shows "seeding X tabs live S rows (a\<lparr>a_ids := sf, a_store := st\<rparr>)" "stored tabs (a_store a) \<subseteq>\<^sub>m stored tabs st"
    and "e = None \<Longrightarrow> stored tabs st (l_Code l) = Some (toCached l)" "l_UserID l = l_UserID l0"
proof -
  have pg: "pg_ok (x_pg X) tabs" and ok: "store_ok tabs (a_store a)" using world inv by (simp_all add: world_ok_def seeding_def)
  note q = InsertLink_grows [OF pg ok ins]
  let ?old = "stored tabs (a_store a)"
  have "?old \<subseteq>\<^sub>m stored tabs st \<and> kept ?old (stored tabs st)
      \<and> agrees_off S (x_json X) (live (rdb (a_cache a))) (stored tabs st)"
  proof (cases e)
    case None
    note n = q(4) [OF None]
    have "agrees_off S (x_json X) (live (rdb (a_cache a))) (?old(l_Code l0 \<mapsto> toCached l))"
      by (rule agrees_off_insert) (use inv n in \<open>auto simp: seeding_def\<close>)
    then show ?thesis using n kept_insert [of ?old] by (auto simp: map_le_def dom_def)
  next
    case (Some err)
    then show ?thesis using q(5) inv kept_refl by (simp add: seeding_def)
  qed
  moreover from this have "dom ?old \<subseteq> dom (stored tabs st)" using map_le_implies_dom_le by blast
  ultimately show "seeding X tabs live S rows (a\<lparr>a_ids := sf, a_store := st\<rparr>)" "?old \<subseteq>\<^sub>m stored tabs st"
    using inv q(1) kept_trans [of rows ?old "stored tabs st"] subset_trans [of _ "dom ?old" "dom (stored tabs st)"]
    by (simp_all add: seeding_def)
  show "stored tabs st (l_Code l) = Some (toCached l)" if "e = None" using q(3,4) that by auto
  show "l_UserID l = l_UserID l0" using q(3) by simp
qed

lemma keep_bench_link_seeding:
  assumes "world_ok X tabs live" "seeding X tabs live {} rows a" "stored tabs (a_store a) (l_Code l) = Some (toCached l)"
    and "keep_bench_link X l a = Some a'"
  shows "seeding X tabs live {} rows a'" "adminID a' = adminID a"
proof -
  obtain a1 where a1: "bloom_add (l_Code l) a = Some a1"
    "a' = a1\<lparr>a_cache := Cache.Set (x_redis X) (x_json X) l (a_cache a1), benchLinks := benchLinks a1 @ [l_Code l]\<rparr>"
    using assms(4) by (auto simp: keep_bench_link_def)
  show "seeding X tabs live {} rows a'" using seeding_learn [OF assms(1-3) a1(1)] assms(3) by (auto simp: a1(2) seeding_def)
  show "adminID a' = adminID a" using a1 by (auto simp: bloom_add_def)
qed

lemma found_stored:
  assumes "pg_ok (x_pg X) tabs" "GetByCode (x_pg X) code st = (Inr l, st')"
  shows "stored tabs st' (l_Code l) = Some (toCached l)"
proof -
  from GetByCode_row(4) [OF assms refl] obtain row where row: "row_of tabs st code = Some row" "l = scanLink (ShardFor st code) row" by blast
  then show ?thesis using reads_store(1) [OF GetByCode_reads [OF assms]] row_of_code [OF row(1)]
    by (simp add: stored_def) (simp add: scanLink_def)
qed

lemma bench_link_iteration:
  assumes world: "world_ok X tabs live" and inv: "seeding X tabs live {} rows a"
    and run: "bench_links_loop X admin now (i # is') clock a = Some a'"
  shows "\<exists>a1 clock1. seeding X tabs live {} rows a1 \<and> adminID a1 = adminID a \<and> bench_links_loop X admin now is' clock1 a1 = Some a'"
proof -
  have pg: "pg_ok (x_pg X) tabs" using world by (simp add: world_ok_def)
  let ?get = "GetByCode (x_pg X) (bench_code i) (a_store a)"
  obtain found st where get: "?get = (found, st)" by (cases ?get)
  let ?a1 = "a\<lparr>a_store := st\<rparr>"
  have inv1: "seeding X tabs live {} rows ?a1" using quiet_seeding [OF quiet_reads [OF GetByCode_reads [OF pg get]]] inv by blast
  have keep: ?thesis if b: "seeding X tabs live {} rows b" "adminID b = adminID a" "stored tabs (a_store b) (l_Code l) = Some (toCached l)"
    "Option.bind (keep_bench_link X l b) (bench_links_loop X admin now is' clock1) = Some a'" for b l clock1
  proof -
    obtain c where c: "keep_bench_link X l b = Some c" "bench_links_loop X admin now is' clock1 c = Some a'"
      using b(4) by (auto simp: Option.bind_eq_Some_conv)
    then show ?thesis using keep_bench_link_seeding [OF world b(1,3) c(1)] b(2) by auto
  qed
  show ?thesis
  proof (cases found)
    case (Inr l)
    have "bench_links_loop X admin now is' clock ?a1 = Some a' \<or> Option.bind (keep_bench_link X l ?a1) (bench_links_loop X admin now is' clock) = Some a'"
      using run get Inr by (simp add: Let_def split: if_splits)
    then show ?thesis using keep [OF inv1 _ _, of l clock] inv1 found_stored [OF pg get [unfolded Inr]] by force
  next
    case (Inl e)
    show ?thesis
    proof (cases "e = Err_no_rows")
      case True
      obtain ident sf clock' where nx: "Next (a_ids ?a1) clock = Some (ident, sf, clock')"
        using run get Inl True by (cases "Next (a_ids ?a1) clock") auto
      let ?ins = "InsertLink (x_pg X) (bench_link ident i admin (now i)) (a_store ?a1)"
      obtain err l st2 where ins: "?ins = ((err, l), st2)" by (cases ?ins) auto
      note s = seeding_insert [OF world inv1 ins]
      show ?thesis using run get Inl True nx ins s(1) [of sf] keep [OF s(1) [of sf], of l clock'] s(3) by (cases err) auto
    next
      case False
      then show ?thesis using run get Inl inv1 by (cases e) auto
    qed
  qed
qed

lemma bench_links_loop_seeding:
  assumes world: "world_ok X tabs live"
  shows "seeding X tabs live {} rows a \<Longrightarrow> bench_links_loop X admin now is' clock a = Some a'
    \<Longrightarrow> seeding X tabs live {} rows a' \<and> adminID a' = adminID a"
proof (induction is' arbitrary: clock a)
  case (Cons i is')
  from bench_link_iteration [OF world Cons.prems] Cons.IH show ?case by metis
qed simp

lemma seedBenchLinks_seeding:
  assumes "world_ok X tabs live" "seeding X tabs live {} rows a" "seedBenchLinks X admin now clock a = Some a'"
  shows "seeding X tabs live {} rows a' \<and> adminID a' = adminID a"
proof -
  let ?a = "a\<lparr>benchLinks := []\<rparr>"
  have inv: "seeding X tabs live {} rows ?a" using assms(2) by (simp add: seeding_def)
  have "bench_links_loop X admin now [1..benchLinkCount] clock ?a = Some a'" using assms(3) unfolding seedBenchLinks_def .
  from bench_links_loop_seeding [OF assms(1) inv this] show ?thesis by simp
qed

subsection \<open>The demonstration links\<close>

lemma list_all_users_stored:
  assumes pg: "pg_ok (x_pg X) tabs" and srt: "\<forall>ls. set (x_sort X ls) \<subseteq> set ls"
  shows "list_all_users X us out a = (r, a') \<Longrightarrow> store_ok tabs (a_store a)
    \<Longrightarrow> quiet tabs a a' \<and> demoUserID a' = demoUserID a \<and> (\<forall>ls l. r = Inr ls \<and> l \<in> set ls \<longrightarrow> l \<in> set out \<or> stored tabs (a_store a) (l_Code l) = Some (toCached l))"
proof (induction us arbitrary: out a)
  case (Cons u us)
  let ?q = "ListByUser (x_pg X) (x_sort X) u 500 (a_store a)"
  obtain found st where q: "?q = (found, st)" by (cases ?q)
  note ls = ListByUser_stored [OF pg srt q]
  have qt: "quiet tabs a (a\<lparr>a_store := st\<rparr>)" by (rule quiet_reads [OF ls(1)])
  show ?case
  proof (cases found)
    case (Inl e)
    then show ?thesis using Cons.prems(1) q qt by auto
  next
    case (Inr more')
    have rest: "list_all_users X us (out @ more') (a\<lparr>a_store := st\<rparr>) = (r, a')" using Cons.prems(1) q Inr by simp
    have "store_ok tabs (a_store (a\<lparr>a_store := st\<rparr>))" using reads_store(2) [OF ls(1)] Cons.prems(2) by simp
    from Cons.IH [OF rest this] qt reads_store(1) [OF ls(1)] ls(2) [OF Cons.prems(2) Inr] show ?thesis
      using quiet_trans by fastforce
  qed
qed auto

text \<open>A link as it will be stored once the owner of the codes in \<open>mv\<close> is \<open>own\<close>.\<close>

definition will_store :: "int \<Rightarrow> string list \<Rightarrow> (string \<Rightarrow> cached_link option) \<Rightarrow> link \<Rightarrow> bool" where
  "will_store own mv rows l \<longleftrightarrow> l_UserID l = own \<and> moves own (set mv) rows (l_Code l) = Some (toCached l)"

lemma will_store_owned: "rows (l_Code l) = Some (toCached l) \<Longrightarrow> l_UserID l = own \<Longrightarrow> will_store own mv rows l"
  by (auto simp: will_store_def moves_def toCached_def)

lemma will_store_moved:
  "rows (l_Code l) = Some (toCached l) \<Longrightarrow> l_Code l \<in> set mv \<Longrightarrow> will_store own mv rows (l\<lparr>l_UserID := own\<rparr>)"
  by (simp add: will_store_def moves_def)

lemma will_store_more:
  assumes "will_store own mv rows l"
  shows "will_store own (mv @ [c]) rows l"
proof -
  have "moves own (set (mv @ [c])) rows = moves own {c} (moves own (set mv) rows)" by (simp add: moves_union insert_commute)
  then show ?thesis using assms will_store_owned [of "moves own (set mv) rows" l own "[c]"] by (simp add: will_store_def)
qed

lemma will_store_le: "will_store own mv rows l \<Longrightarrow> rows \<subseteq>\<^sub>m rows' \<Longrightarrow> will_store own mv rows' l"
  by (auto simp: will_store_def moves_def map_le_def dom_def)

lemma ensure_loop_seeding:
  assumes world: "world_ok X tabs live"
  shows "ensure_loop X own existing now es clock links mv a = Some (links', mv', a') \<Longrightarrow> seeding X tabs live {} rows a
    \<Longrightarrow> \<forall>x\<in>set existing. stored tabs (a_store a) (l_Code x) = Some (toCached x)
    \<Longrightarrow> \<forall>l\<in>set links. will_store own mv (stored tabs (a_store a)) l \<Longrightarrow> set mv \<subseteq> l_Code ` set links
    \<Longrightarrow> seeding X tabs live {} rows a' \<and> (\<forall>l\<in>set links'. will_store own mv' (stored tabs (a_store a')) l) \<and> set mv' \<subseteq> l_Code ` set links'
       \<and> adminID a' = adminID a \<and> demoUserID a' = demoUserID a \<and> a_cfg a' = a_cfg a"
proof (induction es arbitrary: clock links mv a)
  case (Cons e es)
  obtain i sl where e: "e = (i, sl)" by (cases e)
  show ?case
  proof (cases "findSeed sl existing")
    case (Some l)
    have l: "stored tabs (a_store a) (l_Code l) = Some (toCached l)" using findSeed_found [OF Some] Cons.prems(3) by blast
    show ?thesis
    proof (cases "l_UserID l = own")
      case True
      show ?thesis by (rule Cons.IH [of clock "links @ [l]" mv a])
          (use Cons.prems e Some True will_store_owned [of "stored tabs (a_store a)" l own mv, OF l] in auto)
    next
      case False
      show ?thesis by (rule Cons.IH [of clock "links @ [l\<lparr>l_UserID := own\<rparr>]" "mv @ [l_Code l]" a])
          (use Cons.prems e Some False will_store_moved [of "stored tabs (a_store a)" l "mv @ [l_Code l]" own, OF l] will_store_more in auto)
    qed
  next
    case None
    obtain ident sf clock' where nx: "Next (a_ids a) clock = Some (ident, sf, clock')"
      using Cons.prems(1) e None by (cases "Next (a_ids a) clock") auto
    obtain l0 where l0: "newSeedLink ident sl own i (fst (now i)) (snd (now i)) = Some l0"
      using Cons.prems(1) e None nx by (cases "newSeedLink ident sl own i (fst (now i)) (snd (now i))") auto
    have own: "l_UserID l0 = own" using l0 by (auto simp: newSeedLink_def)
    let ?ins = "InsertLink (x_pg X) l0 (a_store a)"
    obtain err l st where ins: "?ins = ((err, l), st)" by (cases ?ins) auto
    note s = seeding_insert [OF world Cons.prems(2) ins]
    let ?a1 = "a\<lparr>a_ids := sf, a_store := st\<rparr>" and ?links = "case err of None \<Rightarrow> links @ [l] | Some _ \<Rightarrow> links"
    have rest: "ensure_loop X own existing now es clock' ?links mv ?a1 = Some (links', mv', a')"
      using Cons.prems(1) e None nx l0 ins by (auto split: option.splits)
    have ex: "\<forall>x\<in>set existing. stored tabs (a_store ?a1) (l_Code x) = Some (toCached x)"
      using Cons.prems(3) s(2) by (simp add: map_le_def dom_def)
    have "\<forall>l\<in>set links. will_store own mv (stored tabs st) l" using Cons.prems(4) s(2) will_store_le by blast
    then have ws: "\<forall>l\<in>set ?links. will_store own mv (stored tabs (a_store ?a1)) l"
      using will_store_owned [of "stored tabs st" l own mv, OF s(3)] s(4) own by (auto split: option.split)
    have "set mv \<subseteq> l_Code ` set ?links" using Cons.prems(5) by (auto split: option.split)
    from Cons.IH [OF rest s(1) ex ws this] show ?thesis by simp
  qed
qed simp

lemma reassign_seeding:
  assumes pg: "pg_ok (x_pg X) tabs" and ord: "permutes_map order" and inv: "seeding X tabs live {} rows a"
    and links: "\<forall>l\<in>set links. will_store own mv (stored tabs (a_store a)) l" "set mv \<subseteq> l_Code ` set links"
    and re: "ReassignLinks (x_pg X) order mv own (a_store a) = (err, st)"
  shows "\<exists>S. seeding X tabs live S rows (a\<lparr>a_store := st\<rparr>) \<and> (err = None \<longrightarrow> S \<subseteq> l_Code ` set links
    \<and> (\<forall>l\<in>set links. l_UserID l = own \<and> stored tabs st (l_Code l) = Some (toCached l)))"
proof -
  let ?old = "stored tabs (a_store a)"
  have ok: "store_ok tabs (a_store a)" using inv by (simp add: seeding_def)
  note m = ReassignLinks_moves [OF pg ok ord re]
  from m(3) obtain S where S: "S \<subseteq> set mv" "err = None \<longrightarrow> S = set mv" "stored tabs st = moves own S ?old" by blast
  have "will_store own mv ?old x \<Longrightarrow> l_Code x \<in> dom ?old" for x by (auto simp: will_store_def moves_def)
  then have "set mv \<subseteq> dom ?old" using links by blast
  then have dom: "S \<subseteq> dom ?old" using S(1) by blast
  have "seeding X tabs live S rows (a\<lparr>a_store := st\<rparr>)"
    using inv m(1) dom agrees_off_moves [of "{}" "x_json X" _ ?old S own] kept_trans [OF _ kept_moves [of ?old own S], of rows]
    unfolding seeding_def by (simp add: S(3))
  then show ?thesis using links S by (intro exI [of _ S]) (auto simp: will_store_def)
qed

lemma ensureSeedLinks_seeding:
  assumes world: "world_ok X tabs live" and srt: "\<forall>ls. set (x_sort X ls) \<subseteq> set ls" and ord: "permutes_map order"
    and run: "ensureSeedLinks X order own others now clock a = Some (r, a')" and inv: "seeding X tabs live {} rows a"
  shows "\<exists>S. seeding X tabs live S rows a' \<and> adminID a' = adminID a \<and> demoUserID a' = demoUserID a \<and> a_cfg a' = a_cfg a
    \<and> (\<forall>links. r = Inr links \<longrightarrow> S \<subseteq> l_Code ` set links
         \<and> (\<forall>l\<in>set links. l_UserID l = own \<and> stored tabs (a_store a') (l_Code l) = Some (toCached l)))"
proof -
  have pg: "pg_ok (x_pg X) tabs" using world by (simp add: world_ok_def)
  let ?lst = "list_all_users X (own # others) [] a"
  obtain found a1 where lst: "?lst = (found, a1)" by (cases ?lst)
  have "store_ok tabs (a_store a)" using inv by (simp add: seeding_def)
  note q = list_all_users_stored [OF pg srt lst this]
  have inv1: "seeding X tabs live {} rows a1" and same: "stored tabs (a_store a1) = stored tabs (a_store a)"
    using q quiet_seeding [of tabs a a1] inv reads_store(1) by (auto simp: quiet_def)
  have ids: "adminID a1 = adminID a" "a_cfg a1 = a_cfg a" "demoUserID a1 = demoUserID a" using q by (simp_all add: quiet_def)
  show ?thesis
  proof (cases found)
    case (Inl e)
    then have "r = Inl e" "a' = a1" using run lst by (simp_all add: ensureSeedLinks_def del: list_all_users.simps)
    then show ?thesis using inv1 ids by auto
  next
    case (Inr existing)
    let ?loop = "ensure_loop X own existing now (List.enumerate 0 seedLinks) clock [] [] a1"
    obtain links mv a2 where loop: "?loop = Some (links, mv, a2)"
      using run lst Inr by (cases ?loop) (auto simp: ensureSeedLinks_def simp del: list_all_users.simps)
    have "\<forall>x\<in>set existing. stored tabs (a_store a1) (l_Code x) = Some (toCached x)" using q Inr same by auto
    note l = ensure_loop_seeding [OF world loop inv1 this, simplified]
    show ?thesis
    proof (cases "mv = []")
      case True
      then have "r = Inr links" "a' = a2" using run lst Inr loop by (simp_all add: ensureSeedLinks_def del: list_all_users.simps)
      then show ?thesis using l ids True by (intro exI [of _ "{}"]) (auto simp: will_store_def)
    next
      case False
      let ?re = "ReassignLinks (x_pg X) order mv own (a_store a2)"
      obtain err st where re: "?re = (err, st)" by (cases ?re)
      have a': "a' = a2\<lparr>a_store := st\<rparr>" "r = (case err of Some e \<Rightarrow> Inl e | None \<Rightarrow> Inr links)"
        using run lst Inr loop False re by (auto simp: ensureSeedLinks_def Let_def simp del: list_all_users.simps split: option.splits)
      have "seeding X tabs live {} rows a2" "\<forall>l\<in>set links. will_store own mv (stored tabs (a_store a2)) l" "set mv \<subseteq> l_Code ` set links"
        using l by blast+
      from reassign_seeding [OF pg ord this re] show ?thesis using l ids by (auto simp: a' split: option.splits)
    qed
  qed
qed

subsection \<open>The whole seeding\<close>

lemma seed_cache_seeding:
  assumes world: "world_ok X tabs live"
  shows "seed_cache X ls a = Some a' \<Longrightarrow> seeding X tabs live S rows a
    \<Longrightarrow> \<forall>l\<in>set ls. stored tabs (a_store a) (l_Code l) = Some (toCached l)
    \<Longrightarrow> seeding X tabs live (S - l_Code ` set ls) rows a' \<and> a_store a' = a_store a
       \<and> dom (map_of (demoCodes a')) = dom (map_of (demoCodes a)) \<union> l_Code ` set ls
       \<and> adminID a' = adminID a \<and> demoUserID a' = demoUserID a \<and> a_cfg a' = a_cfg a"
proof (induction ls arbitrary: a S)
  case (Cons l ls)
  let ?a0 = "a\<lparr>demoCodes := mput (l_Code l) True (demoCodes a)\<rparr>"
  obtain a1 where a1: "bloom_add (l_Code l) ?a0 = Some a1" using Cons.prems(1) by (auto split: option.splits)
  let ?a2 = "a1\<lparr>a_cache := Cache.Set (x_redis X) (x_json X) l (a_cache a1)\<rparr>"
  have "seeding X tabs live S rows ?a0" using Cons.prems(2) by (simp add: seeding_def)
  note s = seeding_learn [OF world this _ a1]
  have k: "adminID a1 = adminID a \<and> demoUserID a1 = demoUserID a \<and> a_cfg a1 = a_cfg a" using a1 by (auto simp: bloom_add_def)
  have inv: "seeding X tabs live (S - {l_Code l}) rows ?a2" using s(1) Cons.prems(3) by simp
  have st: "a_store ?a2 = a_store a" "demoCodes ?a2 = mput (l_Code l) True (demoCodes a)" using s(2,4) Cons.prems(3) by simp_all
  have rest: "seed_cache X ls ?a2 = Some a'" using Cons.prems(1) a1 by simp
  have "S - {l_Code l} - l_Code ` set ls = S - l_Code ` set (l # ls)" by auto
  with Cons.IH [OF rest inv] st k Cons.prems(3) show ?case by auto
qed simp

lemma seed_history_seeding:
  assumes "pg_ok (x_pg X) tabs" "seed_history X I links a = Some a'" "seeding X tabs live S rows a"
  shows "seeding X tabs live S rows a' \<and> stored tabs (a_store a') = stored tabs (a_store a) \<and> demoCodes a' = demoCodes a
    \<and> adminID a' = adminID a \<and> demoUserID a' = demoUserID a \<and> a_cfg a' = a_cfg a"
proof (cases "a' = a")
  case False
  then obtain s1 totals err st where a': "SetClicks (x_pg X) totals (a_store a) = (err, st)" "a' = a\<lparr>a_olap := s1, a_store := st\<rparr>"
    using assms(2) by (auto simp: seed_history_def Let_def split: if_splits option.splits prod.splits)
  then show ?thesis using SetClicks_keeps [OF assms(1) a'(1)] assms(3) by (simp add: seeding_def)
qed (use assms(3) in simp)

definition demo_owner :: "('r, 'db, 'p) app \<Rightarrow> int" where
  "demo_owner a = (if cfg_DemoMode (a_cfg a) then demoUserID a else adminID a)"

text \<open>The last steps of \<^verbatim>\<open>seedDemo\<close>, for the owner chosen before.\<close>

lemma seed_links_seeding:
  assumes world: "world_ok X tabs live" and srt: "\<forall>ls. set (x_sort X ls) \<subseteq> set ls" and ord: "permutes_map (si_order I)"
    and inv: "seeding X tabs live {} rows a" and own: "own = demo_owner a"
    and run: "(case ensureSeedLinks X (si_order I) own others (si_now_links I) (si_clock_links I) a of
          None \<Rightarrow> None
        | Some (Inl e, a4) \<Rightarrow> Some (Some e, a4)
        | Some (Inr links, a4) \<Rightarrow>
       (case seed_cache X links (a4\<lparr>demoCodes := []\<rparr>) of
          None \<Rightarrow> None
        | Some a5 \<Rightarrow> map_option (Pair None) (seed_history X I links a5))) = Some (err, a')"
  shows "\<exists>S. seeding X tabs live S rows a' \<and> (err = None \<longrightarrow> S = {}
    \<and> (\<forall>c\<in>dom (map_of (demoCodes a')). \<exists>cl. stored tabs (a_store a') c = Some cl \<and> c_UserID cl = demo_owner a'))"
proof -
  have pg: "pg_ok (x_pg X) tabs" using world by (simp add: world_ok_def)
  let ?ens = "ensureSeedLinks X (si_order I) own others (si_now_links I) (si_clock_links I) a"
  obtain r a4 where r: "?ens = Some (r, a4)" using run by (auto split: option.splits)
  obtain S where S: "seeding X tabs live S rows a4" "adminID a4 = adminID a \<and> demoUserID a4 = demoUserID a \<and> a_cfg a4 = a_cfg a"
    "\<And>links. r = Inr links \<Longrightarrow> S \<subseteq> l_Code ` set links
      \<and> (\<forall>l\<in>set links. l_UserID l = own \<and> stored tabs (a_store a4) (l_Code l) = Some (toCached l))"
    using ensureSeedLinks_seeding [OF world srt ord r inv] by blast
  show ?thesis
  proof (cases r)
    case (Inl e)
    then show ?thesis using run r S(1) by auto
  next
    case (Inr links)
    let ?a4 = "a4\<lparr>demoCodes := []\<rparr>"
    obtain a5 where a5: "seed_cache X links ?a4 = Some a5" "seed_history X I links a5 = Some a'" "err = None"
      using run r Inr by (auto split: option.splits)
    have inv4: "seeding X tabs live S rows ?a4" using S(1) by (simp add: seeding_def)
    note l = S(3) [OF Inr]
    then have off: "S - l_Code ` set links = {}" and l4: "\<forall>l\<in>set links. stored tabs (a_store ?a4) (l_Code l) = Some (toCached l)" by auto
    note c = seed_cache_seeding [OF world a5(1) inv4 l4, unfolded off]
    note h = seed_history_seeding [OF pg a5(2) c [THEN conjunct1]]
    have dom: "dom (map_of (demoCodes a')) = l_Code ` set links" and st: "stored tabs (a_store a') = stored tabs (a_store a4)"
      and ow: "demo_owner a' = own"
      using c h S(2) own by (simp_all add: demo_owner_def)
    have "\<exists>cl. stored tabs (a_store a') x = Some cl \<and> c_UserID cl = demo_owner a'" if x: "x \<in> dom (map_of (demoCodes a'))" for x
    proof -
      obtain l' where "l' \<in> set links" "x = l_Code l'" using x dom by blast
      then show ?thesis using l unfolding st ow by (auto simp: toCached_def)
    qed
    then show ?thesis using h a5(3) by blast
  qed
qed

lemma seedDemo_seeding:
  assumes world: "world_ok X tabs live" and srt: "\<forall>ls. set (x_sort X ls) \<subseteq> set ls" and ord: "permutes_map (si_order I)"
    and run: "seedDemo X A I a = Some (err, a')" and inv: "seeding X tabs live {} rows a"
  shows "\<exists>S. seeding X tabs live S rows a' \<and> (err = None \<longrightarrow> S = {}
    \<and> (\<forall>c\<in>dom (map_of (demoCodes a')). \<exists>cl. stored tabs (a_store a') c = Some cl \<and> c_UserID cl = demo_owner a'))"
proof -
  have pg: "pg_ok (x_pg X) tabs" using world by (simp add: world_ok_def)
  let ?admin = "seedAdmin X A (fst (si_salt I)) (si_clock_admin I) (si_now I) a"
  obtain r1 a1 where r1: "?admin = Some (r1, a1)" using run by (auto simp: seedDemo_def split: option.splits)
  have inv1: "seeding X tabs live {} rows a1" using quiet_seeding [OF seedAdmin_quiet [OF pg r1]] inv by blast
  show ?thesis
  proof (cases r1)
    case (Inl e)
    then show ?thesis using run r1 inv1 by (auto simp: seedDemo_def)
  next
    case (Inr admin)
    let ?a1 = "a1\<lparr>adminID := u_ID admin\<rparr>"
    let ?bench = "seedBenchLinks X (u_ID admin) (si_now_bench I) (si_clock_bench I) ?a1"
    obtain a2 where a2: "?bench = Some a2" using run r1 Inr by (auto simp: seedDemo_def split: option.splits)
    have "seeding X tabs live {} rows ?a1" using inv1 by (simp add: seeding_def)
    note inv2 = seedBenchLinks_seeding [OF world this a2]
    obtain r3 a3 where r3: "seed_owner X A I admin a2 = Some (r3, a3)"
      using run r1 Inr a2 by (auto simp: seedDemo_def split: option.splits)
    note q3 = seed_owner_quiet [OF pg r3]
    have inv3: "seeding X tabs live {} rows a3" using quiet_seeding [OF q3(1)] inv2 by blast
    have adm: "adminID a3 = u_ID admin" using inv2 q3(1) by (simp add: quiet_def)
    show ?thesis
    proof (cases r3)
      case r3_err: (Inl e)
      have "err = Some e" "a' = a3" using run unfolding seedDemo_def r1 Inr by (simp_all add: a2 r3 r3_err)
      then show ?thesis using inv3 by blast
    next
      case r3_ok: (Inr ow)
      obtain own others where ow: "ow = (own, others)" by (cases ow)
      have "u_ID own = demo_owner a3" using q3(2) r3_ok ow adm by (simp add: demo_owner_def)
      from seed_links_seeding [OF world srt ord inv3 this, of others err a'] show ?thesis
        using run unfolding seedDemo_def r1 Inr by (simp add: a2 r3 r3_ok ow)
    qed
  qed
qed

section \<open>The service after the boot\<close>

lemma boots_seeding: "boots X tabs live a \<Longrightarrow> benchLinks a = [] \<Longrightarrow> seeding X tabs live {} (stored tabs (a_store a)) a"
  by (auto simp: seeding_def boots_iff kept_refl)

lemma seeding_boots: "seeding X tabs live {} rows a \<Longrightarrow> boots X tabs live a"
  by (simp add: seeding_def boots_iff)

lemma sorts_newest_set: "sorts_newest f \<Longrightarrow> \<forall>ls. set (f ls) \<subseteq> set ls"
  unfolding sorts_newest_def by (metis order_refl set_mset_mset)

lemma seeded_warm:
  assumes world: "world_ok X tabs live" and inv: "seeding X tabs live S rows a"
    and codes: "AllCodes (x_pg X) (a_store a) = (Inr ls, st)" "S = {} \<or> length ls \<le> cacheWarmLinks"
  shows "\<exists>a'. warmUp X a = Some a' \<and> coherent X tabs live a' \<and> stored tabs (a_store a') = stored tabs (a_store a)"
proof -
  from inv obtain n vn where "0 < n" "st_ring (a_store a) = NewRing n vn" by (auto simp: seeding_def store_ok_def)
  then show ?thesis using inv by (intro warmUp_refreshes [OF world _ _ _ _ _ _ _ codes]) (auto simp: seeding_def store_ok_def)
qed

interpretation serving: preserved "service_step X live" "\<lambda>a. world_ok X tabs live \<longrightarrow> coherent X tabs live a" for X tabs live
  by unfold_locales (auto intro: service_step_coherent)

lemma service_run_steps: "service_run X live a0 a \<Longrightarrow> \<exists>b. warmUp X a0 = Some b \<and> (service_step X live)\<^sup>*\<^sup>* b a"
  by (induction rule: service_run.induct) (auto intro: rtranclp.rtrancl_into_rtrancl)

lemma seeded_refines:
  assumes "world_ok X tabs live" "sorts_newest (x_sort X)" "permutes_map (si_order I)"
    and "boots X tabs live a0" "benchLinks a0 = []" "seedDemo X A I a0 = Some (err, a1)"
    and "AllCodes (x_pg X) (a_store a1) = (Inr ls, st)" "err = None \<or> length ls \<le> cacheWarmLinks"
    and "service_run X live a1 a" "serve X act r a = Some (w, a')"
  shows "table_spec act r (stored tabs (a_store a)) w (stored tabs (a_store a'))
    \<and> (\<exists>b. load_data X A I a0 = Some b \<and> kept (stored tabs (a_store a0)) (stored tabs (a_store b)))"
proof -
  obtain S where S: "seeding X tabs live S (stored tabs (a_store a0)) a1" "err = None \<longrightarrow> S = {}"
    using seedDemo_seeding [OF assms(1) sorts_newest_set [OF assms(2)] assms(3,6) boots_seeding [OF assms(4,5)]] by blast
  have "S = {} \<or> length ls \<le> cacheWarmLinks" using S(2) assms(8) by blast
  from seeded_warm [OF assms(1) S(1) assms(7) this] obtain b where
    b: "warmUp X a1 = Some b" "coherent X tabs live b" "stored tabs (a_store b) = stored tabs (a_store a1)" by blast
  have "(service_step X live)\<^sup>*\<^sup>* b a" using service_run_steps [OF assms(9)] b(1) by auto
  from serving.run_keeps [OF this, of tabs] b(2) have "coherent X tabs live a" using assms(1) by blast
  then have "table_spec act r (stored tabs (a_store a)) w (stored tabs (a_store a'))"
    using serve_refines [OF assms(1) _ assms(10)] by blast
  moreover have "load_data X A I a0 = Some b" using assms(6) b(1) by (simp add: load_data_def)
  moreover have "kept (stored tabs (a_store a0)) (stored tabs (a_store b))" using S(1) b(3) by (simp add: seeding_def)
  ultimately show ?thesis by blast
qed

subsection \<open>A start over seeded tables\<close>

text \<open>
  One shard that already stores a link for every seed entry, and an account that answers for every email.  The
  server refuses to look up single links, so the benchmark targets are skipped.
\<close>

definition own_links :: "link list" where
  "own_links = map (\<lambda>sl. (bench_link 1 1 7 0)\<lparr>l_Code := if sl_Alias sl = [] then sl_URL sl else sl_Alias sl,
     l_LongURL := sl_URL sl, l_Custom := sl_Alias sl \<noteq> []\<rparr>) seedLinks"

definition own_db :: mem_db where "own_db = ([(''links_s0'', own_links)], [])"

definition boot_pg :: "mem_db pg" where
  "boot_pg q d = (case q of
      Select_user_email _ \<Rightarrow> (Inr (User_rows [(\<lparr>u_ID = 7, u_Email = ''e@x.y'', u_Name = [], u_Role = ''admin'', u_CreatedAt = 0\<rparr>, ''pw'')]), d)
    | Select_link _ _ \<Rightarrow> (Inl (Err_other ''timeout''), d)
    | _ \<Rightarrow> mem_exec q d)"

definition boot_ext :: "(mem_redis, mem_db, string \<times> string, string, string, unit) ext" where
  "boot_ext = demo_ext\<lparr>x_pg := boot_pg\<rparr>"

definition boot_cfg :: "string config" where
  "boot_cfg = (loadConfig demo_netip id demo_env)\<lparr>cfg_AdminPass := ''pw'', cfg_DemoMode := False, cfg_SeedEvents := 0,
     cfg_GeoIPDB := [], cfg_JWTSecret := replicate 32 (CHR ''k'')\<rparr>"

definition boot_app :: "(mem_redis, mem_db, string) app" where
  "boot_app = newApp boot_cfg 128 (\<lambda>_. 3) False own_db []"

lemma boot_app_eq: "boot_app = demo_app\<lparr>a_store := (a_store demo_app)\<lparr>db := own_db\<rparr>, a_cfg := boot_cfg\<rparr>"
  by (simp add: boot_app_def demo_app_def newApp_def boot_cfg_def)

definition boot_input :: "unit seed_input" where
  "boot_input = \<lparr>si_salt = ([], []), si_rnd = ([], []), si_clock_admin = [], si_clock_demo = [], si_clock_bench = [], si_clock_links = [],
     si_now = 0, si_now_bench = (\<lambda>_. 0), si_now_links = (\<lambda>_. (0, 0)), si_order = id, si_totals = id, si_rng = zero_rng,
     si_gen = (), si_fuel = 0, si_days = (\<lambda>_. [])\<rparr>"

lemma boot_pg_ok: "pg_ok boot_pg mem_tables"
proof -
  have "sql_step q (mem_tables d) (fst (boot_pg q d)) (mem_tables (snd (boot_pg q d)))" for q d
  proof -
    have "sql_step q (mem_tables d) (fst (mem_exec q d)) (mem_tables (snd (mem_exec q d)))"
      using mem_pg_ok unfolding pg_ok_def by blast
    then show ?thesis by (cases q) (auto simp: boot_pg_def sql_step_def)
  qed
  then show ?thesis by (simp add: pg_ok_def)
qed

lemma boot_world: "world_ok boot_ext mem_tables map_of"
  using demo_world boot_pg_ok by (simp add: world_ok_def boot_ext_def)

lemma boot_sorts: "sorts_newest (x_sort boot_ext)"
  by (simp add: boot_ext_def demo_ext_def sorts_newest_def newest_first_def sorted_insert_desc mset_insert_desc)

lemma boot_tables: "mem_tables own_db t = (if t = ''links_s0'' then own_links else [])"
  by (simp add: mem_tables_def own_db_def mget_def)

lemma boot_store: "db (a_store boot_app) = own_db" "ShardFor (a_store boot_app) c = 0" "ShardCount (st_ring (a_store boot_app)) = 1"
  using demo_store_of(2) [of c] demo_shard_count by (simp_all add: boot_app_eq ShardFor_def)

lemma own_codes: "distinct (map l_Code own_links)" "length own_links = 10"
  by (simp_all add: own_links_def seedLinks_def)

lemma boot_boots: "boots boot_ext mem_tables map_of boot_app"
proof -
  have b: "bloom_ok (a_bloom demo_app)" "\<exists>n vn. 0 < n \<and> st_ring (a_store demo_app) = NewRing n vn" "rdb (a_cache demo_app) = []"
    using demo_boots by (auto simp: boots_def demo_app_def newApp_def)
  have "placed mem_tables (a_store boot_app)" by (auto simp: placed_def boot_store)
  moreover have "unique_codes mem_tables (a_store boot_app)" using own_codes by (simp add: unique_codes_def boot_store boot_tables)
  ultimately show ?thesis using b by (simp add: boots_def) (simp add: boot_app_eq cache_agrees_def)
qed

lemma own_found:
  assumes "set ex = scanLink 0 ` set own_links"
  shows "\<forall>sl\<in>set seedLinks. \<exists>l. findSeed sl ex = Some l \<and> l_UserID l = 7"
proof
  fix sl assume sl: "sl \<in> set seedLinks"
  define l0 where "l0 = scanLink 0 ((bench_link 1 1 7 0)\<lparr>l_Code := if sl_Alias sl = [] then sl_URL sl else sl_Alias sl,
     l_LongURL := sl_URL sl, l_Custom := sl_Alias sl \<noteq> []\<rparr>)"
  have "l0 \<in> set ex" unfolding assms l0_def own_links_def using sl by auto
  moreover have "seed_match sl l0" by (simp add: l0_def scanLink_def seed_match_def)
  ultimately obtain l where l: "findSeed sl ex = Some l" using findSeed_total by blast
  moreover have "\<forall>l\<in>set ex. l_UserID l = 7" by (auto simp: assms own_links_def scanLink_def bench_link_def)
  ultimately show "\<exists>l. findSeed sl ex = Some l \<and> l_UserID l = 7" using findSeed_found [OF l] by blast
qed

lemma set_insert_desc: "set (insert_desc key ls) = set ls"
  by (metis mset_insert_desc set_mset_mset)

lemma own_listed:
  assumes "a_store a = a_store boot_app"
  shows "\<exists>ls. ListByUser (x_pg boot_ext) (x_sort boot_ext) 7 500 (a_store a) = (Inr ls, a_store a) \<and> set ls = scanLink 0 ` set own_links"
proof -
  have own: "filter (\<lambda>l. l_UserID l = 7) own_links = own_links" by (auto simp: own_links_def bench_link_def filter_id_conv)
  let ?rows = "insert_desc l_CreatedAt own_links"
  have len: "length ?rows = 10" using own_codes by (metis mset_insert_desc size_mset)
  have t: "shardTable 0 = ''links_s0''" by code_simp
  have "boot_pg (Select_user_links ''links_s0'' 7 500) own_db = (Inr (sql_reply.Rows ?rows), own_db)"
    by (simp add: boot_pg_def own_db_def mget_def own len)
  then have "every_shard boot_pg (\<lambda>t. Select_user_links t 7 500) [0] [] (a_store boot_app) = (Inr (map (scanLink 0) ?rows), a_store boot_app)"
    by (simp add: run_sql_def boot_store t)
  then have "ListByUser boot_pg (x_sort boot_ext) 7 500 (a_store boot_app) = (Inr (insert_desc l_CreatedAt (map (scanLink 0) ?rows)), a_store boot_app)"
    using len by (simp add: ListByUser_def queryEveryShard_def boot_store Let_def boot_ext_def demo_ext_def insert_desc_def)
  then show ?thesis using assms by (auto simp: boot_ext_def set_insert_desc)
qed

lemma seed_cache_total:
  assumes "bloom_ok (a_bloom a)"
  shows "\<exists>a'. seed_cache X ls a = Some a' \<and> a_store a' = a_store a \<and> a_cfg a' = a_cfg a"
  using assms
proof (induction ls arbitrary: a)
  case (Cons l ls)
  let ?a = "a\<lparr>demoCodes := mput (l_Code l) True (demoCodes a)\<rparr>"
  from bloom_add_ok [of ?a "l_Code l"] Cons.prems obtain b where b: "bloom_add (l_Code l) ?a = Some (?a\<lparr>a_bloom := b\<rparr>)" "bloom_ok b" by auto
  let ?a1 = "?a\<lparr>a_bloom := b, a_cache := Cache.Set (x_redis X) (x_json X) l (a_cache a)\<rparr>"
  from Cons.IH [of ?a1] b show ?case by auto
qed simp

lemma bench_skipped:
  assumes "\<And>c. GetByCode (x_pg X) c (a_store a) = (Inl (Err_other e), a_store a)"
  shows "bench_links_loop X admin now is' clock a = Some a"
  by (induction is') (simp_all add: assms)

lemma boot_seeds: "\<exists>a1. seedDemo boot_ext demo_auth boot_input boot_app = Some (None, a1) \<and> a_store a1 = a_store boot_app"
proof -
  let ?u = "\<lparr>u_ID = 7, u_Email = ''e@x.y'', u_Name = [], u_Role = ''admin'', u_CreatedAt = 0\<rparr>"
  let ?a = "boot_app\<lparr>adminID := 7, benchLinks := []\<rparr>"
  have same: "boot_app\<lparr>a_store := a_store boot_app\<rparr> = boot_app" by simp
  have cfg: "cfg_AdminPass (a_cfg boot_app) = ''pw''" "\<not> cfg_DemoMode (a_cfg boot_app)" "cfg_SeedEvents (a_cfg boot_app) = 0"
    by (simp_all add: boot_app_eq boot_cfg_def)
  have st: "(a_store boot_app)\<lparr>db := own_db\<rparr> = a_store boot_app" by (simp add: boot_app_eq)
  have user: "GetUserByEmail (x_pg boot_ext) uni em (a_store boot_app) = (Inr (?u, ''pw''), a_store boot_app)" for uni em
    by (simp add: GetUserByEmail_def run_sql_def boot_ext_def boot_pg_def user_row_def scan_first_def boot_store st)
  have admin: "seedAdmin boot_ext demo_auth s cl nw boot_app = Some (Inr ?u, boot_app)" for s cl nw
    by (simp add: seedAdmin_def user cfg verifyPassword_def demo_auth_def Let_def)
  have "GetByCode (x_pg boot_ext) c (a_store ?a) = (Inl (Err_other ''timeout''), a_store ?a)" for c
    by (simp add: GetByCode_def run_sql_def boot_ext_def boot_pg_def link_row_def boot_store st Let_def)
  from bench_skipped [of boot_ext ?a, OF this] have bench: "seedBenchLinks boot_ext 7 nw cl (boot_app\<lparr>adminID := 7\<rparr>) = Some ?a" for nw cl
    by (simp add: seedBenchLinks_def)
  have owner: "seed_owner boot_ext demo_auth boot_input ?u ?a = Some (Inr (?u, [7]), ?a)"
    by (simp add: seed_owner_def cfg user Let_def)
  obtain ls where ls: "ListByUser (x_pg boot_ext) (x_sort boot_ext) 7 500 (a_store ?a) = (Inr ls, a_store ?a)"
    "set ls = scanLink 0 ` set own_links" using own_listed [of ?a] by auto
  have listed: "list_all_users boot_ext [7, 7] [] ?a = (Inr (ls @ ls), ?a)" using ls(1) by simp
  have "set (ls @ ls) = scanLink 0 ` set own_links" using ls(2) by simp
  from own_found [OF this] have "\<forall>(i, sl)\<in>set (List.enumerate 0 seedLinks). \<exists>l. findSeed sl (ls @ ls) = Some l \<and> l_UserID l = 7"
    by (auto simp: in_set_enumerate_eq)
  from ensure_loop_found [OF this, of boot_ext "\<lambda>_. (0, 0)" "[]" "[]" "[]" ?a] obtain links where
    "ensure_loop boot_ext 7 (ls @ ls) (\<lambda>_. (0, 0)) (List.enumerate 0 seedLinks) [] [] [] ?a = Some (links, [], ?a)" by auto
  then have ens: "ensureSeedLinks boot_ext id 7 [7] (\<lambda>_. (0, 0)) [] ?a = Some (Inr links, ?a)"
    by (simp only: ensureSeedLinks_def listed prod.case sum.case option.case simp_thms if_True)
  have "bloom_ok (a_bloom (?a\<lparr>demoCodes := []\<rparr>))" using boot_boots by (simp add: boots_def)
  from seed_cache_total [OF this, of boot_ext links] obtain a5 where
    a5: "seed_cache boot_ext links (?a\<lparr>demoCodes := []\<rparr>) = Some a5" "a_store a5 = a_store boot_app" "a_cfg a5 = a_cfg boot_app" by auto
  then have "seed_history boot_ext boot_input links a5 = Some a5" by (simp add: seed_history_def cfg)
  then have "seedDemo boot_ext demo_auth boot_input boot_app = Some (None, a5)"
    unfolding seedDemo_def admin using bench owner ens a5(1) by (simp add: boot_input_def)
  then show ?thesis using a5(2) by blast
qed

lemma boot_codes: "\<exists>ls. AllCodes (x_pg boot_ext) (a_store boot_app) = (Inr ls, a_store boot_app)"
  by (simp add: AllCodes_def queryEveryShard_def boot_store boot_ext_def run_sql_def boot_pg_def own_db_def)

section \<open>Properties\<close>



end
