(* ===== verification/Loadtest.thy ===== *)
theory Loadtest
  imports Service Bench
begin

text \<open>
  The redirect benchmark of \<^verbatim>\<open>backend/bench.go\<close> as a whole: the run sends its requests to the service it is part of,
  so it is modelled together with the redirect handler.  The workers and the sampler are interleaved by a list of
  events, in which a request is one step; requests of other clients in the meantime are left out.
\<close>

section \<open>The run\<close>

text \<open>
  What the network does with one request: whether it reaches the service, the latency in microseconds if an answer comes
  back, and the two clock readings of the handler.
\<close>

record hit_env =
  he_reached :: bool
  he_latency :: "int option"
  he_now1 :: int
  he_now2 :: int

definition loop_request :: "string \<Rightarrow> string \<Rightarrow> string \<Rightarrow> request" where
  "loop_request port ua code =
     \<lparr>rq_Method = ''GET'', rq_RemoteAddr = ''127.0.0.1:0'', rq_Host = ''127.0.0.1:'' @ port, rq_TLS = False,
      rq_header = [(''User-Agent'', [ua])], rq_query = [], rq_cookies = [], rq_param = code\<rparr>"

definition hit ::
  "('r, 'db, 'u, 'a, 'p, 'i) ext \<Rightarrow> hit_env \<Rightarrow> string \<Rightarrow> string \<Rightarrow> ('r, 'db, 'p) app \<Rightarrow> ((int \<times> int) option \<times> ('r, 'db, 'p) app) option" where
  "hit X net ua code a =
     (if \<not> he_reached net then Some (None, a)
      else map_option (\<lambda>(w, a'). (map_option (\<lambda>us. (us, rs_status w)) (he_latency net), a'))
             (handleRedirect X (he_now1 net) (he_now2 net) (loop_request (cfg_Port (a_cfg a)) ua code) a))"

fun warm_hits ::
  "('r, 'db, 'u, 'a, 'p, 'i) ext \<Rightarrow> (nat \<Rightarrow> hit_env) \<Rightarrow> nat \<Rightarrow> string list \<Rightarrow> ('r, 'db, 'p) app \<Rightarrow> ('r, 'db, 'p) app option" where
  "warm_hits X net i [] a = Some a"
| "warm_hits X net i (code # codes) a =
     (case hit X (net i) ''k6/kortex-warmup'' code a of
        None \<Rightarrow> None
      | Some (_, a1) \<Rightarrow> warm_hits X net (i + 1) codes a1)"

text \<open>A request of some worker to the code it drew, or a tick of the sampler.\<close>

datatype load_event = L_hit nat hit_env | L_tick real real

fun load_run ::
  "('r, 'db, 'u, 'a, 'p, 'i) ext \<Rightarrow> (int \<Rightarrow> int) \<Rightarrow> (int \<Rightarrow> int) \<Rightarrow> int \<Rightarrow> string list \<Rightarrow> load_event list \<Rightarrow> int
     \<Rightarrow> ('r, 'db, 'p) app \<Rightarrow> bench \<Rightarrow> (('r, 'db, 'p) app \<times> bench) option" where
  "load_run X r50 r99 dur codes [] lastReqs a b = Some (a, b)"
| "load_run X r50 r99 dur codes (L_hit i net # evs) lastReqs a b =
     (if length codes \<le> i then None
      else case hit X net ''k6/0.52 kortex-loadgen'' (codes ! i) a of
             None \<Rightarrow> None
           | Some (res, a1) \<Rightarrow>
               (case worker_hit res b of
                  None \<Rightarrow> None
                | Some b1 \<Rightarrow> load_run X r50 r99 dur codes evs lastReqs a1 b1))"
| "load_run X r50 r99 dur codes (L_tick elapsed dt # evs) lastReqs a b =
     (let (b1, reqs) = sample_tick r50 r99 dur elapsed dt lastReqs b
      in load_run X r50 r99 dur codes evs reqs a b1)"

text \<open>The goroutine of \<^verbatim>\<open>sampleProgress\<close> by itself: its ticks, until it is told to stop.\<close>

fun sampleProgress :: "(int \<Rightarrow> int) \<Rightarrow> (int \<Rightarrow> int) \<Rightarrow> int \<Rightarrow> (real \<times> real) option list \<Rightarrow> int \<Rightarrow> bench \<Rightarrow> bench" where
  "sampleProgress r50 r99 dur [] lastReqs b = b"
| "sampleProgress r50 r99 dur (None # _) lastReqs b = b"
| "sampleProgress r50 r99 dur (Some (elapsed, dt) # sigs) lastReqs b =
     (let (b1, reqs) = sample_tick r50 r99 dur elapsed dt lastReqs b in sampleProgress r50 r99 dur sigs reqs b1)"

text \<open>The ranks of the percentiles, the schedule, the texts of the log lines, and what the consumers of the bus do before the flush returns.\<close>

record run_env =
  re_r50 :: "int \<Rightarrow> int"
  re_r90 :: "int \<Rightarrow> int"
  re_r95 :: "int \<Rightarrow> int"
  re_r99 :: "int \<Rightarrow> int"
  re_warm :: "nat \<Rightarrow> hit_env"
  re_events :: "load_event list"
  re_elapsed :: real
  re_line :: "nat \<Rightarrow> string"
  re_drain :: "broker \<times> olap \<Rightarrow> broker \<times> olap"

definition bench_logs :: "run_env \<Rightarrow> nat list \<Rightarrow> bench \<Rightarrow> bench" where
  "bench_logs E ls b = fold (\<lambda>i. bench_log (re_line E i)) ls b"

text \<open>The benchmark at the start of the load.\<close>

definition load_phase :: "run_env \<Rightarrow> bench \<Rightarrow> bench" where
  "load_phase E b = bench_logs E [3] (setPhase ''running'' (bench_logs E [0, 1, 2] b))"

definition runRedirectBench ::
  "('r, 'db, 'u, 'a, 'p, 'i) ext \<Rightarrow> run_env \<Rightarrow> bench_req \<Rightarrow> string list \<Rightarrow> ('r, 'db, 'p) app \<Rightarrow> bench \<Rightarrow> (('r, 'db, 'p) app \<times> bench) option" where
  "runRedirectBench X E req codes a b =
     (case warm_hits X (re_warm E) 0 (take 64 codes) a of
        None \<Rightarrow> None
      | Some a1 \<Rightarrow>
          let before = (Hits (a_cache a1), Misses (a_cache a1)); b1 = load_phase E b
          in (case load_run X (re_r50 E) (re_r99 E) (br_Duration req) codes (re_events E) 0 a1 b1 of
                None \<Rightarrow> None
              | Some (a2, b2) \<Rightarrow>
                  let (bus, ol) = re_drain E (a_bus a2, a_olap a2); a3 = a2\<lparr>a_bus := bus, a_olap := ol\<rparr>
                  in Some (a3, finish (bench_logs E [6, 7, 8]
                       (redirect_report (re_r50 E) (re_r90 E) (re_r95 E) (re_r99 E) (re_elapsed E) before a3 (bench_logs E [4, 5] b2))))))"

section \<open>What is counted\<close>

fun samples :: "load_event list \<Rightarrow> int list" where
  "samples [] = []"
| "samples (L_hit i net # evs) = (if he_reached net then (case he_latency net of None \<Rightarrow> [] | Some us \<Rightarrow> [us]) else []) @ samples evs"
| "samples (L_tick _ _ # evs) = samples evs"

fun unanswered :: "load_event list \<Rightarrow> nat" where
  "unanswered [] = 0"
| "unanswered (L_hit i net # evs) = (if he_reached net \<and> he_latency net \<noteq> None then 0 else 1) + unanswered evs"
| "unanswered (L_tick _ _ # evs) = unanswered evs"

text \<open>The statuses of the answers, one after the other.\<close>

fun answers :: "('r, 'db, 'u, 'a, 'p, 'i) ext \<Rightarrow> string list \<Rightarrow> load_event list \<Rightarrow> ('r, 'db, 'p) app \<Rightarrow> int list" where
  "answers X codes [] a = []"
| "answers X codes (L_hit i net # evs) a =
     (case hit X net ''k6/0.52 kortex-loadgen'' (codes ! i) a of
        None \<Rightarrow> []
      | Some (res, a1) \<Rightarrow> (case res of None \<Rightarrow> [] | Some (us, s) \<Rightarrow> [s]) @ answers X codes evs a1)"
| "answers X codes (L_tick _ _ # evs) a = answers X codes evs a"

definition events_ok :: "string list \<Rightarrow> load_event list \<Rightarrow> bool" where
  "events_ok codes evs \<longleftrightarrow> (\<forall>i net. L_hit i net \<in> set evs \<longrightarrow> i < length codes) \<and> samples_ok (samples evs)"

text \<open>The links a run may use, and the answers they can give.\<close>

definition target :: "(string \<Rightarrow> cached_link option) \<Rightarrow> string \<Rightarrow> bool" where
  "target rows c \<longleftrightarrow> codeShape c \<and> (\<exists>cl. rows c = Some cl \<and> c_Active cl \<and> c_ExpiresAt cl = 0)"

definition fine :: "int \<Rightarrow> bool" where
  "fine s \<longleftrightarrow> s \<in> {301, 302, 307, 308, 503}"

lemma redirectStatus_fine: "fine (redirectStatus s)" "fine 503"
  by (simp_all add: fine_def redirectStatus_def)

lemma hit_ok:
  assumes world: "world_ok X tabs live" and coh: "coherent X tabs live a" and tgt: "target (stored tabs (a_store a)) code"
  shows "\<exists>res a'. hit X net ua code a = Some (res, a') \<and> steady X tabs live a a'
    \<and> (if he_reached net \<and> he_latency net \<noteq> None then \<exists>s. res = Some (the (he_latency net), s) \<and> fine s else res = None)"
proof (cases "he_reached net")
  case True
  let ?r = "loop_request (cfg_Port (a_cfg a)) ua code"
  obtain w a' where w: "handleRedirect X (he_now1 net) (he_now2 net) ?r a = Some (w, a')" "steady X tabs live a a'"
    "redirect_spec (he_now1 net) code (stored tabs (a_store a)) w"
    using redirect_ok [OF world coh, of "he_now1 net" "he_now2 net" ?r code False] by (auto simp: handleRedirect_def loop_request_def)
  have "fine (rs_status w)" using w(3) tgt redirectStatus_fine
    by (auto simp: redirect_spec_def target_def Expired_def)
  then show ?thesis using True w by (cases "he_latency net") (auto simp: hit_def)
qed (simp add: hit_def steady_refl [OF coh])

lemma targets_steady: "steady X tabs live a a' \<Longrightarrow> target (stored tabs (a_store a')) = target (stored tabs (a_store a))"
  by (simp add: steady_def)

lemma warm_hits_ok:
  assumes world: "world_ok X tabs live"
  shows "coherent X tabs live a \<Longrightarrow> \<forall>c\<in>set codes. target (stored tabs (a_store a)) c
    \<Longrightarrow> \<exists>a'. warm_hits X net i codes a = Some a' \<and> steady X tabs live a a'"
proof (induction codes arbitrary: i a)
  case (Cons c codes)
  obtain res a1 where h: "hit X (net i) ''k6/kortex-warmup'' c a = Some (res, a1)" "steady X tabs live a a1"
    using hit_ok [OF world Cons.prems(1), of c "net i" "''k6/kortex-warmup''"] Cons.prems(2) by auto
  have "\<forall>c\<in>set codes. target (stored tabs (a_store a1)) c" using Cons.prems(2) targets_steady [OF h(2)] by simp
  from Cons.IH [OF steady_coherent [OF h(2)] this, of "i + 1"] h show ?case by (auto intro: steady_trans)
qed (simp add: steady_refl)

lemma worker_hit_counts:
  assumes "b_hist b = hist_of xs" "case res of None \<Rightarrow> True | Some (us, s) \<Rightarrow> 0 \<le> us"
  shows "\<exists>b'. worker_hit res b = Some b' \<and> b_hist b' = hist_of (case res of None \<Rightarrow> xs | Some (us, s) \<Rightarrow> us # xs)
    \<and> b_reqs b' = b_reqs b + (if res = None then 0 else 1)
    \<and> b_errs b' = b_errs b + (case res of None \<Rightarrow> 1 | Some (us, s) \<Rightarrow> if s \<ge> 400 then 1 else 0)
    \<and> b_snap b' = b_snap b \<and> b_last b' = b_last b"
  using assms by (auto simp: worker_hit_def Observe_hist Let_def split: option.splits)

lemma sample_tick_counts:
  "b_hist (fst (sample_tick r50 r99 dur el dt n b)) = b_hist b" "b_reqs (fst (sample_tick r50 r99 dur el dt n b)) = b_reqs b"
  "b_errs (fst (sample_tick r50 r99 dur el dt n b)) = b_errs b" "b_last (fst (sample_tick r50 r99 dur el dt n b)) = b_last b"
  "bs_Kind (b_snap (fst (sample_tick r50 r99 dur el dt n b))) = bs_Kind (b_snap b)"
  by (simp_all add: sample_tick_def bench_update_def Let_def)

lemma events_ok_hit:
  assumes "events_ok codes (L_hit i net # evs)"
  shows "i < length codes" "events_ok codes evs" "he_reached net \<Longrightarrow> he_latency net = Some us \<Longrightarrow> 0 \<le> us"
proof -
  show "i < length codes" using assms unfolding events_ok_def by (meson list.set_intros(1))
  have "set (samples evs) \<subseteq> set (samples (L_hit i net # evs))" unfolding samples.simps set_append by (rule Un_upper2)
  then show "events_ok codes evs" using assms unfolding events_ok_def samples_ok_def by (meson list.set_intros(2) subsetD)
  show "0 \<le> us" if "he_reached net" "he_latency net = Some us"
    using assms that by (simp add: events_ok_def samples_ok_def)
qed

lemma events_ok_tick: "events_ok codes (L_tick el dt # evs) \<Longrightarrow> events_ok codes evs"
  by (simp add: events_ok_def)

lemma load_run_ok:
  assumes world: "world_ok X tabs live"
  shows "coherent X tabs live a \<Longrightarrow> \<forall>c\<in>set codes. target (stored tabs (a_store a)) c \<Longrightarrow> events_ok codes evs \<Longrightarrow> b_hist b = hist_of xs
    \<Longrightarrow> \<exists>a' b'. load_run X r50 r99 dur codes evs n a b = Some (a', b') \<and> steady X tabs live a a'
      \<and> b_hist b' = hist_of (rev (samples evs) @ xs) \<and> b_reqs b' = b_reqs b + int (length (samples evs))
      \<and> b_errs b' = b_errs b + int (unanswered evs) + int (length (filter (\<lambda>s. s \<ge> 400) (answers X codes evs a)))
      \<and> (\<forall>s\<in>set (answers X codes evs a). fine s) \<and> bs_Kind (b_snap b') = bs_Kind (b_snap b)"
proof (induction evs arbitrary: n a b xs)
  case (Cons e evs)
  show ?case
  proof (cases e)
    case (L_tick el dt)
    let ?t = "sample_tick r50 r99 dur el dt n b"
    obtain b1 m where t: "?t = (b1, m)" by (cases ?t)
    note k = sample_tick_counts [of r50 r99 dur el dt n b, unfolded t fst_conv]
    from Cons.IH [OF Cons.prems(1,2), of b1 xs m] events_ok_tick Cons.prems(3,4) k L_tick t show ?thesis by auto
  next
    case (L_hit i net)
    note ev = events_ok_hit [OF Cons.prems(3) [unfolded L_hit]]
    have "target (stored tabs (a_store a)) (codes ! i)" using Cons.prems(2) ev by simp
    from hit_ok [OF world Cons.prems(1) this, of net "''k6/0.52 kortex-loadgen''"] obtain res a1 where
      h: "hit X net ''k6/0.52 kortex-loadgen'' (codes ! i) a = Some (res, a1)" "steady X tabs live a a1"
      "if he_reached net \<and> he_latency net \<noteq> None then \<exists>s. res = Some (the (he_latency net), s) \<and> fine s else res = None" by auto
    have "case res of None \<Rightarrow> True | Some (us, s) \<Rightarrow> 0 \<le> us" using h(3) ev by (auto split: if_splits)
    from worker_hit_counts [OF Cons.prems(4) this] obtain b1 where b1: "worker_hit res b = Some b1"
      "b_hist b1 = hist_of (case res of None \<Rightarrow> xs | Some (us, s) \<Rightarrow> us # xs)" "b_reqs b1 = b_reqs b + (if res = None then 0 else 1)"
      "b_errs b1 = b_errs b + (case res of None \<Rightarrow> 1 | Some (us, s) \<Rightarrow> if s \<ge> 400 then 1 else 0)" "b_snap b1 = b_snap b" by blast
    have "\<forall>c\<in>set codes. target (stored tabs (a_store a1)) c" using Cons.prems(2) targets_steady [OF h(2)] by simp
    from Cons.IH [OF steady_coherent [OF h(2)] this _ b1(2), of n] ev obtain a' b' where r:
      "load_run X r50 r99 dur codes evs n a1 b1 = Some (a', b')" "steady X tabs live a1 a'"
      "b_hist b' = hist_of (rev (samples evs) @ (case res of None \<Rightarrow> xs | Some (us, s) \<Rightarrow> us # xs))"
      "b_reqs b' = b_reqs b1 + int (length (samples evs))"
      "b_errs b' = b_errs b1 + int (unanswered evs) + int (length (filter (\<lambda>s. s \<ge> 400) (answers X codes evs a1)))"
      "\<forall>s\<in>set (answers X codes evs a1). fine s" "bs_Kind (b_snap b') = bs_Kind (b_snap b1)" by auto
    have "load_run X r50 r99 dur codes (e # evs) n a b = Some (a', b')" using r(1) h(1) b1(1) ev by (simp add: L_hit)
    moreover have "steady X tabs live a a'" using steady_trans [OF h(2) r(2)] .
    moreover have "b_hist b' = hist_of (rev (samples (e # evs)) @ xs) \<and> b_reqs b' = b_reqs b + int (length (samples (e # evs)))
      \<and> b_errs b' = b_errs b + int (unanswered (e # evs)) + int (length (filter (\<lambda>s. s \<ge> 400) (answers X codes (e # evs) a)))
      \<and> (\<forall>s\<in>set (answers X codes (e # evs) a). fine s) \<and> bs_Kind (b_snap b') = bs_Kind (b_snap b)"
    proof (cases "he_reached net \<and> he_latency net \<noteq> None")
      case True
      then obtain us s where "he_reached net" "he_latency net = Some us" "res = Some (us, s)" "fine s" using h(3) by auto
      then show ?thesis using r(3-) b1(3-) h(1) by (simp add: L_hit)
    next
      case False
      then have "res = None" using h(3) by simp
      then show ?thesis using r(3-) b1(3-) h(1) False by (auto simp: L_hit)
    qed
    ultimately show ?thesis by blast
  qed
qed (simp add: steady_refl)

lemma load_run_ticks:
  "load_run X r50 r99 dur codes (map (\<lambda>(el, dt). L_tick el dt) ts) n a b = Some (a, sampleProgress r50 r99 dur (map Some ts @ None # rest) n b)"
  by (induction ts arbitrary: n b) (auto split: prod.split)

section \<open>The targets\<close>

definition bench_target :: "int \<Rightarrow> (string \<Rightarrow> cached_link option) \<Rightarrow> string \<Rightarrow> bool" where
  "bench_target admin rows c \<longleftrightarrow> (\<exists>cl. rows c = Some cl \<and> c_UserID cl = admin \<and> c_Active cl \<and> c_ExpiresAt cl = 0)"

lemma benchCodes_loop_ok:
  assumes world: "world_ok X tabs live"
  shows "coherent X tabs live a \<Longrightarrow> benchCodes_loop X cs out a = (Inr codes, a')
    \<Longrightarrow> \<forall>c\<in>set out. c \<in> S \<and> bench_target (adminID a) (stored tabs (a_store a)) c \<Longrightarrow> set cs \<subseteq> S
    \<Longrightarrow> steady X tabs live a a' \<and> (\<forall>c\<in>set codes. c \<in> S \<and> bench_target (adminID a) (stored tabs (a_store a)) c)"
proof (induction cs arbitrary: out a)
  case (Cons c cs)
  have pg: "pg_ok (x_pg X) tabs" using world by (simp add: world_ok_def)
  let ?get = "GetByCode (x_pg X) c (a_store a)"
  obtain res st where get: "?get = (res, st)" by (cases ?get)
  let ?a1 = "a\<lparr>a_store := st\<rparr>"
  note g = GetByCode_row [OF pg get]
  have s1: "steady X tabs live a ?a1" by (rule steady_store [OF Cons.prems(1) g(1,2)])
  have rows: "stored tabs (a_store ?a1) = stored tabs (a_store a)" using s1 by (simp add: steady_def)
  have IH: "steady X tabs live a a' \<and> (\<forall>c\<in>set codes. c \<in> S \<and> bench_target (adminID a) (stored tabs (a_store a)) c)"
    if "benchCodes_loop X cs out' ?a1 = (Inr codes, a')" "\<forall>c\<in>set out'. c \<in> S \<and> bench_target (adminID a) (stored tabs (a_store a)) c" for out'
    using Cons.IH [OF steady_coherent [OF s1] that(1)] that(2) Cons.prems(4) rows steady_trans [OF s1] by simp
  show ?case
  proof (cases res)
    case (Inl e)
    then have "benchCodes_loop X cs out ?a1 = (Inr codes, a')" using Cons.prems(2) get by (cases e) (auto simp: Let_def)
    then show ?thesis using IH Cons.prems(3) by blast
  next
    case (Inr l)
    let ?out = "if l_UserID l = adminID a \<and> l_Active l \<and> l_ExpiresAt l = None then out @ [l_Code l] else out"
    from g(4) [OF Inr] obtain row where row: "row_of tabs (a_store a) c = Some row" "l = scanLink (ShardFor (a_store a) c) row" by blast
    then have l: "l_Code l = c" "stored tabs (a_store a) c = Some (toCached l)"
      using row_of_code [OF row(1)] by (simp_all add: stored_def) (simp add: scanLink_def)
    then have "bench_target (adminID a) (stored tabs (a_store a)) (l_Code l)"
      if "l_UserID l = adminID a \<and> l_Active l \<and> l_ExpiresAt l = None" using that by (simp add: bench_target_def toCached_def)
    then have "\<forall>x\<in>set ?out. x \<in> S \<and> bench_target (adminID a) (stored tabs (a_store a)) x"
      using Cons.prems(3,4) l(1) by simp
    moreover have "benchCodes_loop X cs ?out ?a1 = (Inr codes, a')" using Cons.prems(2) get Inr by simp
    ultimately show ?thesis using IH by blast
  qed
qed (simp add: steady_refl)

lemma handleBenchStart_starts:
  assumes "handleBenchStart X u body fresh now a b = (w, Some (req, codes), a1, b1)"
  shows "benchCodes X a = (Inr codes, a1)" "codes \<noteq> []" "b_hist b1 = hist_of []" "b_reqs b1 = 0" "b_errs b1 = 0"
    and "bs_Kind (b_snap b1) = br_Kind req" "b_running b1"
  using assms by (auto simp: handleBenchStart_def Let_def begin_run_def hist_of_Nil split: option.splits if_splits prod.splits sum.splits list.splits)

lemma report_frame [simp]:
  "b_reqs (redirect_report r50 r90 r95 r99 el bf a b) = b_reqs b" "b_errs (redirect_report r50 r90 r95 r99 el bf a b) = b_errs b"
  "bs_Kind (b_snap (redirect_report r50 r90 r95 r99 el bf a b)) = bs_Kind (b_snap b)"
  "bs_P50 (b_snap (redirect_report r50 r90 r95 r99 el bf a b)) = Percentile r50 (b_hist b)"
  "bs_P99 (b_snap (redirect_report r50 r90 r95 r99 el bf a b)) = Percentile r99 (b_hist b)"
  by (simp_all add: redirect_report_def bench_update_def Let_def)

lemma bench_logs_frame [simp]:
  "b_hist (bench_logs E ls b) = b_hist b" "b_reqs (bench_logs E ls b) = b_reqs b" "b_errs (bench_logs E ls b) = b_errs b"
  "bs_Kind (b_snap (bench_logs E ls b)) = bs_Kind (b_snap b)" "bs_P50 (b_snap (bench_logs E ls b)) = bs_P50 (b_snap b)"
  "bs_P99 (b_snap (bench_logs E ls b)) = bs_P99 (b_snap b)"
  unfolding bench_logs_def by (induction ls arbitrary: b) simp_all

lemma load_phase_frame [simp]:
  "b_hist (load_phase E b) = b_hist b" "b_reqs (load_phase E b) = b_reqs b" "b_errs (load_phase E b) = b_errs b"
  "bs_Kind (b_snap (load_phase E b)) = bs_Kind (b_snap b)"
  by (simp_all add: load_phase_def setPhase_def bench_update_def)

lemma finish_last:
  "map_of (b_last (finish b)) (bs_Kind (b_snap b)) = Some (b_snap b\<lparr>bs_Running := False, bs_Phase := ''done'', bs_Progress := 1,
     bs_Requests := b_reqs b, bs_Errors := b_errs b, bs_Log := [], bs_Series := []\<rparr>)"
  "\<not> b_running (finish b)"
  by (simp_all add: finish_def finish_record_def finish_flag_def Let_def)

section \<open>Properties\<close>

text \<open>C30: a redirect benchmark measures the service and changes nothing it serves.  A run that was started on the
  administrator's enabled targets never panics, leaves every link, the cache and the filter in agreement, and records what
  it saw: the answered requests, as errors the unanswered ones and the refusals of the store (no target is ever
  reported missing or disabled), and the percentiles of the latencies of exactly those answers.\<close>

theorem redirect_bench_sound:
  assumes "world_ok X tabs live" "coherent X tabs live a" "\<forall>c\<in>set (benchLinks a). codeShape c"
    and "handleBenchStart X u body fresh now a b = (w, Some (req, codes), a1, b1)" "br_Kind req = ''redirect''"
    and "events_ok codes (re_events E)"
  shows "\<exists>aw a2 b2 d. warm_hits X (re_warm E) 0 (take 64 codes) a1 = Some aw \<and> runRedirectBench X E req codes a1 b1 = Some (a2, b2)
    \<and> coherent X tabs live a2 \<and> stored tabs (a_store a2) = stored tabs (a_store a) \<and> \<not> b_running b2
    \<and> map_of (b_last b2) ''redirect'' = Some d \<and> bs_Requests d = int (length (samples (re_events E)))
    \<and> bs_Errors d = int (unanswered (re_events E)) + int (length (filter (\<lambda>s. s = 503) (answers X codes (re_events E) aw)))
    \<and> bs_P50 d = Percentile (re_r50 E) (hist_of (samples (re_events E))) \<and> bs_P99 d = Percentile (re_r99 E) (hist_of (samples (re_events E)))"
proof -
  note st = handleBenchStart_starts [OF assms(4)]
  have "steady X tabs live a a1" and tg: "\<forall>c\<in>set codes. c \<in> set (benchLinks a) \<and> bench_target (adminID a) (stored tabs (a_store a)) c"
    using benchCodes_loop_ok [OF assms(1,2) st(1) [unfolded benchCodes_def], of "set (benchLinks a)"] by auto
  then have coh1: "coherent X tabs live a1" and rows1: "stored tabs (a_store a1) = stored tabs (a_store a)" by (simp_all add: steady_def)
  have t1: "\<forall>c\<in>set codes. target (stored tabs (a_store a1)) c"
    using tg assms(3) by (auto simp: rows1 target_def bench_target_def)
  then have "\<forall>c\<in>set (take 64 codes). target (stored tabs (a_store a1)) c" by (meson in_set_takeD)
  from warm_hits_ok [OF assms(1) coh1 this, of "re_warm E" 0] obtain aw where
    aw: "warm_hits X (re_warm E) 0 (take 64 codes) a1 = Some aw" "steady X tabs live a1 aw" by blast
  have tw: "\<forall>c\<in>set codes. target (stored tabs (a_store aw)) c" using t1 targets_steady [OF aw(2)] by simp
  have "b_hist (load_phase E b1) = hist_of []" using st(3) by simp
  from load_run_ok [OF assms(1) steady_coherent [OF aw(2)] tw assms(6) this, of "re_r50 E" "re_r99 E" "br_Duration req" 0]
  obtain a2 b2 where l: "load_run X (re_r50 E) (re_r99 E) (br_Duration req) codes (re_events E) 0 aw (load_phase E b1) = Some (a2, b2)"
    "steady X tabs live aw a2" "b_hist b2 = hist_of (rev (samples (re_events E)))" "b_reqs b2 = int (length (samples (re_events E)))"
    "b_errs b2 = int (unanswered (re_events E)) + int (length (filter (\<lambda>s. s \<ge> 400) (answers X codes (re_events E) aw)))"
    "\<forall>s\<in>set (answers X codes (re_events E) aw). fine s" "bs_Kind (b_snap b2) = ''redirect''"
    using st assms(5) by auto
  have e503: "filter (\<lambda>s. s \<ge> 400) (answers X codes (re_events E) aw) = filter (\<lambda>s. s = 503) (answers X codes (re_events E) aw)"
    using l(6) by (intro filter_cong) (auto simp: fine_def)
  have h: "b_hist b2 = hist_of (samples (re_events E))" unfolding l(3) by (rule hist_of_mset) simp
  obtain bus ol where d: "re_drain E (a_bus a2, a_olap a2) = (bus, ol)" by fastforce
  let ?a3 = "a2\<lparr>a_bus := bus, a_olap := ol\<rparr>"
  let ?b3 = "bench_logs E [6, 7, 8] (redirect_report (re_r50 E) (re_r90 E) (re_r95 E) (re_r99 E) (re_elapsed E)
    (Hits (a_cache aw), Misses (a_cache aw)) ?a3 (bench_logs E [4, 5] b2))"
  have run: "runRedirectBench X E req codes a1 b1 = Some (?a3, finish ?b3)"
    by (simp add: runRedirectBench_def aw(1) l(1) d Let_def)
  have "coherent X tabs live ?a3" using steady_coherent [OF l(2)] by (simp add: coherent_def)
  moreover have "stored tabs (a_store ?a3) = stored tabs (a_store a)" using l(2) aw(2) rows1 by (simp add: steady_def)
  moreover obtain sn where sn: "map_of (b_last (finish ?b3)) ''redirect'' = Some sn" "bs_Requests sn = b_reqs b2" "bs_Errors sn = b_errs b2"
    "bs_P50 sn = Percentile (re_r50 E) (b_hist b2)" "bs_P99 sn = Percentile (re_r99 E) (b_hist b2)"
    using finish_last(1) [of ?b3] l(7) by simp
  ultimately show ?thesis using run aw(1) finish_last(2) [of ?b3] l(4,5) e503 h by (metis)
qed

definition demo_run :: run_env where
  "demo_run = \<lparr>re_r50 = (\<lambda>n. n div 2), re_r90 = (\<lambda>n. n), re_r95 = (\<lambda>n. n), re_r99 = (\<lambda>n. n),
     re_warm = (\<lambda>_. \<lparr>he_reached = False, he_latency = None, he_now1 = 0, he_now2 = 0\<rparr>),
     re_events = [L_hit 0 \<lparr>he_reached = True, he_latency = Some 250, he_now1 = 0, he_now2 = 0\<rparr>, L_tick 1 1], re_elapsed = 1, re_line = (\<lambda>_. []), re_drain = id\<rparr>"

definition demo_admin :: user where
  "demo_admin = \<lparr>u_ID = 7, u_Email = ''e@x.y'', u_Name = [], u_Role = ''admin'', u_CreatedAt = 0\<rparr>"

theorem redirect_bench_sound_witness:
  "\<exists>a w req codes a1 b1 a2 b2 d. handleBenchStart demo_ext (Some demo_admin) None ''id'' 0 a NewBench = (w, Some (req, codes), a1, b1)
     \<and> runRedirectBench demo_ext demo_run req codes a1 b1 = Some (a2, b2) \<and> map_of (b_last b2) ''redirect'' = Some d \<and> bs_Requests d = 1"
proof -
  obtain a0 where a0: "coherent demo_ext mem_tables map_of a0" "a_store a0 = a_store demo_app" by (rule demo_boot_run)
  let ?a = "a0\<lparr>benchLinks := [''docs1''], adminID := l_UserID demo_link\<rparr>"
  have coh: "coherent demo_ext mem_tables map_of ?a" using a0(1) by (simp add: coherent_def)
  have t: "shardTable 0 = ''links_s0''" by code_simp
  have get: "GetByCode (x_pg demo_ext) ''docs1'' (a_store ?a) = (Inr (scanLink 0 (demo_link\<lparr>l_Code := ''docs1''\<rparr>)), a_store ?a)"
    by (simp add: GetByCode_def a0(2) demo_ext_def run_sql_def demo_exec t link_row_def scan_first_def) (simp add: demo_db_def mget_def)
  have same: "?a\<lparr>a_store := a_store ?a\<rparr> = ?a" by simp
  have codes: "benchCodes demo_ext ?a = (Inr [''docs1''], ?a)"
    using get by (simp add: benchCodes_def Let_def scanLink_def demo_link_def)
  have "normalize zero_req = \<lparr>br_Duration = 10, br_Concurrency = 64, br_Kind = ''redirect'', br_Events = 1000000\<rparr>"
    by (simp add: normalize_def zero_req_def orDefault_def clamp_def)
  then obtain w b1 req where start: "handleBenchStart demo_ext (Some demo_admin) None ''id'' 0 ?a NewBench = (w, Some (req, [''docs1'']), ?a, b1)"
    "br_Kind req = ''redirect''"
    using codes by (simp add: handleBenchStart_def requireAdmin_def demo_admin_def NewBench_def Let_def)
  have shape: "\<forall>c\<in>set (benchLinks ?a). codeShape c"
  proof -
    have "codeShape ''docs1''" by code_simp
    then show ?thesis by simp
  qed
  have ev: "events_ok [''docs1''] (re_events demo_run)" by (simp add: events_ok_def demo_run_def samples_ok_def)
  have "samples (re_events demo_run) = [250]" by (simp add: demo_run_def)
  with redirect_bench_sound [OF demo_world coh shape start ev] start(1) show ?thesis by fastforce
qed

end
