(* ===== verification/Static.thy ===== *)
theory Static
  imports Httputil
begin

text \<open>
  \<^verbatim>\<open>spaHandler\<close> of \<^verbatim>\<open>backend/routes.go\<close>, which serves the frontend build, with what it uses of Go's \<^verbatim>\<open>path\<close> and
  \<^verbatim>\<open>filepath\<close> packages on Unix.  The file system is a parameter: which paths are regular files, and what
  \<^verbatim>\<open>http.FileServer\<close> and \<^verbatim>\<open>http.ServeFile\<close> answer.
\<close>

section \<open>Paths\<close>

text \<open>The elements of a path after the lexical rules of \<^verbatim>\<open>path.Clean\<close>; \<open>out\<close> holds those already kept.\<close>

fun clean_parts :: "bool \<Rightarrow> string list \<Rightarrow> string list \<Rightarrow> string list" where
  "clean_parts rooted out [] = out"
| "clean_parts rooted out (p # ps) =
     (if p = [] \<or> p = ''.'' then clean_parts rooted out ps
      else if p = ''..''
           then (if out \<noteq> [] \<and> last out \<noteq> ''..'' then clean_parts rooted (butlast out) ps
                 else if rooted then clean_parts rooted out ps
                 else clean_parts rooted (out @ [p]) ps)
      else clean_parts rooted (out @ [p]) ps)"

definition elements :: "string \<Rightarrow> string list" where
  "elements p = clean_parts (HasPrefix p ''/'') [] (Split p (CHR ''/''))"

definition Clean :: "string \<Rightarrow> string" where
  "Clean p =
     (if p = [] then ''.''
      else if HasPrefix p ''/'' then ''/'' @ Join (elements p) ''/''
      else if elements p = [] then ''.'' else Join (elements p) ''/'')"

definition filepath_Join :: "string \<Rightarrow> string \<Rightarrow> string" where
  "filepath_Join dir p =
     (if dir = [] then (if p = [] then [] else Clean p)
      else if p = [] then Clean dir else Clean (dir @ ''/'' @ p))"

text \<open>The suffix from the last dot of the last element.\<close>

definition Ext :: "string \<Rightarrow> string" where
  "Ext p =
     (let seg = takeWhile (\<lambda>c. c \<noteq> CHR ''/'') (rev p)
      in if CHR ''.'' \<in> set seg then CHR ''.'' # rev (takeWhile (\<lambda>c. c \<noteq> CHR ''.'') seg) else [])"

section \<open>The handler\<close>

definition NotFound :: "'j response" where
  "NotFound = \<lparr>rs_status = 404, rs_headers = [(''Content-Type'', ''text/plain; charset=utf-8''), (''X-Content-Type-Options'', ''nosniff'')],
     rs_body = Bytes (''404 page not found'' @ [CHR 0x0A])\<rparr>"

definition spaHandler ::
  "(string \<Rightarrow> bool) \<Rightarrow> (string \<Rightarrow> 'j response) \<Rightarrow> (string \<Rightarrow> 'j response) \<Rightarrow> string \<Rightarrow> string \<Rightarrow> 'j response" where
  "spaHandler regular fileServer serveFile dir urlPath =
     (let p = Clean (''/'' @ urlPath)
      in if regular (filepath_Join dir p) then fileServer urlPath
         else if Ext p \<noteq> [] then NotFound
         else set_header ''Cache-Control'' ''no-cache'' (serveFile (filepath_Join dir ''index.html'')))"

section \<open>Lemmas\<close>

text \<open>A plain element stands for itself.\<close>

definition plain :: "string \<Rightarrow> bool" where
  "plain p \<longleftrightarrow> p \<noteq> [] \<and> p \<noteq> ''.'' \<and> p \<noteq> ''..'' \<and> CHR ''/'' \<notin> set p"

lemma clean_parts_append: "clean_parts r out (xs @ ys) = clean_parts r (clean_parts r out xs) ys"
  by (induction xs arbitrary: out) auto

lemma clean_parts_plain: "\<forall>p\<in>set ps. plain p \<Longrightarrow> clean_parts r out ps = out @ ps"
  by (induction ps arbitrary: out) (auto simp: plain_def)

lemma Split_parts: "w \<in> set (Split s sep) \<Longrightarrow> sep \<notin> set w"
proof (induction s arbitrary: w)
  case (Cons c s)
  show ?case
  proof (cases "c = sep")
    case True
    then show ?thesis using Cons by auto
  next
    case False
    obtain v vs where v: "Split s sep = v # vs" by (cases "Split s sep") auto
    then have "w = c # v \<or> w \<in> set vs" using Cons.prems False by simp
    then show ?thesis using Cons.IH [of v] Cons.IH [of w] v False by auto
  qed
qed simp

text \<open>The result of the rules: steps up, only at the start of a relative path, and then plain elements.\<close>

definition normal :: "bool \<Rightarrow> string list \<Rightarrow> bool" where
  "normal r ps \<longleftrightarrow> (\<exists>n qs. ps = replicate n ''..'' @ qs \<and> (\<forall>q\<in>set qs. plain q) \<and> (r \<longrightarrow> n = 0))"

lemma normal_Nil [simp]: "normal r []"
  by (simp add: normal_def)

lemma normal_step:
  assumes "normal r out" "plain p"
  shows "normal r (out @ [p])"
proof -
  from assms(1) obtain n qs where "out = replicate n ''..'' @ qs" "\<forall>q\<in>set qs. plain q" "r \<longrightarrow> n = 0" by (auto simp: normal_def)
  then show ?thesis using assms(2) unfolding normal_def by (intro exI [of _ n] exI [of _ "qs @ [p]"]) auto
qed

lemma normal_up:
  assumes "normal r out"
  shows "if out \<noteq> [] \<and> last out \<noteq> ''..'' then normal r (butlast out) else r \<and> out = [] \<or> \<not> r \<and> normal r (out @ [''..''])"
proof -
  from assms obtain n qs where out: "out = replicate n ''..'' @ qs" "\<forall>q\<in>set qs. plain q" "r \<longrightarrow> n = 0" by (auto simp: normal_def)
  show ?thesis
  proof (cases "qs = []")
    case True
    have "replicate n ''..'' @ [''..''] = replicate (Suc n) ''..'' @ []" by (simp add: replicate_append_same)
    then have "\<not> r \<Longrightarrow> normal r (out @ [''..''])" unfolding normal_def out(1) True by (metis append_Nil2 list.set(1) empty_iff)
    moreover have "out = [] \<or> last out = ''..''" unfolding out(1) True by (cases n) simp_all
    ultimately show ?thesis using out(1,3) True by (cases r) auto
  next
    case False
    then have "last out \<noteq> ''..''" "butlast out = replicate n ''..'' @ butlast qs" using out(1,2) last_in_set [OF False]
      by (auto simp: plain_def butlast_append)
    moreover have "\<forall>q\<in>set (butlast qs). plain q" using out(2) by (meson in_set_butlastD)
    ultimately show ?thesis using out(1,3) False unfolding normal_def by auto
  qed
qed

lemma clean_parts_normal:
  "\<forall>p\<in>set ps. CHR ''/'' \<notin> set p \<Longrightarrow> normal r out \<Longrightarrow> normal r (clean_parts r out ps)"
proof (induction ps arbitrary: out)
  case (Cons p ps)
  have ps: "\<forall>p\<in>set ps. CHR ''/'' \<notin> set p" using Cons.prems(1) by simp
  consider "p = [] \<or> p = ''.''" | "p = ''..''" | "plain p" using Cons.prems(1) by (auto simp: plain_def)
  then show ?case
  proof cases
    case 1
    then show ?thesis using Cons.IH [OF ps Cons.prems(2)] by auto
  next
    case 2
    then show ?thesis using normal_up [OF Cons.prems(2)] Cons.IH [OF ps] by (auto split: if_splits)
  next
    case 3
    then show ?thesis using Cons.IH [OF ps normal_step [OF Cons.prems(2) 3]] by (simp add: plain_def)
  qed
qed simp

lemma clean_parts_ups: "clean_parts False (replicate m ''..'') (replicate n ''..'') = replicate (m + n) ''..''"
proof (induction n arbitrary: m)
  case (Suc n)
  have "last (replicate m ''..'') = ''..'' \<or> m = 0" by (cases m) simp_all
  moreover have "replicate m ''..'' @ [''..''] = replicate (Suc m) ''..''" by (simp add: replicate_append_same)
  ultimately show ?case using Suc [of "Suc m"] by auto
qed simp

lemma clean_parts_fixed:
  assumes "normal r ps"
  shows "clean_parts r [] ps = ps"
proof -
  from assms obtain n qs where ps: "ps = replicate n ''..'' @ qs" "\<forall>q\<in>set qs. plain q" "r \<longrightarrow> n = 0" by (auto simp: normal_def)
  have "clean_parts r [] (replicate n ''..'') = replicate n ''..''"
    using ps(3) clean_parts_ups [of 0 n] by (cases r) auto
  then show ?thesis unfolding ps(1) clean_parts_append using clean_parts_plain [OF ps(2)] by simp
qed

lemma elements_normal: "normal (HasPrefix p ''/'') (elements p)"
  unfolding elements_def by (rule clean_parts_normal) (use Split_parts in \<open>blast, simp\<close>)

lemma normal_parts:
  assumes "normal r ps" "q \<in> set ps"
  shows "q = ''..'' \<and> \<not> r \<or> plain q"
proof -
  from assms(1) obtain n qs where "ps = replicate n ''..'' @ qs" "\<forall>q\<in>set qs. plain q" "r \<longrightarrow> n = 0" by (auto simp: normal_def)
  then show ?thesis using assms(2) by (cases n) (auto simp del: replicate.simps)
qed

lemma normal_names:
  assumes "normal r ps" "q \<in> set ps"
  shows "q \<noteq> []" "CHR ''/'' \<notin> set q"
  using normal_parts [OF assms] by (auto simp: plain_def)

lemma Split_slash: "Split (''/'' @ s) (CHR ''/'') = [] # Split s (CHR ''/'')"
  by simp

lemma elements_rooted:
  assumes "normal True ps"
  shows "elements (''/'' @ Join ps ''/'') = ps"
proof (cases "ps = []")
  case False
  have "Split (Join ps ''/'') (CHR ''/'') = ps" using Split_Join [of ps "CHR ''/''"] normal_names(2) [OF assms] False by blast
  then show ?thesis using clean_parts_fixed [OF assms] by (simp add: elements_def HasPrefix_def)
qed (simp add: elements_def)

lemma elements_Clean: "elements (Clean p) = elements p"
proof (cases "HasPrefix p ''/''")
  case True
  then have "p \<noteq> []" by (auto simp: HasPrefix_def)
  then show ?thesis using elements_rooted elements_normal [of p] True by (simp add: Clean_def)
next
  case False
  have dot: "elements ''.'' = []" by (simp add: elements_def)
  note n = elements_normal [of p]
  show ?thesis
  proof (cases "elements p = []")
    case True
    then show ?thesis using False dot by (simp add: Clean_def)
  next
    case ne: False
    have p: "p \<noteq> []" using ne by (auto simp: elements_def)
    let ?j = "Join (elements p) ''/''"
    have split: "Split ?j (CHR ''/'') = elements p" using Split_Join [of "elements p" "CHR ''/''"] normal_names(2) [OF n] ne by blast
    have "\<not> HasPrefix ?j ''/''"
    proof
      assume "HasPrefix ?j ''/''"
      then obtain t where "?j = ''/'' @ t" by (cases ?j) (auto simp: HasPrefix_def)
      then have "[] \<in> set (elements p)" using split Split_slash [of t] by (metis list.set_intros(1))
      then show False using normal_names(1) [OF n] by blast
    qed
    then have "elements ?j = elements p" using split clean_parts_fixed n False by (simp add: elements_def)
    then show ?thesis using False ne p by (simp add: Clean_def)
  qed
qed

lemma elements_append:
  assumes "dir \<noteq> []"
  shows "elements (dir @ ''/'' @ p) = clean_parts (HasPrefix dir ''/'') (elements dir) (Split p (CHR ''/''))"
proof -
  have "HasPrefix (dir @ ''/'' @ p) ''/'' = HasPrefix dir ''/''" using assms by (cases dir) (auto simp: HasPrefix_def)
  then show ?thesis using Split_append [of dir "CHR ''/''" p] by (simp add: elements_def clean_parts_append)
qed

text \<open>A path that is below a directory.\<close>

definition inside :: "string \<Rightarrow> string \<Rightarrow> bool" where
  "inside dir f \<longleftrightarrow> (\<exists>ps. elements f = elements dir @ ps \<and> (\<forall>p\<in>set ps. plain p))"

lemma Join_inside:
  assumes "dir \<noteq> []"
  shows "inside dir (filepath_Join dir (Clean (''/'' @ u)))" "inside dir (filepath_Join dir ''index.html'')"
proof -
  let ?ps = "elements (''/'' @ u)"
  have n: "normal True ?ps" using elements_normal [of "''/'' @ u"] by (simp add: HasPrefix_def)
  have c: "Clean (''/'' @ u) = ''/'' @ Join ?ps ''/''" by (simp add: Clean_def HasPrefix_def)
  have plain: "\<forall>p\<in>set ?ps. plain p" using normal_parts [OF n] by blast
  have "clean_parts r out (Split (''/'' @ Join ?ps ''/'') (CHR ''/'')) = out @ ?ps" for r out
  proof (cases "?ps = []")
    case False
    have "Split (Join ?ps ''/'') (CHR ''/'') = ?ps" using Split_Join [of ?ps "CHR ''/''"] normal_names(2) [OF n] False by blast
    then show ?thesis using clean_parts_plain [OF plain] by simp
  qed simp
  then have "elements (filepath_Join dir (Clean (''/'' @ u))) = elements dir @ ?ps"
    using assms unfolding c by (simp add: filepath_Join_def elements_Clean elements_append del: append.simps Split.simps)
  then show "inside dir (filepath_Join dir (Clean (''/'' @ u)))" using plain unfolding inside_def by blast
  have idx: "plain ''index.html''" by (simp add: plain_def)
  then have "elements (filepath_Join dir ''index.html'') = elements dir @ [''index.html'']"
    using assms by (simp add: filepath_Join_def elements_Clean elements_append Split_no_sep clean_parts_plain del: append.simps Split.simps clean_parts.simps)
  then show "inside dir (filepath_Join dir ''index.html'')" using idx unfolding inside_def by (metis empty_iff list.set(1) set_ConsD)
qed

section \<open>Properties\<close>



end
