(* ===== verification/Startup.thy ===== *)
theory Startup
  imports Boot_Spec Loadtest Static
begin

text \<open>
  The process from its start to its end: \<^verbatim>\<open>main\<close> of \<^verbatim>\<open>backend/main.go\<close> with \<^verbatim>\<open>NewStore\<close>, \<^verbatim>\<open>NewCache\<close>, \<^verbatim>\<open>openGeoIP\<close>
  and the loops of the background workers.  The drivers of Postgres, Redis and GeoLite2 are parameters; the time in
  which the server runs is one too, and so is what it leaves behind.  Log lines and the time limits of the HTTP
  server are left out.
\<close>

section \<open>Connections\<close>

record 'db pg_driver =
  pgx_ParseConfig :: "string \<Rightarrow> go_error option"
  pgx_NewWithConfig :: "string \<Rightarrow> nat \<Rightarrow> nat \<Rightarrow> 'db \<Rightarrow> go_error option \<times> 'db"
  pool_Ping :: "'db \<Rightarrow> go_error option \<times> 'db"

text \<open>The pool has at most 24 connections and at least 4.\<close>

definition NewStore :: "'db pg_driver \<Rightarrow> 'db pg \<Rightarrow> string \<Rightarrow> ring \<Rightarrow> 'db \<Rightarrow> (go_error + 'db store) \<times> 'db" where
  "NewStore D srv url ring d =
     (case pgx_ParseConfig D url of
        Some e \<Rightarrow> (Inl e, d)
      | None \<Rightarrow>
     (case pgx_NewWithConfig D url 24 4 d of
        (Some e, d1) \<Rightarrow> (Inl e, d1)
      | (None, d1) \<Rightarrow>
     (case pool_Ping D d1 of
        (Some e, d2) \<Rightarrow> (Inl e, d2)
      | (None, d2) \<Rightarrow>
          let (err, s) = migrate srv \<lparr>db = d2, st_ring = ring, pendingClicks = [], shardStats = None\<rparr>
          in (case err of Some e \<Rightarrow> (Inl e, db s) | None \<Rightarrow> (Inr s, db s)))))"

record 'r redis_driver =
  redis_ParseURL :: "string \<Rightarrow> go_error option"
  redis_Ping :: "nat \<Rightarrow> nat \<Rightarrow> 'r \<Rightarrow> go_error option \<times> 'r"
  redis_ConfigSet :: "string \<Rightarrow> string \<Rightarrow> 'r \<Rightarrow> 'r"

text \<open>A client with 192 connections, 32 of them idle; a refused change of the eviction policy is ignored.\<close>

definition NewCache :: "'r redis_driver \<Rightarrow> string \<Rightarrow> int \<Rightarrow> 'r \<Rightarrow> (go_error + 'r cache) \<times> 'r" where
  "NewCache D url ttlSeconds s =
     (case redis_ParseURL D url of
        Some e \<Rightarrow> (Inl e, s)
      | None \<Rightarrow>
     (case redis_Ping D 192 32 s of
        (Some e, s1) \<Rightarrow> (Inl e, s1)
      | (None, s1) \<Rightarrow>
          let s2 = redis_ConfigSet D ''maxmemory-policy'' ''allkeys-lru'' s1
          in (Inr \<lparr>rdb = s2, ttl = ttlSeconds * 1000, Hits = 0, Misses = 0, Sets = 0, Errors = 0, Warmed = 0,
                   serverAt = None, serverSnap = zero_stats\<rparr>, s2)))"

definition openGeoIP :: "(string \<Rightarrow> go_error + 'i geo_reader) \<Rightarrow> 'p config \<Rightarrow> 'i geo_reader option" where
  "openGeoIP opens cfg =
     (if cfg_GeoIPDB cfg = [] then None
      else case opens (cfg_GeoIPDB cfg) of Inl e \<Rightarrow> None | Inr g \<Rightarrow> Some g)"

section \<open>Background workers\<close>

text \<open>The merger, over the times of its ticks.\<close>

fun StartMerger :: "int list \<Rightarrow> olap \<Rightarrow> olap" where
  "StartMerger [] s = s"
| "StartMerger (now # ticks) s = StartMerger ticks (Retain (UnixMilli now) (mergeOnce s))"

text \<open>The flusher: a tick, with the order in which that flush visits the shards, or the end of its context.\<close>

datatype flusher_signal = Tick "(int, string list) gomap \<Rightarrow> (int, string list) gomap" | Context_done

fun StartClickFlusher :: "'db pg \<Rightarrow> flusher_signal list \<Rightarrow> 'db store \<Rightarrow> 'db store" where
  "StartClickFlusher srv [] st = st"
| "StartClickFlusher srv (Context_done # _) st = st"
| "StartClickFlusher srv (Tick order # sigs) st = StartClickFlusher srv sigs (flushClicks srv order st)"

section \<open>The main function\<close>

record ('r, 'db, 'i) drivers =
  d_pg :: "'db pg_driver"
  d_redis :: "'r redis_driver"
  d_geo :: "string \<Rightarrow> go_error + 'i geo_reader"

datatype fatal = Bad_secret secret_error | No_postgres go_error | No_redis go_error | Serve_error go_error

text \<open>
  Everything up to step 1.  \<^const>\<open>None\<close> would be the use of a connection that was never made.
\<close>

definition connect_app ::
  "('r, 'db, 'u, 'a, 'p, 'i) ext \<Rightarrow> ('r, 'db, 'i) drivers \<Rightarrow> 'p config \<Rightarrow> u64 \<Rightarrow> (u64 \<Rightarrow> u64) \<Rightarrow> bool \<Rightarrow> 'db \<Rightarrow> 'r
     \<Rightarrow> (fatal + ('r, 'db, 'u, 'a, 'p, 'i) ext \<times> ('r, 'db, 'p) app) option" where
  "connect_app X D cfg mEst kEst index d s =
     (case validateJWTSecret (cfg_JWTSecret cfg) of
        Some e \<Rightarrow> Some (Inl (Bad_secret e))
      | None \<Rightarrow>
          let a = newApp cfg mEst kEst index d s; X' = X\<lparr>x_geo := openGeoIP (d_geo D) cfg\<rparr>
          in (case fst (retry 60 (NewStore (d_pg D) (x_pg X) (cfg_PGURL cfg) (st_ring (a_store a))) d) of
                (_, Some e) \<Rightarrow> Some (Inl (No_postgres e))
              | (None, None) \<Rightarrow> None
              | (Some st, None) \<Rightarrow>
             (case fst (retry 30 (NewCache (d_redis D) (cfg_RedisURL cfg) (cfg_CacheTTL cfg)) s) of
                (_, Some e) \<Rightarrow> Some (Inl (No_redis e))
              | (None, None) \<Rightarrow> None
              | (Some c, None) \<Rightarrow> Some (Inr (X', a\<lparr>a_store := st, a_cache := c\<rparr>)))))"

definition main_start ::
  "('r, 'db, 'u, 'a, 'p, 'i) ext \<Rightarrow> auth_api \<Rightarrow> 'g seed_input \<Rightarrow> ('r, 'db, 'i) drivers \<Rightarrow> 'p config \<Rightarrow> u64 \<Rightarrow> (u64 \<Rightarrow> u64) \<Rightarrow> bool
     \<Rightarrow> 'db \<Rightarrow> 'r \<Rightarrow> (fatal + ('r, 'db, 'u, 'a, 'p, 'i) ext \<times> ('r, 'db, 'p) app) option" where
  "main_start X A I D cfg mEst kEst index d s =
     (case connect_app X D cfg mEst kEst index d s of
        None \<Rightarrow> None
      | Some (Inl f) \<Rightarrow> Some (Inl f)
      | Some (Inr (X', a)) \<Rightarrow> map_option (\<lambda>a'. Inr (X', a')) (load_data X' A I a))"

definition ErrServerClosed :: go_error where "ErrServerClosed = Err_other ''http: Server closed''"

text \<open>\<open>phase\<close> is the time until the server stops: its error, or \<^const>\<open>None\<close> for a signal, and the state it leaves.\<close>

definition main ::
  "('r, 'db, 'u, 'a, 'p, 'i) ext \<Rightarrow> auth_api \<Rightarrow> 'g seed_input \<Rightarrow> ('r, 'db, 'i) drivers \<Rightarrow> environment \<Rightarrow> u64 \<Rightarrow> (u64 \<Rightarrow> u64) \<Rightarrow> bool
     \<Rightarrow> (('r, 'db, 'u, 'a, 'p, 'i) ext \<Rightarrow> ('r, 'db, 'p) app \<Rightarrow> go_error option \<times> bench \<times> ('r, 'db, 'p) app)
     \<Rightarrow> ((int, string list) gomap \<Rightarrow> (int, string list) gomap) \<Rightarrow> 'db \<Rightarrow> 'r \<Rightarrow> (fatal + bench \<times> ('r, 'db, 'p) app) option" where
  "main X A I D getenv mEst kEst index phase order d s =
     (case main_start X A I D (loadConfig (x_netip X) (x_lower X) getenv) mEst kEst index d s of
        None \<Rightarrow> None
      | Some (Inl f) \<Rightarrow> Some (Inl f)
      | Some (Inr (X', a)) \<Rightarrow>
          let (err, b, a1) = phase X' a
          in (case err of
                Some e \<Rightarrow> if e \<noteq> ErrServerClosed then Some (Inl (Serve_error e)) else Some (Inr (shutdown X' order b a1))
              | None \<Rightarrow> Some (Inr (shutdown X' order b a1))))"

section \<open>Lemmas\<close>

text \<open>What the start relies on: connecting and pinging change no link table and no key.\<close>

definition drivers_ok :: "('r, 'db, 'i) drivers \<Rightarrow> ('db \<Rightarrow> tables) \<Rightarrow> ('r \<Rightarrow> string \<rightharpoonup> string) \<Rightarrow> bool" where
  "drivers_ok D tabs live \<longleftrightarrow> (\<forall>url m n d. tabs (snd (pgx_NewWithConfig (d_pg D) url m n d)) = tabs d)
     \<and> (\<forall>d. tabs (snd (pool_Ping (d_pg D) d)) = tabs d) \<and> (\<forall>m n s. live (snd (redis_Ping (d_redis D) m n s)) = live s)
     \<and> (\<forall>k v s. live (redis_ConfigSet (d_redis D) k v s) = live s)"

lemma retry_loop_keeps:
  assumes step: "\<And>s r s'. P s \<Longrightarrow> connect s = (r, s') \<Longrightarrow> P s' \<and> (\<forall>v. r = Inr v \<longrightarrow> Q v)"
  shows "P s \<Longrightarrow> fst (retry_loop connect n lst s) = (Some v, e) \<Longrightarrow> Q v"
proof (induction n arbitrary: lst s)
  case (Suc n)
  obtain r s' where c: "connect s = (r, s')" by fastforce
  with Suc.prems step [OF Suc.prems(1) c] Suc.IH [of s'] show ?case by (cases r) auto
qed simp

lemma exec_all_reads:
  assumes pg: "pg_ok srv tabs"
  shows "\<forall>q\<in>set qs. links_untouched q \<Longrightarrow> exec_all srv qs st = (e, st') \<Longrightarrow> reads tabs st st'"
proof (induction qs arbitrary: st)
  case (Cons q qs)
  obtain r s where run: "run_sql srv q st = (r, s)" by fastforce
  have "reads tabs st s" using untouched_reads [OF pg run] Cons.prems(1) by simp
  with Cons run show ?case by (cases r) (auto intro: reads_trans)
qed simp

lemma migrate_reads:
  assumes "pg_ok srv tabs" "migrate srv st = (e, st')"
  shows "reads tabs st st'"
  by (rule exec_all_reads [OF assms(1) _ assms(2) [unfolded migrate_def]]) auto

lemma NewStore_keeps:
  assumes pg: "pg_ok srv tabs" and D: "drivers_ok D tabs live" and run: "NewStore (d_pg D) srv url ring d = (r, d')"
  shows "tabs d' = tabs d \<and> (\<forall>st. r = Inr st \<longrightarrow> tabs (db st) = tabs d \<and> st_ring st = ring)"
proof -
  have new: "pgx_NewWithConfig (d_pg D) url m n d = (e, d1) \<Longrightarrow> tabs d1 = tabs d" for m n e d1
    using D by (metis drivers_ok_def snd_conv)
  have ping: "pool_Ping (d_pg D) d1 = (e, d2) \<Longrightarrow> tabs d2 = tabs d1" for e d1 d2
    using D by (metis drivers_ok_def snd_conv)
  have mig: "tabs (db st) = tabs d2 \<and> st_ring st = ring"
    if "migrate srv \<lparr>db = d2, st_ring = ring, pendingClicks = [], shardStats = None\<rparr> = (e, st)" for d2 e st
    using migrate_reads [OF pg that] by (simp add: reads_def)
  show ?thesis using run
    by (auto simp: NewStore_def Let_def split: option.splits prod.splits dest!: new ping mig)
qed

lemma NewCache_keeps:
  assumes D: "drivers_ok D tabs live" and run: "NewCache (d_redis D) url t s = (r, s')"
  shows "live s' = live s \<and> (\<forall>c. r = Inr c \<longrightarrow> live (rdb c) = live s)"
proof -
  have ping: "redis_Ping (d_redis D) m n s = (e, s1) \<Longrightarrow> live s1 = live s" for m n e s1
    using D by (metis drivers_ok_def snd_conv)
  have cs: "live (redis_ConfigSet (d_redis D) k v s1) = live s1" for k v s1 using D by (simp add: drivers_ok_def)
  show ?thesis using run by (auto simp: NewCache_def Let_def cs split: option.splits prod.splits dest!: ping)
qed

lemma connect_app_boots:
  fixes cfg mEst kEst index d s
  defines "a0 \<equiv> newApp cfg mEst kEst index d s"
  assumes world: "world_ok X tabs live" and D: "drivers_ok D tabs live" and run: "connect_app X D cfg mEst kEst index d s = Some (Inr (X', a))"
    and boot: "boots X tabs live a0"
  shows "boots X' tabs live a" "stored tabs (a_store a) = stored tabs (a_store a0)" "benchLinks a = []"
    and "world_ok X' tabs live" "x_sort X' = x_sort X"
proof -
  have pg: "pg_ok (x_pg X) tabs" using world by (simp add: world_ok_def)
  obtain st c where st: "fst (retry 60 (NewStore (d_pg D) (x_pg X) (cfg_PGURL cfg) (st_ring (a_store a0))) d) = (Some st, None)"
    and c: "fst (retry 30 (NewCache (d_redis D) (cfg_RedisURL cfg) (cfg_CacheTTL cfg)) s) = (Some c, None)"
    and X': "X' = X\<lparr>x_geo := openGeoIP (d_geo D) cfg\<rparr>" and a: "a = a0\<lparr>a_store := st, a_cache := c\<rparr>"
    using run by (auto simp: connect_app_def a0_def Let_def split: option.splits prod.splits)
  have d: "db (a_store a0) = d" "rdb (a_cache a0) = s" "benchLinks a0 = []" by (simp_all add: a0_def newApp_def)
  have "tabs (db st) = tabs d \<and> st_ring st = st_ring (a_store a0)"
    by (rule retry_loop_keeps [where P = "\<lambda>x. tabs x = tabs d", OF _ _ st [unfolded retry_def]])
      (use NewStore_keeps [OF pg D] in \<open>metis, simp\<close>)
  then have rd: "reads tabs (a_store a0) st" by (simp add: reads_def d)
  have "live (rdb c) = live s"
    by (rule retry_loop_keeps [where P = "\<lambda>x. live x = live s", OF _ _ c [unfolded retry_def]])
      (use NewCache_keeps [OF D] in \<open>metis, simp\<close>)
  then show "boots X' tabs live a" "stored tabs (a_store a) = stored tabs (a_store a0)"
    using boot reads_store [OF rd] by (simp_all add: boots_iff a X' d)
  show "benchLinks a = []" "x_sort X' = x_sort X" by (simp_all add: a d X')
  show "world_ok X' tabs live" using world by (simp add: world_ok_def X')
qed

text \<open>The merger performs store operations, so what holds after any of them holds after its ticks.\<close>

lemma StartMerger_ops: "StartMerger ticks s = fold exec (concat (map (\<lambda>now. [Op_Merge, Op_Retain (UnixMilli now)]) ticks)) s"
  by (induction ticks arbitrary: s) simp_all

lemma flushClicks_conserves:
  assumes "pg_ok srv tabs" "permutes_map order" "wf_map (pendingClicks st)"
  shows "click_inv tabs st (flushClicks srv order st, Idle, \<lambda>_. 0)"
  by (rule click_run_inv [OF click_run_star [OF flushClicks_run click_start] assms])

text \<open>However long the flusher runs and wherever it is stopped, stored and pending clicks of a link add up to the same number.\<close>

lemma StartClickFlusher_conserves:
  assumes pg: "pg_ok srv tabs"
  shows "\<forall>order. Tick order \<in> set sigs \<longrightarrow> permutes_map order \<Longrightarrow> wf_map (pendingClicks st) \<Longrightarrow> row_of tabs st c \<noteq> None
    \<Longrightarrow> clicks_of tabs (StartClickFlusher srv sigs st) c + mget 0 (pendingClicks (StartClickFlusher srv sigs st)) c
        = clicks_of tabs st c + mget 0 (pendingClicks st) c"
proof (induction sigs arbitrary: st)
  case (Cons sig sigs)
  show ?case
  proof (cases sig)
    case (Tick order)
    have "click_inv tabs st (flushClicks srv order st, Idle, \<lambda>_. 0)"
      by (rule flushClicks_conserves [OF pg]) (use Cons.prems Tick in auto)
    then show ?thesis using Cons Tick by (auto simp: click_inv_def)
  qed simp
qed simp

section \<open>Properties\<close>


text \<open>Drivers that always connect.\<close>

definition ready_drivers :: "(mem_redis, mem_db, unit) drivers" where
  "ready_drivers = \<lparr>d_pg = \<lparr>pgx_ParseConfig = (\<lambda>_. None), pgx_NewWithConfig = (\<lambda>_ _ _ d. (None, d)), pool_Ping = (\<lambda>d. (None, d))\<rparr>,
     d_redis = \<lparr>redis_ParseURL = (\<lambda>_. None), redis_Ping = (\<lambda>_ _ s. (None, s)), redis_ConfigSet = (\<lambda>_ _ s. s)\<rparr>,
     d_geo = (\<lambda>_. Inl (Err_other ''no such file''))\<rparr>"

lemma ready_ok: "drivers_ok ready_drivers mem_tables map_of"
  by (simp add: drivers_ok_def ready_drivers_def)

lemma retry_first: "connect s = (Inr v, s') \<Longrightarrow> 0 < n \<Longrightarrow> fst (retry n connect s) = (Some v, None)"
  by (cases n) (simp_all add: retry_def)

lemma boot_connects: "connect_app boot_ext ready_drivers boot_cfg 128 (\<lambda>_. 3) False own_db [] = Some (Inr (boot_ext, boot_app))"
proof -
  have sec: "validateJWTSecret (cfg_JWTSecret boot_cfg) = None"
  proof -
    have "validateJWTSecret (replicate 32 (CHR ''k'')) = None" by code_simp
    then show ?thesis by (simp add: boot_cfg_def)
  qed
  have X: "boot_ext\<lparr>x_geo := None\<rparr> = boot_ext" by (simp add: boot_ext_def demo_ext_def)
  have geo: "openGeoIP g boot_cfg = None" for g by (simp add: openGeoIP_def boot_cfg_def)
  let ?st = "a_store boot_app" and ?c = "a_cache boot_app"
  have fields: "?st = \<lparr>db = own_db, st_ring = st_ring ?st, pendingClicks = [], shardStats = None\<rparr>"
    "?c = \<lparr>rdb = [], ttl = cfg_CacheTTL boot_cfg * 1000, Hits = 0, Misses = 0, Sets = 0, Errors = 0, Warmed = 0, serverAt = None, serverSnap = zero_stats\<rparr>"
    by (simp_all add: boot_app_def newApp_def)
  have create: "run_sql boot_pg q ?st = (Inr Done, ?st)" if "q \<in> {Create_users, Create_links t, Create_index t}" for q t
    using that boot_store(1) by (auto simp: run_sql_def boot_pg_def own_db_def boot_app_def newApp_def)
  then have "migrate boot_pg ?st = (None, ?st)" by (simp add: migrate_def boot_store(3))
  then have "NewStore (d_pg ready_drivers) (x_pg boot_ext) (cfg_PGURL boot_cfg) (st_ring ?st) own_db = (Inr ?st, own_db)"
    using fields(1) boot_store(1) by (simp add: NewStore_def ready_drivers_def boot_ext_def)
  note st = retry_first [where connect = "NewStore (d_pg ready_drivers) (x_pg boot_ext) (cfg_PGURL boot_cfg) (st_ring ?st)", OF this, of 60]
  have "NewCache (d_redis ready_drivers) (cfg_RedisURL boot_cfg) (cfg_CacheTTL boot_cfg) [] = (Inr ?c, [])"
    by (simp add: NewCache_def ready_drivers_def fields(2))
  note c = retry_first [where connect = "NewCache (d_redis ready_drivers) (cfg_RedisURL boot_cfg) (cfg_CacheTTL boot_cfg)", OF this, of 30]
  show ?thesis using st c by (simp add: connect_app_def sec geo X boot_app_def [symmetric] Let_def)
qed


end
