(* ===== verification/Spec2Isabelle.thy ===== *)
theory Spec2Isabelle
  imports Startup
begin

text \<open>
  \<^bold>\<open>Kortex\<close> is a link shortener with built-in analytics, one Go program under \<^verbatim>\<open>src/backend\<close>.  A short code is an
  encoded Snowflake identifier or a chosen alias.  Links are rows of Postgres tables sharded by a
  consistent-hash ring; in front of them stand a Redis cache and a Bloom filter.  A redirect answers from
  the cache or the shard, counts the click in memory (written out in batches), and produces an event on an
  in-process bus, whose consumers insert batches into a columnar store with materialised views, which the
  analytics handlers query.  Accounts use signed tokens whose revocations live in Redis.  Around this stand
  the benchmarks, the laboratory, the seeding at boot, and the life of the process.

  \<^bold>\<open>Conventions.\<close>  Go's fixed-width integers are words where they wrap (identifiers, hashes, filter bits,
  counters), \<^verbatim>\<open>int\<close> and durations are \<^typ>\<open>int\<close>; a string is a byte string; a map is an association list with
  distinct keys, and an argument (\<open>order\<close>, \<open>days\<close>) gives the order where the result of ranging over one could
  matter.  A panic, and a clock trace or fuel that is too short, is \<^const>\<open>None\<close>; an error is \<^const>\<open>Inl\<close>.  A handler takes
  the request, the application state and the instants and random bytes it reads, and returns the response
  and the new state.  Code outside the repository is a parameter: the Redis server and the
  JSON codec (\<open>Cache\<close>), the SQL server (\<open>Pg\<close>), the URL, IP and GeoIP libraries, bcrypt, the token library and
  the mail parser (\<open>Auth\<close>), the database drivers (\<open>Startup\<close>), the file system (\<open>Static\<close>), the sorting of equal elements,
  and random generators.  What is assumed of them
  is named: \<open>redis_serves\<close> (a read returns what was last written, or nothing), \<open>setnx_atomic\<close>, \<open>redis_clocked\<close> and
  \<open>redis_counts\<close> (entries live until they expire, counters count), \<open>json_roundtrip\<close>, \<open>pg_ok\<close> (a statement that
  succeeds does what its text says; any statement may fail), \<open>drivers_ok\<close> (connecting and pinging change no data),
  \<open>rng_ok\<close> and \<open>decides_within\<close>.  \<open>Testbed\<close> satisfies the
  server contracts with in-memory servers, which the witnesses use.

  \<^bold>\<open>Theories\<close>, in the order of their imports.

  \<^item> \<open>Kortex_Prelude\<close>: machine types, decimal printing, maps, and the interfaces as locales: \<open>codec\<close>,
    \<open>increasing_source\<close>, \<open>router\<close>, \<open>approx_set\<close>, \<open>preserved\<close> (and \<open>counter_view\<close> in \<open>Olap_Inv\<close>); each is interpreted on the code's own definitions in
    the component that provides it.  \<open>Gotime\<close> (the calendar of \<^verbatim>\<open>time\<close>), \<open>Gostr\<close> (\<^verbatim>\<open>strings\<close>, \<^verbatim>\<open>strconv\<close>, \<^verbatim>\<open>utf8\<close>).
  \<^item> \<open>Idgen\<close> (\<^verbatim>\<open>idgen.go\<close>): generator, scrambling, base 62.  Identifiers are strictly increasing for every clock, codes
    round-trip, and the generator waits no longer than for a later millisecond.
  \<^item> \<open>Shard\<close> (\<^verbatim>\<open>shard.go\<close>): a lookup is the first virtual node clockwise; growing the ring moves keys only to new shards.
  \<^item> \<open>Bloom\<close> (\<^verbatim>\<open>bloom.go\<close>): no false negatives, and the filter as a set of bit positions.
  \<^item> \<open>Bus\<close> (\<^verbatim>\<open>bus.go\<close>): producers, dispatcher and consumers as a step relation whose steps are the critical sections;
    offsets, order per code, bounds, progress and what a drained bus means, by rule induction.
  \<^item> \<open>Dict\<close>, \<open>Olap\<close>, \<open>Olap_Inv\<close>, \<open>Olap_Run\<close>, \<open>Olap_Query\<close> (\<^verbatim>\<open>olap.go\<close>): dictionary, parts, views, insert, merge, retention,
    purge and queries.  The views are exact after any sequence of operations, and every query through them
    equals the full scan.
  \<^item> \<open>Validate\<close>, \<open>Httputil\<close>, \<open>Useragent\<close>, \<open>Config\<close>, \<open>Synthetic\<close>: the input rules, the client address behind proxies, the
    user-agent classes, the configuration with the CORS rule, and the tables of synthetic traffic.
  \<^item> \<open>Cache\<close> (\<^verbatim>\<open>cache.go\<close>), \<open>Pg\<close> and \<open>Pg_Spec\<close> (\<^verbatim>\<open>pg.go\<close>): no click is lost or counted twice in any interleaving of
    redirects with a flush whose statements may fail; a listing over all shards is globally the newest.
  \<^item> \<open>Links\<close>, \<open>Links_Spec\<close> (\<^verbatim>\<open>handlers_links.go\<close>, \<^verbatim>\<open>handlers_redirect.go\<close>): every handler of the write and read paths, and
    the coherence of cache, filter and shards that each of them keeps.
  \<^item> \<open>Service\<close> (with \<^verbatim>\<open>newApp\<close> and \<^verbatim>\<open>warmUp\<close> of \<^verbatim>\<open>main.go\<close>): from boot on the service refines a plain table of links; and two
    ways in which it does not, a failed warm-up and a cache fill overtaken by a deletion.
  \<^item> \<open>Auth\<close>, \<open>Auth_Spec\<close> (\<^verbatim>\<open>auth.go\<close>, \<^verbatim>\<open>handlers_auth.go\<close>): refresh tokens are accepted once, a logout ends the session, five
    failures lock an address and email, over a Redis whose entries expire.
  \<^item> \<open>Analytics\<close> (\<^verbatim>\<open>handlers_analytics.go\<close>): queries are about the caller's own links, and the query race is a tie.
  \<^item> \<open>Histogram\<close>, \<open>Bench\<close> (\<^verbatim>\<open>bench.go\<close>): lock-free recording equals sequential recording; percentiles; one run at a time; the
    rows of an ingest run; the race at the end of a run.  \<open>Loadtest\<close> runs the redirect benchmark against the modelled
    service: it changes no link, and counts as errors exactly the lost requests and the refusals of the store.
  \<^item> \<open>Lab\<close> (\<^verbatim>\<open>handlers_lab.go\<close>): bursts without collisions, the playground filter and what its list of keys forgets.
  \<^item> \<open>Seed\<close> (\<^verbatim>\<open>seed.go\<close>): accounts, links and the backfill, whose rejection loop accepts at least one draw in twenty.
  \<^item> \<open>Boot\<close> (\<^verbatim>\<open>main.go\<close>, \<^verbatim>\<open>routes.go\<close>): retries, the data steps of the boot, the route table, the shutdown and the clicks
    it can lose.
  \<^item> \<open>Boot_Spec\<close>: the seeding as a whole, step by step over one invariant.  Whatever fails, no link is lost and at most its owner
    changes; when it succeeds, cache and shards agree again.
  \<^item> \<open>Static\<close> (\<^verbatim>\<open>spaHandler\<close> of \<^verbatim>\<open>routes.go\<close>): path cleaning, and that no request reaches a file outside the frontend directory.
  \<^item> \<open>Startup\<close> (\<^verbatim>\<open>main\<close>, \<^verbatim>\<open>NewStore\<close>, \<^verbatim>\<open>NewCache\<close>, the loops of merger and flusher): the composition of all the above.  From the start of
    the process on, the service refines a table of links that contains every link stored before.

  \<^bold>\<open>Bounds and fuel.\<close>  Clock readings of the generator lie in the 41-bit window from its epoch.  The two floating-point size
    formulas of a filter are arguments of at most \<open>2 ^ 63\<close> bits.  \<open>wait_next_ms\<close> consumes a finite clock trace, and
    returns once it shows a later millisecond.  The only loop with fuel is \<open>sample_time\<close>; it returns when one of the
    next \<open>fuel\<close> decisions is below one twentieth, which is below the acceptance bound everywhere in the window.
    Floating-point numbers elsewhere (rates, activity, weights) are reals.

  \<^bold>\<open>Not modelled.\<close>  The network, timeouts, signals and timers (the ticks are steps); the texts of log lines and measured durations with
    the rates derived from them; how chi matches a path, and Go's file server; the settings of HTTP client and server, the
    limit on request bodies and the pool statistics; requests that overlap a benchmark or the seeding (they are run one
    after the other); the eviction of revocations and counters from Redis under memory pressure; the frontend, the container
    files and the unit tests.
\<close>

end
